(* ===== verification/Prelude.thy ===== *)
theory Prelude
  imports Main "HOL-Library.Word" "HOL-Library.Monad_Syntax"
begin

unbundle bit_operations_syntax

text \<open>
  Shared vocabulary of the development: the machine types of the C sources (bytes,
  64-bit words), nullable pointers, and the generic facts about lists, options and words
  that several components use. A C \<^verbatim>\<open>char\<close> buffer is a list of \<open>byte\<close>s; \<open>ch\<close> reads a
  character constant of the source as a byte, so that literals keep their C spelling.
\<close>

section \<open>Machine types\<close>

type_synonym byte = "8 word"
type_synonym u16 = "16 word"
type_synonym u32 = "32 word"
type_synonym u64 = "64 word"
type_synonym addr = nat
type_synonym ptr = "addr option"  \<comment> \<open>\<open>None\<close> is \<^verbatim>\<open>NULL\<close>\<close>

abbreviation ch :: "char \<Rightarrow> byte" where
  "ch c \<equiv> of_char c"

abbreviation bytes_of :: "string \<Rightarrow> byte list" where
  "bytes_of s \<equiv> map ch s"

section \<open>Rule collections\<close>

named_theorems heap_simps \<open>evaluation of heap reads and writes\<close>
named_theorems frame_rules \<open>writes outside a structure leave it alone\<close>

section \<open>Options and lists\<close>

lemma bind_Some_iff:
  "Option.bind x f = Some y \<longleftrightarrow> (\<exists>a. x = Some a \<and> f a = Some y)"
  by (cases x) auto

lemma last_append_single [simp]: "butlast (xs @ [x]) = xs" "last (xs @ [x]) = x"
  by simp_all

end
