(* ===== verification/Adlist.thy ===== *)
theory Adlist
  imports Prelude
begin

text \<open>
  The generic doubly linked list of \<^verbatim>\<open>src/adlist.c\<close>, on an explicit store. A node is a
  record of two pointers and a value, the store maps addresses to nodes, and every
  operation is a state transformer in the option monad: \<open>None\<close> is a read or write
  through a null or dangling pointer, which C leaves undefined. Values handed to the list's
  \<^verbatim>\<open>free\<close> method are logged in the store, in order. The representation predicate
  \<open>list_rep\<close> relates a list header to the sequence of its nodes, and the lemmas show
  that each operation succeeds on a represented list and acts on the sequence as its
  comment promises.
\<close>

section \<open>Nodes, lists and the store\<close>

record 'v listNode =
  node_prev :: ptr
  node_next :: ptr
  node_value :: 'v

record listIter =
  iter_next :: ptr
  iter_dir :: nat

record 'v adlist =
  head :: ptr
  tail :: ptr
  dup_method :: "('v \<Rightarrow> 'v option) option"
  free_method :: bool
  match_method :: "('v \<Rightarrow> 'v \<Rightarrow> bool) option"
  len :: nat

record 'v store =
  cells :: "addr \<rightharpoonup> 'v listNode"
  freed :: "'v list"

definition AL_START_HEAD :: nat where "AL_START_HEAD = 0"
definition AL_START_TAIL :: nat where "AL_START_TAIL = 1"

definition deref :: "'v store \<Rightarrow> ptr \<Rightarrow> 'v listNode option" where
  "deref m p = Option.bind p (cells m)"

definition put_node :: "addr \<Rightarrow> 'v listNode \<Rightarrow> 'v store \<Rightarrow> 'v store" where
  "put_node a nd m = m\<lparr>cells := (cells m)(a \<mapsto> nd)\<rparr>"

definition set_next :: "ptr \<Rightarrow> ptr \<Rightarrow> 'v store \<Rightarrow> 'v store option" where
  "set_next p n m = do { a \<leftarrow> p; nd \<leftarrow> cells m a; Some (put_node a (nd\<lparr>node_next := n\<rparr>) m) }"

definition set_prev :: "ptr \<Rightarrow> ptr \<Rightarrow> 'v store \<Rightarrow> 'v store option" where
  "set_prev p n m = do { a \<leftarrow> p; nd \<leftarrow> cells m a; Some (put_node a (nd\<lparr>node_prev := n\<rparr>) m) }"

definition zfree_node :: "addr \<Rightarrow> 'v store \<Rightarrow> 'v store" where
  "zfree_node a m = m\<lparr>cells := (cells m)(a := None)\<rparr>"

definition call_free :: "'v adlist \<Rightarrow> 'v \<Rightarrow> 'v store \<Rightarrow> 'v store" where
  "call_free l v m = (if free_method l then m\<lparr>freed := freed m @ [v]\<rparr> else m)"

text \<open>
  \<^verbatim>\<open>zmalloc\<close> is a parameter: from the store it returns an address, or \<open>None\<close> when
  memory is exhausted. What the code relies on is that the address is not in use.
\<close>

type_synonym 'v allocator = "'v store \<Rightarrow> ptr"

definition fresh_alloc :: "'v allocator \<Rightarrow> bool" where
  "fresh_alloc zm \<longleftrightarrow> (\<forall>m a. zm m = Some a \<longrightarrow> cells m a = None)"

section \<open>The operations of adlist.c\<close>

definition listCreate :: "'v adlist" where
  "listCreate = \<lparr>head = None, tail = None, dup_method = None, free_method = False,
     match_method = None, len = 0\<rparr>"

fun listEmpty_loop :: "'v adlist \<Rightarrow> nat \<Rightarrow> ptr \<Rightarrow> 'v store \<Rightarrow> 'v store option" where
  "listEmpty_loop l 0 current m = Some m"
| "listEmpty_loop l (Suc n) current m = do {
     a \<leftarrow> current;
     nd \<leftarrow> cells m a;
     listEmpty_loop l n (node_next nd) (zfree_node a (call_free l (node_value nd) m)) }"

definition listEmpty :: "'v adlist \<Rightarrow> 'v store \<Rightarrow> ('v adlist \<times> 'v store) option" where
  "listEmpty l m = do {
     m' \<leftarrow> listEmpty_loop l (len l) (head l) m;
     Some (l\<lparr>head := None, tail := None, len := 0\<rparr>, m') }"

text \<open>Releasing also frees the header itself, which the model holds by value.\<close>

definition listRelease :: "'v adlist \<Rightarrow> 'v store \<Rightarrow> 'v store option" where
  "listRelease l m = map_option snd (listEmpty l m)"

text \<open>
  The functions that allocate return the updated list, or \<open>None\<close> in the first component
  where the C function returns \<^verbatim>\<open>NULL\<close>.
\<close>

definition listAddNodeHead ::
  "'v allocator \<Rightarrow> 'v adlist \<Rightarrow> 'v \<Rightarrow> 'v store \<Rightarrow> ('v adlist option \<times> 'v store) option" where
  "listAddNodeHead zm l v m =
     (case zm m of
        None \<Rightarrow> Some (None, m)
      | Some node \<Rightarrow>
          if len l = 0 then
            Some (Some (l\<lparr>head := Some node, tail := Some node, len := len l + 1\<rparr>),
                  put_node node \<lparr>node_prev = None, node_next = None, node_value = v\<rparr> m)
          else do {
            m1 \<leftarrow> Some (put_node node \<lparr>node_prev = None, node_next = head l, node_value = v\<rparr> m);
            m2 \<leftarrow> set_prev (head l) (Some node) m1;
            Some (Some (l\<lparr>head := Some node, len := len l + 1\<rparr>), m2) })"

definition listAddNodeTail ::
  "'v allocator \<Rightarrow> 'v adlist \<Rightarrow> 'v \<Rightarrow> 'v store \<Rightarrow> ('v adlist option \<times> 'v store) option" where
  "listAddNodeTail zm l v m =
     (case zm m of
        None \<Rightarrow> Some (None, m)
      | Some node \<Rightarrow>
          if len l = 0 then
            Some (Some (l\<lparr>head := Some node, tail := Some node, len := len l + 1\<rparr>),
                  put_node node \<lparr>node_prev = None, node_next = None, node_value = v\<rparr> m)
          else do {
            m1 \<leftarrow> Some (put_node node \<lparr>node_prev = tail l, node_next = None, node_value = v\<rparr> m);
            m2 \<leftarrow> set_next (tail l) (Some node) m1;
            Some (Some (l\<lparr>tail := Some node, len := len l + 1\<rparr>), m2) })"

definition listInsertNode ::
  "'v allocator \<Rightarrow> 'v adlist \<Rightarrow> ptr \<Rightarrow> 'v \<Rightarrow> bool \<Rightarrow> 'v store
     \<Rightarrow> ('v adlist option \<times> 'v store) option" where
  "listInsertNode zm l old_node v after m =
     (case zm m of
        None \<Rightarrow> Some (None, m)
      | Some node \<Rightarrow> do {
          old \<leftarrow> deref m old_node;
          (l1, nd) \<leftarrow>
            (if after then
               Some (if tail l = old_node then l\<lparr>tail := Some node\<rparr> else l,
                     \<lparr>node_prev = old_node, node_next = node_next old, node_value = v\<rparr>)
             else
               Some (if head l = old_node then l\<lparr>head := Some node\<rparr> else l,
                     \<lparr>node_prev = node_prev old, node_next = old_node, node_value = v\<rparr>));
          m1 \<leftarrow> Some (put_node node nd m);
          m2 \<leftarrow> (if node_prev nd \<noteq> None then set_next (node_prev nd) (Some node) m1 else Some m1);
          m3 \<leftarrow> (if node_next nd \<noteq> None then set_prev (node_next nd) (Some node) m2 else Some m2);
          Some (Some (l1\<lparr>len := len l1 + 1\<rparr>), m3) })"

definition listDelNode :: "'v adlist \<Rightarrow> ptr \<Rightarrow> 'v store \<Rightarrow> ('v adlist \<times> 'v store) option" where
  "listDelNode l node m = do {
     a \<leftarrow> node;
     nd \<leftarrow> cells m a;
     (l1, m1) \<leftarrow>
       (if node_prev nd \<noteq> None
        then do { m1 \<leftarrow> set_next (node_prev nd) (node_next nd) m; Some (l, m1) }
        else Some (l\<lparr>head := node_next nd\<rparr>, m));
     nd1 \<leftarrow> cells m1 a;
     (l2, m2) \<leftarrow>
       (if node_next nd1 \<noteq> None
        then do { m2 \<leftarrow> set_prev (node_next nd1) (node_prev nd1) m1; Some (l1, m2) }
        else Some (l1\<lparr>tail := node_prev nd1\<rparr>, m1));
     m3 \<leftarrow> Some (zfree_node a (call_free l2 (node_value nd1) m2));
     Some (l2\<lparr>len := len l2 - 1\<rparr>, m3) }"

definition listGetIterator :: "'v adlist \<Rightarrow> nat \<Rightarrow> listIter" where
  "listGetIterator l direction =
     (if direction = AL_START_HEAD then \<lparr>iter_next = head l, iter_dir = direction\<rparr>
      else \<lparr>iter_next = tail l, iter_dir = direction\<rparr>)"

definition listRewind :: "'v adlist \<Rightarrow> listIter" where
  "listRewind l = \<lparr>iter_next = head l, iter_dir = AL_START_HEAD\<rparr>"

definition listRewindTail :: "'v adlist \<Rightarrow> listIter" where
  "listRewindTail l = \<lparr>iter_next = tail l, iter_dir = AL_START_TAIL\<rparr>"

definition listNext :: "listIter \<Rightarrow> 'v store \<Rightarrow> (ptr \<times> listIter) option" where
  "listNext iter m =
     (case iter_next iter of
        None \<Rightarrow> Some (None, iter)
      | Some a \<Rightarrow> do {
          nd \<leftarrow> cells m a;
          Some (Some a,
            iter\<lparr>iter_next := (if iter_dir iter = AL_START_HEAD then node_next nd
                               else node_prev nd)\<rparr>) })"

text \<open>
  The loops that run an iterator to its end take fuel: a corrupt list may be circular, and
  then the C loop does not return. The number of nodes plus one is enough on a represented
  list.
\<close>

fun listDup_loop ::
  "nat \<Rightarrow> 'v allocator \<Rightarrow> listIter \<Rightarrow> 'v adlist \<Rightarrow> 'v store
     \<Rightarrow> ('v adlist option \<times> 'v store) option" where
  "listDup_loop 0 zm iter copy m = None"
| "listDup_loop (Suc fuel) zm iter copy m = do {
     (node, iter') \<leftarrow> listNext iter m;
     (case node of
        None \<Rightarrow> Some (Some copy, m)
      | Some a \<Rightarrow> do {
          nd \<leftarrow> cells m a;
          (case (case dup_method copy of None \<Rightarrow> Some (node_value nd)
                                       | Some dup \<Rightarrow> dup (node_value nd)) of
             None \<Rightarrow> do { m' \<leftarrow> listRelease copy m; Some (None, m') }
           | Some v \<Rightarrow> do {
               (copy', m') \<leftarrow> listAddNodeTail zm copy v m;
               (case copy' of
                  None \<Rightarrow> do { m'' \<leftarrow> listRelease copy m'; Some (None, m'') }
                | Some c \<Rightarrow> listDup_loop fuel zm iter' c m') }) }) }"

definition listDup ::
  "nat \<Rightarrow> 'v allocator \<Rightarrow> 'v adlist \<Rightarrow> 'v store \<Rightarrow> ('v adlist option \<times> 'v store) option" where
  "listDup fuel zm orig m =
     listDup_loop fuel zm (listRewind orig)
       (listCreate\<lparr>dup_method := dup_method orig, free_method := free_method orig,
                   match_method := match_method orig\<rparr>) m"

fun listSearchKey_loop :: "nat \<Rightarrow> 'v adlist \<Rightarrow> 'v \<Rightarrow> listIter \<Rightarrow> 'v store \<Rightarrow> ptr option" where
  "listSearchKey_loop 0 l key iter m = None"
| "listSearchKey_loop (Suc fuel) l key iter m = do {
     (node, iter') \<leftarrow> listNext iter m;
     (case node of
        None \<Rightarrow> Some None
      | Some a \<Rightarrow> do {
          nd \<leftarrow> cells m a;
          (if (case match_method l of Some match \<Rightarrow> match (node_value nd) key
                                    | None \<Rightarrow> key = node_value nd)
           then Some (Some a)
           else listSearchKey_loop fuel l key iter' m) }) }"

definition listSearchKey :: "nat \<Rightarrow> 'v adlist \<Rightarrow> 'v \<Rightarrow> 'v store \<Rightarrow> ptr option" where
  "listSearchKey fuel l key m = listSearchKey_loop fuel l key (listRewind l) m"

fun walk_prev :: "nat \<Rightarrow> ptr \<Rightarrow> 'v store \<Rightarrow> ptr option" where
  "walk_prev 0 n m = Some n"
| "walk_prev (Suc i) n m =
     (case n of None \<Rightarrow> Some None
              | Some a \<Rightarrow> do { nd \<leftarrow> cells m a; walk_prev i (node_prev nd) m })"

fun walk_next :: "nat \<Rightarrow> ptr \<Rightarrow> 'v store \<Rightarrow> ptr option" where
  "walk_next 0 n m = Some n"
| "walk_next (Suc i) n m =
     (case n of None \<Rightarrow> Some None
              | Some a \<Rightarrow> do { nd \<leftarrow> cells m a; walk_next i (node_next nd) m })"

definition listIndex :: "'v adlist \<Rightarrow> int \<Rightarrow> 'v store \<Rightarrow> ptr option" where
  "listIndex l index m =
     (if index < 0 then walk_prev (nat (- index - 1)) (tail l) m
      else walk_next (nat index) (head l) m)"

definition listRotateTailToHead :: "'v adlist \<Rightarrow> 'v store \<Rightarrow> ('v adlist \<times> 'v store) option" where
  "listRotateTailToHead l m =
     (if len l \<le> 1 then Some (l, m)
      else do {
        let tl = tail l;
        nd \<leftarrow> deref m tl;
        let l1 = l\<lparr>tail := node_prev nd\<rparr>;
        m1 \<leftarrow> set_next (tail l1) None m;
        m2 \<leftarrow> set_prev (head l1) tl m1;
        m3 \<leftarrow> set_prev tl None m2;
        m4 \<leftarrow> set_next tl (head l1) m3;
        Some (l1\<lparr>head := tl\<rparr>, m4) })"

definition listRotateHeadToTail :: "'v adlist \<Rightarrow> 'v store \<Rightarrow> ('v adlist \<times> 'v store) option" where
  "listRotateHeadToTail l m =
     (if len l \<le> 1 then Some (l, m)
      else do {
        let hd = head l;
        nd \<leftarrow> deref m hd;
        let l1 = l\<lparr>head := node_next nd\<rparr>;
        m1 \<leftarrow> set_prev (head l1) None m;
        m2 \<leftarrow> set_next (tail l1) hd m1;
        m3 \<leftarrow> set_next hd None m2;
        m4 \<leftarrow> set_prev hd (tail l1) m3;
        Some (l1\<lparr>tail := hd\<rparr>, m4) })"

definition listJoin ::
  "'v adlist \<Rightarrow> 'v adlist \<Rightarrow> 'v store \<Rightarrow> ('v adlist \<times> 'v adlist \<times> 'v store) option" where
  "listJoin l other m = do {
     m1 \<leftarrow> (if head other \<noteq> None then set_prev (head other) (tail l) m else Some m);
     (l1, m2) \<leftarrow>
       (if tail l \<noteq> None
        then do { m2 \<leftarrow> set_next (tail l) (head other) m1; Some (l, m2) }
        else Some (l\<lparr>head := head other\<rparr>, m1));
     let l2 = (if tail other \<noteq> None then l1\<lparr>tail := tail other\<rparr> else l1);
     Some (l2\<lparr>len := len l2 + len other\<rparr>,
           other\<lparr>head := None, tail := None, len := 0\<rparr>, m2) }"

section \<open>The representation predicate\<close>

text \<open>
  \<open>dlseg c p x ns l n\<close>: from pointer \<open>x\<close> the store \<open>c\<close> holds the doubly linked
  segment of the nodes \<open>ns\<close> (address and value of each, in order); the first node's
  \<open>prev\<close> is \<open>p\<close>, the last node is \<open>l\<close> and its \<open>next\<close> is \<open>n\<close>.
\<close>

fun dlseg :: "(addr \<rightharpoonup> 'v listNode) \<Rightarrow> ptr \<Rightarrow> ptr \<Rightarrow> (addr \<times> 'v) list \<Rightarrow> ptr \<Rightarrow> ptr \<Rightarrow> bool" where
  "dlseg c p x [] l n \<longleftrightarrow> x = n \<and> l = p"
| "dlseg c p x ((a, v) # ns) l n \<longleftrightarrow>
     x = Some a \<and>
     (case c a of None \<Rightarrow> False
      | Some nd \<Rightarrow> node_prev nd = p \<and> node_value nd = v \<and>
                  dlseg c (Some a) (node_next nd) ns l n)"

definition list_rep :: "'v store \<Rightarrow> 'v adlist \<Rightarrow> (addr \<times> 'v) list \<Rightarrow> bool" where
  "list_rep m l ns \<longleftrightarrow>
     dlseg (cells m) None (head l) ns (tail l) None \<and> distinct (map fst ns) \<and> len l = length ns"

lemmas heap_defs = deref_def put_node_def set_next_def set_prev_def zfree_node_def

lemma dlseg_Cons:
  "dlseg c p x ((a, v) # ns) l n \<longleftrightarrow>
     x = Some a \<and> (\<exists>y. c a = Some \<lparr>node_prev = p, node_next = y, node_value = v\<rparr>
                     \<and> dlseg c (Some a) y ns l n)"
proof (cases "c a")
  case (Some nd)
  then show ?thesis by (cases nd) auto
qed simp

lemma dlseg_append:
  "dlseg c p x (as @ bs) l n \<longleftrightarrow> (\<exists>k y. dlseg c p x as k y \<and> dlseg c k y bs l n)"
  by (induction as arbitrary: p x) (fastforce split: option.splits)+

lemma dlseg_single [simp]:
  "dlseg c p x [(a, v)] l n \<longleftrightarrow>
     x = Some a \<and> l = Some a \<and> c a = Some \<lparr>node_prev = p, node_next = n, node_value = v\<rparr>"
  by (auto split: option.splits)

lemma dlseg_snoc:
  "dlseg c p x (as @ [(a, v)]) l n \<longleftrightarrow>
     (\<exists>k. dlseg c p x as k (Some a) \<and> l = Some a \<and>
          c a = Some \<lparr>node_prev = k, node_next = n, node_value = v\<rparr>)"
  by (auto simp: dlseg_append split: option.splits)

lemma dlseg_mid:
  "dlseg c p x (as @ (a, v) # bs) l n \<longleftrightarrow>
     (\<exists>k y. dlseg c p x as k (Some a) \<and> c a = Some \<lparr>node_prev = k, node_next = y, node_value = v\<rparr>
            \<and> dlseg c (Some a) y bs l n)"
  by (simp add: dlseg_append dlseg_Cons del: dlseg.simps(2))

lemma dlseg_frame [frame_rules]:
  "a \<notin> fst ` set ns \<Longrightarrow> dlseg (c(a := z)) p x ns l n = dlseg c p x ns l n"
  by (induction ns arbitrary: p x) (auto split: option.splits)

lemma dlseg_addr_live: "dlseg c p x ns l n \<Longrightarrow> a \<in> fst ` set ns \<Longrightarrow> c a \<noteq> None"
  by (induction ns arbitrary: p x) (auto split: option.splits, force)

lemma dlseg_last_in: "dlseg c p x ns l n \<Longrightarrow> l = p \<or> (\<exists>b \<in> fst ` set ns. l = Some b)"
  by (cases ns rule: rev_cases) (auto simp: dlseg_snoc)

lemma dlseg_first_in: "dlseg c p x ns l n \<Longrightarrow> x = n \<or> (\<exists>b \<in> fst ` set ns. x = Some b)"
  by (cases ns) auto

lemma dlseg_last_None: "dlseg c p x ns None n \<Longrightarrow> ns = []"
proof (cases ns rule: rev_cases)
  case (snoc ys y)
  moreover assume "dlseg c p x ns None n"
  ultimately show ?thesis by (cases y) (auto simp: dlseg_snoc)
qed simp

lemma dlseg_first_None: "dlseg c p None ns l n \<Longrightarrow> ns = []"
  by (cases ns) auto

text \<open>Changing the \<open>prev\<close> of the first node, or the \<open>next\<close> of the last one.\<close>

lemma dlseg_set_first_prev:
  assumes "dlseg c p (Some a) ns l n" "ns \<noteq> []" "distinct (map fst ns)" "c a = Some nd"
  shows "dlseg (c(a \<mapsto> nd\<lparr>node_prev := q\<rparr>)) q (Some a) ns l n"
  using assms by (cases ns) (auto simp: dlseg_frame)

lemma dlseg_set_last_next:
  assumes "dlseg c p x ns (Some a) n" "ns \<noteq> []" "distinct (map fst ns)" "c a = Some nd"
  shows "dlseg (c(a \<mapsto> nd\<lparr>node_next := q\<rparr>)) p x ns (Some a) q"
proof (cases ns rule: rev_cases)
  case (snoc ys y)
  with assms show ?thesis by (cases y) (auto simp: dlseg_snoc dlseg_frame)
qed (use assms in simp)

lemma list_repD:
  assumes "list_rep m l ns"
  shows "dlseg (cells m) None (head l) ns (tail l) None" "distinct (map fst ns)" "len l = length ns"
  using assms by (auto simp: list_rep_def)

lemma list_rep_empty: "list_rep m listCreate []"
  by (simp add: list_rep_def listCreate_def)

lemma list_rep_frame:
  "list_rep m l ns \<Longrightarrow> a \<notin> fst ` set ns \<Longrightarrow> list_rep (m\<lparr>cells := (cells m)(a := z)\<rparr>) l ns"
  by (auto simp: list_rep_def dlseg_frame)

lemma list_rep_live: "list_rep m l ns \<Longrightarrow> a \<in> fst ` set ns \<Longrightarrow> cells m a \<noteq> None"
  by (auto simp: list_rep_def dest: dlseg_addr_live)

lemma fresh_notin:
  assumes "fresh_alloc zm" "zm m = Some a" "list_rep m l ns"
  shows "a \<notin> fst ` set ns"
  using assms dlseg_addr_live by (fastforce simp: list_rep_def fresh_alloc_def)

definition frame_eq :: "addr set \<Rightarrow> 'v store \<Rightarrow> 'v store \<Rightarrow> bool" where
  "frame_eq A m m' \<longleftrightarrow> (\<forall>b. b \<notin> A \<longrightarrow> cells m' b = cells m b)"

lemma dlseg_frame_eq:
  "frame_eq A m m' \<Longrightarrow> A \<inter> fst ` set ns = {} \<Longrightarrow>
     dlseg (cells m') p x ns l n = dlseg (cells m) p x ns l n"
  by (induction ns arbitrary: p x) (auto simp: frame_eq_def split: option.splits)

lemma list_rep_frame_eq:
  "frame_eq A m m' \<Longrightarrow> list_rep m l ns \<Longrightarrow> A \<inter> fst ` set ns = {} \<Longrightarrow> list_rep m' l ns"
  by (simp add: list_rep_def dlseg_frame_eq)

section \<open>Insertion\<close>

lemma listAddNodeHead_rep:
  assumes rep: "list_rep m l ns" and zm: "zm m = Some a" and new: "a \<notin> fst ` set ns"
  shows "\<exists>l' m'. listAddNodeHead zm l v m = Some (Some l', m') \<and> list_rep m' l' ((a, v) # ns)
           \<and> freed m' = freed m \<and> frame_eq (insert a (fst ` set ns)) m m'"
proof (cases ns)
  case Nil
  with rep zm show ?thesis
    by (auto simp: listAddNodeHead_def list_rep_def put_node_def frame_eq_def)
next
  case (Cons y ys)
  obtain b w where y: "y = (b, w)" by (cases y)
  from rep Cons y obtain nd where nd: "head l = Some b" "cells m b = Some nd" "node_prev nd = None"
      "node_value nd = w" "dlseg (cells m) (Some b) (node_next nd) ys (tail l) None"
    by (auto simp: list_rep_def split: option.splits)
  from rep new Cons y have "a \<noteq> b" "a \<notin> fst ` set ys" "b \<notin> fst ` set ys" "distinct (map fst ys)"
      "len l = Suc (length ys)"
    by (auto simp: list_rep_def)
  with nd zm Cons y show ?thesis
    by (auto simp: listAddNodeHead_def list_rep_def heap_defs frame_eq_def dlseg_frame)
qed

lemma listAddNodeTail_rep:
  assumes rep: "list_rep m l ns" and zm: "zm m = Some a" and new: "a \<notin> fst ` set ns"
  shows "\<exists>l' m'. listAddNodeTail zm l v m = Some (Some l', m') \<and> list_rep m' l' (ns @ [(a, v)])
           \<and> freed m' = freed m \<and> frame_eq (insert a (fst ` set ns)) m m'
           \<and> dup_method l' = dup_method l \<and> free_method l' = free_method l"
proof (cases ns rule: rev_cases)
  case Nil
  with rep zm show ?thesis
    by (auto simp: listAddNodeTail_def list_rep_def put_node_def frame_eq_def)
next
  case (snoc ys y)
  obtain b w where y: "y = (b, w)" by (cases y)
  from rep snoc y obtain k where nd: "tail l = Some b"
      "cells m b = Some \<lparr>node_prev = k, node_next = None, node_value = w\<rparr>"
      "dlseg (cells m) None (head l) ys k (Some b)"
    by (auto simp: list_rep_def dlseg_snoc)
  from rep new snoc y have "a \<noteq> b" "a \<notin> fst ` set ys" "b \<notin> fst ` set ys" "distinct (map fst ys)"
      "len l = Suc (length ys)"
    by (auto simp: list_rep_def)
  with nd zm snoc y show ?thesis
    by (auto simp: listAddNodeTail_def list_rep_def heap_defs frame_eq_def dlseg_mid dlseg_frame)
qed

lemmas adlist_simps =
  list_rep_def heap_defs frame_eq_def dlseg_mid dlseg_snoc dlseg_Cons dlseg_frame image_Un

lemma listInsertNode_after_rep:
  assumes rep: "list_rep m l (xs @ (b, w) # ys)" and zm: "zm m = Some a"
    and new: "a \<notin> fst ` set (xs @ (b, w) # ys)"
  shows "\<exists>l' m'. listInsertNode zm l (Some b) v True m = Some (Some l', m')
           \<and> list_rep m' l' (xs @ (b, w) # (a, v) # ys)
           \<and> freed m' = freed m \<and> frame_eq (insert a (fst ` set (xs @ (b, w) # ys))) m m'"
proof (cases ys)
  case Nil
  with assms show ?thesis
    by (auto simp: listInsertNode_def adlist_simps simp del: dlseg.simps(2))
next
  case (Cons z zs)
  obtain c u where "z = (c, u)" by (cases z)
  with Cons assms show ?thesis
    by (auto simp: listInsertNode_def adlist_simps simp del: dlseg.simps(2)
          dest: dlseg_last_in dlseg_first_in)
qed

lemma listInsertNode_before_rep:
  assumes rep: "list_rep m l (xs @ (b, w) # ys)" and zm: "zm m = Some a"
    and new: "a \<notin> fst ` set (xs @ (b, w) # ys)"
  shows "\<exists>l' m'. listInsertNode zm l (Some b) v False m = Some (Some l', m')
           \<and> list_rep m' l' (xs @ (a, v) # (b, w) # ys)
           \<and> freed m' = freed m \<and> frame_eq (insert a (fst ` set (xs @ (b, w) # ys))) m m'"
proof (cases xs rule: rev_cases)
  case Nil
  with assms show ?thesis
    by (auto simp: listInsertNode_def adlist_simps simp del: dlseg.simps(2))
next
  case (snoc zs z)
  obtain c u where "z = (c, u)" by (cases z)
  with snoc assms show ?thesis
    by (auto simp: listInsertNode_def adlist_simps simp del: dlseg.simps(2)
          dest: dlseg_last_in dlseg_first_in)
qed

section \<open>Removal\<close>

lemma listDelNode_rep:
  assumes rep: "list_rep m l (xs @ (b, w) # ys)"
  shows "\<exists>l' m'. listDelNode l (Some b) m = Some (l', m') \<and> list_rep m' l' (xs @ ys)
           \<and> freed m' = freed m @ (if free_method l then [w] else [])
           \<and> frame_eq (fst ` set (xs @ (b, w) # ys)) m m'
           \<and> free_method l' = free_method l"
proof (cases xs rule: rev_cases)
  case Nil
  show ?thesis
  proof (cases ys)
    case (Cons z zs)
    obtain c u where "z = (c, u)" by (cases z)
    with Nil Cons assms show ?thesis
      by (auto simp: listDelNode_def call_free_def adlist_simps simp del: dlseg.simps(2))
  qed (use Nil assms in \<open>auto simp: listDelNode_def call_free_def adlist_simps
         simp del: dlseg.simps(2)\<close>)
next
  case (snoc zs' z')
  obtain c' u' where "z' = (c', u')" by (cases z')
  note 1 = snoc this
  show ?thesis
  proof (cases ys)
    case (Cons z zs)
    obtain c u where "z = (c, u)" by (cases z)
    with 1 Cons assms show ?thesis
      by (auto simp: listDelNode_def call_free_def adlist_simps simp del: dlseg.simps(2))
  qed (use 1 assms in \<open>auto simp: listDelNode_def call_free_def adlist_simps
         simp del: dlseg.simps(2)\<close>)
qed

lemma listEmpty_loop_dlseg:
  assumes "dlseg (cells m) p x ns k None" "distinct (map fst ns)"
  shows "listEmpty_loop l (length ns) x m =
    Some (m\<lparr>cells := (\<lambda>b. if b \<in> fst ` set ns then None else cells m b),
           freed := freed m @ (if free_method l then map snd ns else [])\<rparr>)"
  using assms
proof (induction ns arbitrary: p x m)
  case (Cons y ys)
  obtain a v where y: "y = (a, v)" by (cases y)
  from Cons.prems y obtain nd where nd: "x = Some a" "cells m a = Some nd" "node_value nd = v"
      "dlseg (cells m) (Some a) (node_next nd) ys k None" "a \<notin> fst ` set ys" "distinct (map fst ys)"
    by (auto split: option.splits)
  let ?m = "zfree_node a (call_free l v m)"
  have "dlseg (cells ?m) (Some a) (node_next nd) ys k None"
    using nd by (simp add: zfree_node_def call_free_def dlseg_frame)
  from Cons.IH [OF this nd(6)] show ?case
    using nd y by (auto simp: zfree_node_def call_free_def fun_eq_iff)
qed simp

lemma listEmpty_rep:
  assumes "list_rep m l ns"
  shows "listEmpty l m = Some (l\<lparr>head := None, tail := None, len := 0\<rparr>,
    m\<lparr>cells := (\<lambda>b. if b \<in> fst ` set ns then None else cells m b),
      freed := freed m @ (if free_method l then map snd ns else [])\<rparr>)"
  using assms by (auto simp: listEmpty_def list_rep_def listEmpty_loop_dlseg)

section \<open>Traversal\<close>

lemma walk_next_dlseg:
  "dlseg (cells m) p x ns l None \<Longrightarrow>
     walk_next i x m = Some (if i < length ns then Some (fst (ns ! i)) else None)"
proof (induction ns arbitrary: i p x)
  case Nil
  then show ?case by (cases i) auto
next
  case (Cons y ys)
  then show ?case by (cases i; cases y) (auto split: option.splits)
qed

lemma walk_prev_dlseg:
  "dlseg (cells m) None x ns l n \<Longrightarrow>
     walk_prev i l m = Some (if i < length ns then Some (fst (rev ns ! i)) else None)"
proof (induction ns arbitrary: i l n rule: rev_induct)
  case Nil
  then show ?case by (cases i) auto
next
  case (snoc y ys)
  obtain a v where y: "y = (a, v)" by (cases y)
  with snoc.prems obtain k where "dlseg (cells m) None x ys k (Some a)" "l = Some a"
      "cells m a = Some \<lparr>node_prev = k, node_next = n, node_value = v\<rparr>"
    by (auto simp: dlseg_snoc)
  with snoc.IH y show ?case by (cases i) auto
qed

lemma listIndex_rep:
  assumes "list_rep m l ns"
  shows "listIndex l i m =
    Some (if 0 \<le> i \<and> i < int (length ns) then Some (fst (ns ! nat i))
          else if i < 0 \<and> - i \<le> int (length ns) then Some (fst (ns ! nat (int (length ns) + i)))
          else None)"
proof (cases "i < 0")
  case True
  have "rev ns ! nat (- i - 1) = ns ! nat (int (length ns) + i)" if "- i \<le> int (length ns)"
    using that True by (subst rev_nth) (auto intro!: arg_cong [of _ _ "nth ns"])
  with True show ?thesis
    using walk_prev_dlseg [OF list_repD(1) [OF assms], of "nat (- i - 1)"]
    by (auto simp: listIndex_def)
next
  case False
  then show ?thesis
    using walk_next_dlseg [OF list_repD(1) [OF assms], of "nat i"]
    by (auto simp: listIndex_def)
qed

text \<open>The usage pattern of the comment above \<^verbatim>\<open>listNext\<close>: visit nodes until \<^verbatim>\<open>NULL\<close>.\<close>

fun iter_nodes :: "nat \<Rightarrow> listIter \<Rightarrow> 'v store \<Rightarrow> addr list option" where
  "iter_nodes 0 iter m = None"
| "iter_nodes (Suc fuel) iter m = do {
     (node, iter') \<leftarrow> listNext iter m;
     (case node of None \<Rightarrow> Some []
      | Some a \<Rightarrow> do { as \<leftarrow> iter_nodes fuel iter' m; Some (a # as) }) }"

lemma iter_nodes_forward:
  "dlseg (cells m) p x ns l None \<Longrightarrow> length ns < fuel \<Longrightarrow>
     iter_nodes fuel \<lparr>iter_next = x, iter_dir = AL_START_HEAD\<rparr> m = Some (map fst ns)"
proof (induction ns arbitrary: fuel p x)
  case Nil
  then show ?case by (cases fuel) (auto simp: listNext_def)
next
  case (Cons y ys)
  then show ?case by (cases fuel; cases y) (auto simp: listNext_def split: option.splits)
qed

lemma iter_nodes_backward:
  "dlseg (cells m) None x ns l n \<Longrightarrow> length ns < fuel \<Longrightarrow>
     iter_nodes fuel \<lparr>iter_next = l, iter_dir = AL_START_TAIL\<rparr> m = Some (rev (map fst ns))"
proof (induction ns arbitrary: fuel l n rule: rev_induct)
  case Nil
  then show ?case by (cases fuel) (auto simp: listNext_def)
next
  case (snoc y ys)
  obtain a v where y: "y = (a, v)" by (cases y)
  with snoc.prems obtain k where "dlseg (cells m) None x ys k (Some a)" "l = Some a"
      "cells m a = Some \<lparr>node_prev = k, node_next = n, node_value = v\<rparr>"
    by (auto simp: dlseg_snoc)
  with snoc.IH [of k "Some a" "fuel - 1"] snoc.prems(2) y show ?case
    by (cases fuel) (auto simp: listNext_def AL_START_HEAD_def AL_START_TAIL_def)
qed

lemma listSearchKey_loop_dlseg:
  "dlseg (cells m) p x ns k None \<Longrightarrow> length ns < fuel \<Longrightarrow>
     listSearchKey_loop fuel l key \<lparr>iter_next = x, iter_dir = AL_START_HEAD\<rparr> m =
       Some (map_option fst (find (\<lambda>(_, v). case match_method l of Some f \<Rightarrow> f v key
                                                                 | None \<Rightarrow> key = v) ns))"
proof (induction ns arbitrary: fuel p x)
  case Nil
  then show ?case by (cases fuel) (auto simp: listNext_def)
next
  case (Cons y ys)
  then show ?case
    by (cases fuel; cases y) (auto simp: listNext_def split: option.splits if_splits)
qed

lemma listSearchKey_rep:
  assumes "list_rep m l ns" "length ns < fuel"
  shows "listSearchKey fuel l key m =
    Some (map_option fst (find (\<lambda>(_, v). case match_method l of Some f \<Rightarrow> f v key
                                                              | None \<Rightarrow> key = v) ns))"
  using listSearchKey_loop_dlseg [OF list_repD(1) [OF assms(1)] assms(2)]
  by (simp add: listSearchKey_def listRewind_def)

section \<open>Rotation and joining\<close>

lemma listRotateTailToHead_rep:
  assumes rep: "list_rep m l (xs @ [(b, w)])" and "xs \<noteq> []"
  shows "\<exists>l' m'. listRotateTailToHead l m = Some (l', m') \<and> list_rep m' l' ((b, w) # xs)"
proof -
  obtain a v ys where xs: "xs = (a, v) # ys"
    using assms(2) by (cases xs) auto
  show ?thesis
  proof (cases ys rule: rev_cases)
    case Nil
    with rep xs show ?thesis
      by (auto simp: listRotateTailToHead_def adlist_simps Let_def simp del: dlseg.simps(2))
  next
    case (snoc zs z)
    obtain c u where "z = (c, u)" by (cases z)
    with snoc rep xs show ?thesis
      by (auto simp: listRotateTailToHead_def adlist_simps Let_def simp del: dlseg.simps(2))
  qed
qed

lemma listRotateHeadToTail_rep:
  assumes rep: "list_rep m l ((b, w) # xs)" and "xs \<noteq> []"
  shows "\<exists>l' m'. listRotateHeadToTail l m = Some (l', m') \<and> list_rep m' l' (xs @ [(b, w)])"
proof -
  obtain a v ys where xs: "xs = (a, v) # ys"
    using assms(2) by (cases xs) auto
  show ?thesis
  proof (cases ys rule: rev_cases)
    case Nil
    with rep xs show ?thesis
      by (auto simp: listRotateHeadToTail_def adlist_simps Let_def dlseg_append [of _ _ _ "[_]"]
            simp del: dlseg.simps(2))
  next
    case (snoc zs z)
    obtain c u where "z = (c, u)" by (cases z)
    with snoc rep xs show ?thesis
      by (auto simp: listRotateHeadToTail_def adlist_simps Let_def simp del: dlseg.simps(2))
  qed
qed

lemma listJoin_rep:
  assumes l: "list_rep m l ns" and other: "list_rep m other ms"
    and disj: "fst ` set ns \<inter> fst ` set ms = {}"
  shows "\<exists>l' o' m'. listJoin l other m = Some (l', o', m') \<and> list_rep m' l' (ns @ ms)
           \<and> list_rep m' o' [] \<and> freed m' = freed m"
proof (cases ns rule: rev_cases)
  case Nil
  show ?thesis
  proof (cases ms)
    case (Cons z zs)
    obtain c u where "z = (c, u)" by (cases z)
    with Nil Cons assms show ?thesis
      by (auto simp: listJoin_def adlist_simps Let_def simp del: dlseg.simps(2))
  qed (use Nil assms in \<open>auto simp: listJoin_def adlist_simps Let_def\<close>)
next
  case (snoc xs x)
  obtain b w where "x = (b, w)" by (cases x)
  note 1 = snoc this
  show ?thesis
  proof (cases ms)
    case Nil
    with 1 assms show ?thesis
      by (auto simp: listJoin_def adlist_simps Let_def simp del: dlseg.simps(2))
  next
    case (Cons z zs)
    obtain c u where "z = (c, u)" by (cases z)
    moreover have "tail other \<noteq> None"
      using other Cons by (metis list.discI list_repD(1) dlseg_last_None)
    ultimately show ?thesis using 1 Cons assms
      by (auto simp: listJoin_def adlist_simps Let_def simp del: dlseg.simps(2))
  qed
qed

section \<open>Duplication\<close>

definition dup_value :: "'v adlist \<Rightarrow> 'v \<Rightarrow> 'v option" where
  "dup_value l v = (case dup_method l of None \<Rightarrow> Some v | Some dup \<Rightarrow> dup v)"

text \<open>
  What \<open>listDup\<close> leaves behind: the original is as before, and either a second list of
  the duplicated values stands beside it in fresh cells, or the copy has been released and
  every cell is as it was.
\<close>

definition dup_post ::
  "'v store \<Rightarrow> 'v adlist \<Rightarrow> (addr \<times> 'v) list \<Rightarrow> 'v adlist option \<times> 'v store \<Rightarrow> bool" where
  "dup_post m0 orig ns r \<longleftrightarrow>
     list_rep (snd r) orig ns \<and>
     (case fst r of
        None \<Rightarrow> cells (snd r) = cells m0
      | Some copy \<Rightarrow>
          \<exists>cs. list_rep (snd r) copy cs \<and> map (dup_value orig) (map snd ns) = map Some (map snd cs)
             \<and> fst ` set ns \<inter> fst ` set cs = {} \<and> frame_eq (fst ` set cs) m0 (snd r))"

lemma list_rep_cells_cong:
  "(\<And>b. b \<in> fst ` set ns \<Longrightarrow> cells m' b = cells m b) \<Longrightarrow> list_rep m l ns \<Longrightarrow> list_rep m' l ns"
  using list_rep_frame_eq [of "- (fst ` set ns)" m m' l ns] by (auto simp: frame_eq_def)

lemma release_restores:
  assumes copy: "list_rep m copy cs" and frame: "frame_eq (fst ` set cs) m0 m"
    and new: "\<forall>a \<in> fst ` set cs. cells m0 a = None"
  shows "\<exists>m'. listRelease copy m = Some m' \<and> cells m' = cells m0"
proof -
  have "(\<lambda>b. if b \<in> fst ` set cs then None else cells m b) = cells m0"
    using frame new by (auto simp: frame_eq_def fun_eq_iff)
  then show ?thesis
    using listEmpty_rep [OF copy] by (auto simp: listRelease_def)
qed

lemma listDup_loop_rep:
  assumes orig: "list_rep m0 orig (ds @ rs)" and zm: "fresh_alloc zm"
    and seg: "dlseg (cells m0) p x rs k None"
    and copy: "list_rep m copy cs" and frame: "frame_eq (fst ` set cs) m0 m"
    and new: "\<forall>a \<in> fst ` set cs. cells m0 a = None"
    and dup: "map (dup_value orig) (map snd ds) = map Some (map snd cs)"
             "dup_method copy = dup_method orig"
    and fuel: "length rs < fuel"
  shows "\<exists>r. listDup_loop fuel zm \<lparr>iter_next = x, iter_dir = AL_START_HEAD\<rparr> copy m = Some r
           \<and> dup_post m0 orig (ds @ rs) r"
  using assms
proof (induction rs arbitrary: ds p x copy cs m fuel)
  case Nil
  have "fst ` set ds \<inter> fst ` set cs = {}"
    using list_rep_live [OF Nil.prems(1)] Nil.prems(6) by fastforce
  moreover from this Nil.prems have "list_rep m orig ds"
    using list_rep_frame_eq [of "fst ` set cs" m0 m orig ds] by auto
  ultimately show ?case
    using Nil.prems by (cases fuel) (auto simp: listNext_def dup_post_def)
next
  case (Cons y ys)
  obtain a v where y: "y = (a, v)" by (cases y)
  from Cons.prems(9) obtain f where f: "fuel = Suc f" "length ys < f"
    by (cases fuel) auto
  from Cons.prems(3) y obtain nd where nd: "x = Some a" "cells m0 a = Some nd" "node_value nd = v"
      "dlseg (cells m0) (Some a) (node_next nd) ys k None"
    by (auto split: option.splits)
  have disj: "fst ` set (ds @ y # ys) \<inter> fst ` set cs = {}"
    using list_rep_live [OF Cons.prems(1)] Cons.prems(6) by blast
  have ma: "cells m a = Some nd"
    using disj y nd(2) Cons.prems(5) by (auto simp: frame_eq_def)
  have dup_eq: "dup_value copy u = dup_value orig u" for u
    using Cons.prems(8) by (simp add: dup_value_def)
  have orig': "list_rep m' orig (ds @ y # ys)" if "cells m' = cells m0" for m'
    using list_rep_cells_cong [OF _ Cons.prems(1)] that by auto
  show ?case
  proof (cases "dup_value copy v")
    case None
    with release_restores [OF Cons.prems(4-6)] show ?thesis
      using f nd ma orig' by (auto simp: listNext_def dup_value_def dup_post_def)
  next
    case (Some v')
    show ?thesis
    proof (cases "zm m")
      case None
      then have "listAddNodeTail zm copy v' m = Some (None, m)"
        by (simp add: listAddNodeTail_def)
      with release_restores [OF Cons.prems(4-6)] show ?thesis
        using f nd ma orig' Some by (auto simp: listNext_def dup_value_def dup_post_def)
    next
      case (Some b)
      have live: "cells m b = None" using Some Cons.prems(2) by (auto simp: fresh_alloc_def)
      have bcs: "b \<notin> fst ` set cs" using fresh_notin [OF Cons.prems(2) Some Cons.prems(4)] .
      from listAddNodeTail_rep [where zm = zm, OF Cons.prems(4) Some bcs, of v'] obtain c' m' where
        add: "listAddNodeTail zm copy v' m = Some (Some c', m')"
        and rep': "list_rep m' c' (cs @ [(b, v')])"
        and fr': "frame_eq (insert b (fst ` set cs)) m m'"
        and dm: "dup_method c' = dup_method copy"
        by auto
      have "frame_eq (fst ` set (cs @ [(b, v')])) m0 m'"
        using fr' Cons.prems(5) by (auto simp: frame_eq_def)
      moreover have "\<forall>a \<in> fst ` set (cs @ [(b, v')]). cells m0 a = None"
        using Cons.prems(5,6) live bcs by (auto simp: frame_eq_def)
      moreover have "map (dup_value orig) (map snd (ds @ [y])) = map Some (map snd (cs @ [(b, v')]))"
        using Cons.prems(7) dup_eq [of v] \<open>dup_value copy v = Some v'\<close> y by simp
      ultimately have "\<exists>r. listDup_loop f zm \<lparr>iter_next = node_next nd, iter_dir = AL_START_HEAD\<rparr> c' m'
          = Some r \<and> dup_post m0 orig ((ds @ [y]) @ ys) r"
        using Cons.prems(1,2,8) nd(4) rep' dm f(2) by (intro Cons.IH) auto
      then show ?thesis
        using f(1) nd ma add \<open>dup_value copy v = Some v'\<close>
        by (auto simp: listNext_def dup_value_def)
    qed
  qed
qed

lemma listDup_rep:
  assumes "list_rep m orig ns" "fresh_alloc zm" "length ns < fuel"
  shows "\<exists>r. listDup fuel zm orig m = Some r \<and> dup_post m orig ns r"
  using listDup_loop_rep [of m orig "[]" ns zm None "head orig" "tail orig" m _ "[]" fuel]
    assms list_repD [OF assms(1)]
  by (auto simp: listDup_def listRewind_def list_rep_def listCreate_def frame_eq_def)

end
