(* ===== verification/Adlist_Refine.thy ===== *)
theory Adlist_Refine
  imports Adlist
begin

text \<open>
  The linked list as an abstract list: any sequence of operations on the heap structure, with
  nodes addressed through \<^verbatim>\<open>listIndex\<close>, computes the corresponding functional list.
\<close>

section \<open>An allocator\<close>

text \<open>The first address not in use; it exists while finitely many cells are in use.\<close>

definition first_free :: "'v allocator" where
  "first_free m = Some (LEAST a. cells m a = None)"

lemma first_free_fresh:
  assumes "finite (dom (cells m))"
  shows "cells m (LEAST a. cells m a = None) = None"
proof -
  obtain a where "a \<notin> dom (cells m)" using assms ex_new_if_finite infinite_UNIV_nat by metis
  then have "cells m a = None" by auto
  then show ?thesis by (rule LeastI [of "\<lambda>a. cells m a = None"])
qed

lemma frame_eq_finite:
  assumes "frame_eq A m m'" "finite A" "finite (dom (cells m))"
  shows "finite (dom (cells m'))"
proof (rule finite_subset)
  show "dom (cells m') \<subseteq> A \<union> dom (cells m)" using assms(1) by (auto simp: frame_eq_def dom_def)
qed (use assms in simp)

section \<open>Sequences of operations\<close>

datatype 'v list_op =
    LAddHead 'v | LAddTail 'v | LInsert int 'v bool | LDel int
  | LRotateTailToHead | LRotateHeadToTail | LEmpty

text \<open>The callers pass a node they found; an index out of range leaves the list alone.\<close>

definition list_step :: "'v allocator \<Rightarrow> 'v list_op \<Rightarrow> 'v adlist \<times> 'v store \<Rightarrow> ('v adlist \<times> 'v store) option" where
  "list_step zm op = (\<lambda>(l, m). case op of
     LAddHead v \<Rightarrow> do { (r, m') \<leftarrow> listAddNodeHead zm l v m; Some (case r of Some l' \<Rightarrow> l' | None \<Rightarrow> l, m') }
   | LAddTail v \<Rightarrow> do { (r, m') \<leftarrow> listAddNodeTail zm l v m; Some (case r of Some l' \<Rightarrow> l' | None \<Rightarrow> l, m') }
   | LInsert i v after \<Rightarrow> do {
       n \<leftarrow> listIndex l i m;
       (if n = None then Some (l, m)
        else do { (r, m') \<leftarrow> listInsertNode zm l n v after m; Some (case r of Some l' \<Rightarrow> l' | None \<Rightarrow> l, m') }) }
   | LDel i \<Rightarrow> do {
       n \<leftarrow> listIndex l i m;
       (if n = None then Some (l, m) else listDelNode l n m) }
   | LRotateTailToHead \<Rightarrow> listRotateTailToHead l m
   | LRotateHeadToTail \<Rightarrow> listRotateHeadToTail l m
   | LEmpty \<Rightarrow> listEmpty l m)"

fun list_run :: "'v allocator \<Rightarrow> 'v list_op list \<Rightarrow> 'v adlist \<times> 'v store \<Rightarrow> ('v adlist \<times> 'v store) option" where
  "list_run zm [] s = Some s"
| "list_run zm (op # ops) s = do { s' \<leftarrow> list_step zm op s; list_run zm ops s' }"

text \<open>The specification, on values only.\<close>

definition norm_index :: "int \<Rightarrow> nat \<Rightarrow> nat option" where
  "norm_index i n =
     (if 0 \<le> i \<and> i < int n then Some (nat i)
      else if i < 0 \<and> - i \<le> int n then Some (nat (int n + i)) else None)"

fun spec_step :: "'v list_op \<Rightarrow> 'v list \<Rightarrow> 'v list" where
  "spec_step (LAddHead v) vs = v # vs"
| "spec_step (LAddTail v) vs = vs @ [v]"
| "spec_step (LInsert i v after) vs = (case norm_index i (length vs) of
     None \<Rightarrow> vs | Some k \<Rightarrow> (let k = (if after then Suc k else k) in take k vs @ v # drop k vs))"
| "spec_step (LDel i) vs = (case norm_index i (length vs) of None \<Rightarrow> vs | Some k \<Rightarrow> take k vs @ drop (Suc k) vs)"
| "spec_step LRotateTailToHead vs = (if length vs \<le> 1 then vs else last vs # butlast vs)"
| "spec_step LRotateHeadToTail vs = rotate1 vs"
| "spec_step LEmpty vs = []"

definition holds :: "'v adlist \<times> 'v store \<Rightarrow> 'v list \<Rightarrow> bool" where
  "holds s vs \<longleftrightarrow> (\<exists>ns. list_rep (snd s) (fst s) ns \<and> map snd ns = vs) \<and> finite (dom (cells (snd s)))"

section \<open>Refinement\<close>

lemma holdsE:
  assumes "holds (l, m) vs"
  obtains ns a where "list_rep m l ns" "map snd ns = vs" "finite (dom (cells m))"
    "first_free m = Some a" "a \<notin> fst ` set ns"
proof -
  from assms obtain ns where ns: "list_rep m l ns" "map snd ns = vs" "finite (dom (cells m))"
    by (auto simp: holds_def)
  moreover have "(LEAST a. cells m a = None) \<notin> fst ` set ns"
    using first_free_fresh [OF ns(3)] list_rep_live [OF ns(1)] by metis
  ultimately show ?thesis using that by (simp add: first_free_def)
qed

lemma holdsI:
  "list_rep m' l' ns' \<Longrightarrow> map snd ns' = vs' \<Longrightarrow> frame_eq A m m' \<Longrightarrow> finite A \<Longrightarrow> finite (dom (cells m))
     \<Longrightarrow> holds (l', m') vs'"
  using frame_eq_finite [of A m m'] by (auto simp: holds_def)

lemma listIndex_norm:
  "list_rep m l ns \<Longrightarrow> listIndex l i m = Some (map_option (\<lambda>k. fst (ns ! k)) (norm_index i (length ns)))"
  by (simp add: listIndex_rep norm_index_def)

lemma norm_index_less: "norm_index i n = Some k \<Longrightarrow> k < n"
  by (auto simp: norm_index_def split: if_splits)

lemma split_at: "k < length ns \<Longrightarrow> \<exists>xs b w ys. ns = xs @ (b, w) # ys \<and> length xs = k"
proof -
  assume k: "k < length ns"
  obtain b w where "ns ! k = (b, w)" by (cases "ns ! k")
  with id_take_nth_drop [OF k] k show ?thesis
    by (intro exI [of _ "take k ns"] exI [of _ b] exI [of _ w] exI [of _ "drop (Suc k) ns"]) simp
qed

lemma set_next_dom: "set_next p q m = Some m' \<Longrightarrow> dom (cells m') = dom (cells m)"
  and set_prev_dom: "set_prev p q m = Some m' \<Longrightarrow> dom (cells m') = dom (cells m)"
  by (auto simp: heap_defs bind_Some_iff split: option.splits if_splits)

lemma rotate_finite:
  "listRotateTailToHead l m = Some (l', m') \<Longrightarrow> finite (dom (cells m)) \<Longrightarrow> finite (dom (cells m'))"
  "listRotateHeadToTail l m = Some (l', m') \<Longrightarrow> finite (dom (cells m)) \<Longrightarrow> finite (dom (cells m'))"
  by (auto simp: listRotateTailToHead_def listRotateHeadToTail_def bind_Some_iff Let_def
      dest!: set_next_dom set_prev_dom split: if_splits)

lemma list_step_refines:
  assumes "holds s vs"
  shows "\<exists>s'. list_step first_free op s = Some s' \<and> holds s' (spec_step op vs)"
proof -
  obtain l m where s: "s = (l, m)" by (cases s)
  from assms s obtain ns a where ns: "list_rep m l ns" "map snd ns = vs" "finite (dom (cells m))"
    and fresh: "first_free m = Some a" "a \<notin> fst ` set ns"
    by (auto elim: holdsE)
  have len: "length vs = length ns" using ns(2) by auto
  show ?thesis
  proof (cases op)
    case (LAddHead v)
    from listAddNodeHead_rep [where zm = first_free and v = v, OF ns(1) fresh] obtain l' m' where
      "listAddNodeHead first_free l v m = Some (Some l', m')" "list_rep m' l' ((a, v) # ns)"
      "frame_eq (insert a (fst ` set ns)) m m'" by blast
    with LAddHead s ns show ?thesis by (auto simp: list_step_def intro!: holdsI)
  next
    case (LAddTail v)
    from listAddNodeTail_rep [where zm = first_free and v = v, OF ns(1) fresh] obtain l' m' where
      "listAddNodeTail first_free l v m = Some (Some l', m')" "list_rep m' l' (ns @ [(a, v)])"
      "frame_eq (insert a (fst ` set ns)) m m'" by blast
    with LAddTail s ns show ?thesis by (auto simp: list_step_def intro!: holdsI)
  next
    case (LInsert i v after)
    show ?thesis
    proof (cases "norm_index i (length ns)")
      case None
      with LInsert s assms len listIndex_norm [OF ns(1), of i] show ?thesis by (simp add: list_step_def)
    next
      case (Some k)
      from split_at [OF norm_index_less [OF Some]] obtain xs b w ys where
        k: "ns = xs @ (b, w) # ys" "length xs = k" by blast
      have idx: "listIndex l i m = Some (Some b)" using listIndex_norm [OF ns(1), of i] Some k by (auto simp: nth_append)
      let ?A = "insert a (fst ` set (xs @ (b, w) # ys))"
      have rep: "list_rep m l (xs @ (b, w) # ys)" and new: "a \<notin> fst ` set (xs @ (b, w) # ys)"
        and vs: "vs = map snd xs @ w # map snd ys"
        using ns(1,2) fresh(2) k by auto
      note ins = listInsertNode_after_rep [where zm = first_free and v = v, OF rep fresh(1) new]
        listInsertNode_before_rep [where zm = first_free and v = v, OF rep fresh(1) new]
      have "\<exists>l' m' ns'. listInsertNode first_free l (Some b) v after m = Some (Some l', m') \<and> list_rep m' l' ns'
          \<and> map snd ns' = spec_step op vs \<and> frame_eq ?A m m'"
      proof (cases after)
        case True
        then have "spec_step op vs = map snd (xs @ (b, w) # (a, v) # ys)" using LInsert Some len vs k by simp
        then show ?thesis using ins(1) True by metis
      next
        case False
        then have "spec_step op vs = map snd (xs @ (a, v) # (b, w) # ys)" using LInsert Some len vs k by simp
        then show ?thesis using ins(2) False by metis
      qed
      then obtain l' m' ns' where "listInsertNode first_free l (Some b) v after m = Some (Some l', m')"
        "list_rep m' l' ns'" "map snd ns' = spec_step op vs" "frame_eq ?A m m'" by blast
      with LInsert s idx ns(3) show ?thesis by (auto simp: list_step_def intro!: holdsI)
    qed
  next
    case (LDel i)
    show ?thesis
    proof (cases "norm_index i (length ns)")
      case None
      with LDel s assms len listIndex_norm [OF ns(1), of i] show ?thesis by (simp add: list_step_def)
    next
      case (Some k)
      from split_at [OF norm_index_less [OF Some]] obtain xs b w ys where
        k: "ns = xs @ (b, w) # ys" "length xs = k" by blast
      have idx: "listIndex l i m = Some (Some b)" using listIndex_norm [OF ns(1), of i] Some k by (auto simp: nth_append)
      from listDelNode_rep [of m l xs b w ys] ns k obtain l' m' where
        "listDelNode l (Some b) m = Some (l', m')" "list_rep m' l' (xs @ ys)"
        "frame_eq (fst ` set (xs @ (b, w) # ys)) m m'" by auto
      with LDel s idx ns k Some len show ?thesis
        by (auto simp: list_step_def intro!: holdsI)
    qed
  next
    case LRotateTailToHead
    show ?thesis
    proof (cases "length ns \<le> 1")
      case True
      with LRotateTailToHead s assms len ns(1) show ?thesis
        by (simp add: list_step_def listRotateTailToHead_def list_rep_def)
    next
      case False
      then obtain xs b w where xs: "ns = xs @ [(b, w)]" "xs \<noteq> []" by (cases ns rule: rev_cases) auto
      from listRotateTailToHead_rep [of m l xs b w] ns xs obtain l' m' where
        r: "listRotateTailToHead l m = Some (l', m')" "list_rep m' l' ((b, w) # xs)" by auto
      moreover have "vs = map snd xs @ [w]" using ns(2) xs by simp
      ultimately show ?thesis
        using LRotateTailToHead s xs rotate_finite(1) [OF r(1) ns(3)]
        by (auto simp: list_step_def holds_def intro!: exI [of _ "(b, w) # xs"])
    qed
  next
    case LRotateHeadToTail
    show ?thesis
    proof (cases "length ns \<le> 1")
      case True
      then have "rotate1 vs = vs" using len by (cases vs; cases "tl vs") auto
      with True LRotateHeadToTail s assms len ns(1) show ?thesis
        by (simp add: list_step_def listRotateHeadToTail_def list_rep_def)
    next
      case False
      then obtain b w xs where xs: "ns = (b, w) # xs" "xs \<noteq> []" by (cases ns) auto
      from listRotateHeadToTail_rep [of m l b w xs] ns xs obtain l' m' where
        r: "listRotateHeadToTail l m = Some (l', m')" "list_rep m' l' (xs @ [(b, w)])" by auto
      moreover have "vs = w # map snd xs" using ns(2) xs by simp
      ultimately show ?thesis
        using LRotateHeadToTail s rotate_finite(2) [OF r(1) ns(3)]
        by (auto simp: list_step_def holds_def intro!: exI [of _ "xs @ [(b, w)]"])
    qed
  next
    case LEmpty
    have "finite (dom (\<lambda>b. if b \<in> fst ` set ns then None else cells m b))"
      by (rule finite_subset [OF _ ns(3)]) (auto split: if_splits)
    with LEmpty s listEmpty_rep [OF ns(1)] show ?thesis
      by (auto simp: list_step_def holds_def list_rep_def)
  qed
qed

text \<open>C10: any sequence of insertions at the head, at the tail and next to a node, deletions,
  rotations and clearings of an \<^verbatim>\<open>adlist\<close>, starting from an empty one, follows only valid
  pointers and leaves a well-formed doubly linked list that holds the values of the functional
  list specification.\<close>

theorem adlist_refines_list:
  "\<exists>s. list_run first_free ops (listCreate, \<lparr>cells = Map.empty, freed = []\<rparr>) = Some s
     \<and> holds s (fold spec_step ops [])"
proof -
  have "\<exists>s'. list_run first_free ops s = Some s' \<and> holds s' (fold spec_step ops vs)" if "holds s vs" for s vs
    using that
  proof (induction ops arbitrary: s vs)
    case (Cons op ops)
    from list_step_refines [OF Cons.prems, of op] obtain s1 where
      "list_step first_free op s = Some s1" "holds s1 (spec_step op vs)" by blast
    with Cons.IH show ?case by simp
  qed simp
  moreover have "holds (listCreate, \<lparr>cells = Map.empty, freed = []\<rparr>) []"
    using list_rep_empty by (auto simp: holds_def)
  ultimately show ?thesis by blast
qed



end
