(* ===== verification/Dict.thy ===== *)
theory Dict
  imports Prelude
begin

text \<open>
  The hash table of \<^verbatim>\<open>src/dict.c\<close>: two tables with chaining, incremental rehashing,
  iterators and the stateless reverse-binary scan. A bucket (a chain linked through
  \<^verbatim>\<open>next\<close>) is the list of its entries from the chain's head; a \<^verbatim>\<open>NULL\<close> table is the
  empty list of buckets. The callbacks of \<^verbatim>\<open>dictType\<close> take the dictionary's private
  data, and the destructors return it updated, so that what they do is part of the state.
  Operations are in the option monad: \<open>None\<close> is an access outside a table or a failed
  \<^verbatim>\<open>assert\<close>. An entry pointer is a triple: table number, bucket, position in the chain.
\<close>

section \<open>Data\<close>

record ('k, 'v) dictEntry =
  de_key :: 'k
  de_val :: 'v

type_synonym ('k, 'v) chain = "('k, 'v) dictEntry list"

record ('k, 'v, 'p) dictType =
  hashFunction :: "'k \<Rightarrow> u64"
  keyDup :: "('p \<Rightarrow> 'k \<Rightarrow> 'k) option"
  valDup :: "('p \<Rightarrow> 'v \<Rightarrow> 'v) option"
  keyCompare :: "('p \<Rightarrow> 'k \<Rightarrow> 'k \<Rightarrow> bool) option"
  keyDestructor :: "('p \<Rightarrow> 'k \<Rightarrow> 'p) option"
  valDestructor :: "('p \<Rightarrow> 'v \<Rightarrow> 'p) option"

record ('k, 'v) dictht =
  ht_table :: "('k, 'v) chain list"
  ht_size :: nat
  ht_sizemask :: u64
  ht_used :: nat

record ('k, 'v, 'p) dict =
  d_type :: "('k, 'v, 'p) dictType"
  privdata :: 'p
  ht0 :: "('k, 'v) dictht"
  ht1 :: "('k, 'v) dictht"
  rehashidx :: int
  iterators :: nat

type_synonym dictRef = "nat \<times> nat \<times> nat"

definition DICT_HT_INITIAL_SIZE :: nat where "DICT_HT_INITIAL_SIZE = 4"
definition dict_force_resize_ratio :: nat where "dict_force_resize_ratio = 5"
definition LONG_MAX :: nat where "LONG_MAX = 2 ^ 63 - 1"

section \<open>The macros of dict.h\<close>

definition dictFreeVal :: "('k, 'v, 'p) dict \<Rightarrow> ('k, 'v) dictEntry \<Rightarrow> ('k, 'v, 'p) dict" where
  "dictFreeVal d e = (case valDestructor (d_type d) of None \<Rightarrow> d
                      | Some f \<Rightarrow> d\<lparr>privdata := f (privdata d) (de_val e)\<rparr>)"

definition dictFreeKey :: "('k, 'v, 'p) dict \<Rightarrow> ('k, 'v) dictEntry \<Rightarrow> ('k, 'v, 'p) dict" where
  "dictFreeKey d e = (case keyDestructor (d_type d) of None \<Rightarrow> d
                      | Some f \<Rightarrow> d\<lparr>privdata := f (privdata d) (de_key e)\<rparr>)"

definition dup_val :: "('k, 'v, 'p) dict \<Rightarrow> 'v \<Rightarrow> 'v" where
  "dup_val d v = (case valDup (d_type d) of None \<Rightarrow> v | Some f \<Rightarrow> f (privdata d) v)"

definition dup_key :: "('k, 'v, 'p) dict \<Rightarrow> 'k \<Rightarrow> 'k" where
  "dup_key d k = (case keyDup (d_type d) of None \<Rightarrow> k | Some f \<Rightarrow> f (privdata d) k)"

definition dictCompareKeys :: "('k, 'v, 'p) dict \<Rightarrow> 'k \<Rightarrow> 'k \<Rightarrow> bool" where
  "dictCompareKeys d k1 k2 =
     (case keyCompare (d_type d) of None \<Rightarrow> k1 = k2 | Some f \<Rightarrow> f (privdata d) k1 k2)"

definition dictHashKey :: "('k, 'v, 'p) dict \<Rightarrow> 'k \<Rightarrow> u64" where
  "dictHashKey d k = hashFunction (d_type d) k"

definition dictSlots :: "('k, 'v, 'p) dict \<Rightarrow> nat" where
  "dictSlots d = ht_size (ht0 d) + ht_size (ht1 d)"

definition dictSize :: "('k, 'v, 'p) dict \<Rightarrow> nat" where
  "dictSize d = ht_used (ht0 d) + ht_used (ht1 d)"

definition dictIsRehashing :: "('k, 'v, 'p) dict \<Rightarrow> bool" where
  "dictIsRehashing d \<longleftrightarrow> rehashidx d \<noteq> -1"

section \<open>Table access\<close>

definition bucket :: "('k, 'v) dictht \<Rightarrow> nat \<Rightarrow> ('k, 'v) chain option" where
  "bucket ht i = (if i < length (ht_table ht) then Some (ht_table ht ! i) else None)"

definition set_bucket :: "('k, 'v) dictht \<Rightarrow> nat \<Rightarrow> ('k, 'v) chain \<Rightarrow> ('k, 'v) dictht" where
  "set_bucket ht i b = ht\<lparr>ht_table := (ht_table ht)[i := b]\<rparr>"

definition ht_idx :: "('k, 'v) dictht \<Rightarrow> u64 \<Rightarrow> nat" where
  "ht_idx ht h = unat (h AND ht_sizemask ht)"

definition get_ht :: "('k, 'v, 'p) dict \<Rightarrow> nat \<Rightarrow> ('k, 'v) dictht" where
  "get_ht d t = (if t = 0 then ht0 d else ht1 d)"

definition put_ht :: "('k, 'v, 'p) dict \<Rightarrow> nat \<Rightarrow> ('k, 'v) dictht \<Rightarrow> ('k, 'v, 'p) dict" where
  "put_ht d t ht = (if t = 0 then d\<lparr>ht0 := ht\<rparr> else d\<lparr>ht1 := ht\<rparr>)"

definition entry_at :: "('k, 'v, 'p) dict \<Rightarrow> dictRef \<Rightarrow> ('k, 'v) dictEntry option" where
  "entry_at d r = (case r of (t, i, j) \<Rightarrow> do {
     b \<leftarrow> bucket (get_ht d t) i;
     (if j < length b then Some (b ! j) else None) })"

definition dictSetVal ::
  "('k, 'v, 'p) dict \<Rightarrow> dictRef \<Rightarrow> 'v \<Rightarrow> ('k, 'v, 'p) dict option" where
  "dictSetVal d r v = (case r of (t, i, j) \<Rightarrow> do {
     b \<leftarrow> bucket (get_ht d t) i;
     (if j < length b
      then Some (put_ht d t (set_bucket (get_ht d t) i (b[j := (b ! j)\<lparr>de_val := dup_val d v\<rparr>])))
      else None) })"

text \<open>The position of the first entry of a chain that satisfies a predicate.\<close>

fun find_pos :: "('a \<Rightarrow> bool) \<Rightarrow> 'a list \<Rightarrow> nat option" where
  "find_pos P [] = None"
| "find_pos P (x # xs) = (if P x then Some 0 else map_option Suc (find_pos P xs))"

definition key_matches :: "('k, 'v, 'p) dict \<Rightarrow> 'k \<Rightarrow> ('k, 'v) dictEntry \<Rightarrow> bool" where
  "key_matches d k e \<longleftrightarrow> k = de_key e \<or> dictCompareKeys d k (de_key e)"

text \<open>
  One round of the search loops of \<^verbatim>\<open>dictFind\<close>, \<^verbatim>\<open>dictGenericDelete\<close> and
  \<^verbatim>\<open>_dictKeyIndex\<close>: the bucket index of the hash in one table, and where in that
  chain the key is.
\<close>

definition search_ht ::
  "('k, 'v, 'p) dict \<Rightarrow> 'k \<Rightarrow> u64 \<Rightarrow> ('k, 'v) dictht \<Rightarrow> (nat \<times> nat option) option" where
  "search_ht d k h ht = do {
     let idx = ht_idx ht h;
     b \<leftarrow> bucket ht idx;
     Some (idx, find_pos (key_matches d k) b) }"

section \<open>Creation and resizing\<close>

definition dictReset :: "('k, 'v) dictht" where
  "dictReset = \<lparr>ht_table = [], ht_size = 0, ht_sizemask = 0, ht_used = 0\<rparr>"

definition dictInit :: "('k, 'v, 'p) dictType \<Rightarrow> 'p \<Rightarrow> ('k, 'v, 'p) dict" where
  "dictInit type priv =
     \<lparr>d_type = type, privdata = priv, ht0 = dictReset, ht1 = dictReset, rehashidx = -1, iterators = 0\<rparr>"

definition dictCreate :: "('k, 'v, 'p) dictType \<Rightarrow> 'p \<Rightarrow> ('k, 'v, 'p) dict" where
  "dictCreate type priv = dictInit type priv"

text \<open>
  The doubling loop starts at 4, so the test for 0 only makes the recursion well-founded.
\<close>

function next_power_loop :: "nat \<Rightarrow> nat \<Rightarrow> nat" where
  "next_power_loop i sz = (if i \<ge> sz \<or> i = 0 then i else next_power_loop (i * 2) sz)"
  by pat_completeness auto
termination
  by (relation "measure (\<lambda>(i, sz). sz - i)") auto

declare next_power_loop.simps [simp del]

definition dictNextPower :: "nat \<Rightarrow> nat" where
  "dictNextPower sz =
     (if sz \<ge> LONG_MAX then LONG_MAX + 1 else next_power_loop DICT_HT_INITIAL_SIZE sz)"

text \<open>The first component tells whether the function returned \<^verbatim>\<open>DICT_OK\<close>.\<close>

definition dictExpand :: "('k, 'v, 'p) dict \<Rightarrow> nat \<Rightarrow> bool \<times> ('k, 'v, 'p) dict" where
  "dictExpand d sz =
     (if dictIsRehashing d \<or> ht_used (ht0 d) > sz then (False, d)
      else
        let realsize = dictNextPower sz in
        if realsize = ht_size (ht0 d) then (False, d)
        else
          let n = \<lparr>ht_table = replicate realsize [], ht_size = realsize,
                   ht_sizemask = of_nat realsize - 1, ht_used = 0\<rparr> in
          if ht_table (ht0 d) = [] then (True, d\<lparr>ht0 := n\<rparr>)
          else (True, d\<lparr>ht1 := n, rehashidx := 0\<rparr>))"

text \<open>\<^verbatim>\<open>minimal\<close> is a C \<^verbatim>\<open>int\<close>: the number of elements is cut to 32 bits, signed.\<close>

definition dictResize :: "bool \<Rightarrow> ('k, 'v, 'p) dict \<Rightarrow> bool \<times> ('k, 'v, 'p) dict" where
  "dictResize can_resize d =
     (if \<not> can_resize \<or> dictIsRehashing d then (False, d)
      else
        let minimal = sint (of_nat (ht_used (ht0 d)) :: 32 word);
            minimal = (if minimal < int DICT_HT_INITIAL_SIZE then int DICT_HT_INITIAL_SIZE
                       else minimal)
        in dictExpand d (nat minimal))"

section \<open>Incremental rehashing\<close>

text \<open>
  The inner loop that skips empty buckets: it runs past the end of the table
  (\<open>ScanFault\<close>), gives up after the last allowed visit (\<open>ScanStop\<close>, with the index
  reached) or stops at a bucket in use.
\<close>

datatype scan_result = ScanFault | ScanStop nat | ScanFound nat int

function skip_empty :: "('k, 'v) chain list \<Rightarrow> nat \<Rightarrow> int \<Rightarrow> scan_result" where
  "skip_empty tbl i empty_visits =
     (if i \<ge> length tbl then ScanFault
      else if tbl ! i \<noteq> [] then ScanFound i empty_visits
      else if empty_visits - 1 = 0 then ScanStop (i + 1)
      else skip_empty tbl (i + 1) (empty_visits - 1))"
  by pat_completeness auto
termination
  by (relation "measure (\<lambda>(tbl, i, ev). length tbl - i)") auto

declare skip_empty.simps [simp del]

text \<open>Moving a chain: each entry, from the head, becomes the head of its new bucket.\<close>

fun move_chain :: "('k, 'v) chain \<Rightarrow> ('k, 'v, 'p) dict \<Rightarrow> ('k, 'v, 'p) dict option" where
  "move_chain [] d = Some d"
| "move_chain (de # rest) d = do {
     let h = ht_idx (ht1 d) (dictHashKey d (de_key de));
     b \<leftarrow> bucket (ht1 d) h;
     let t1 = set_bucket (ht1 d) h (de # b);
     move_chain rest
       (d\<lparr>ht0 := (ht0 d)\<lparr>ht_used := ht_used (ht0 d) - 1\<rparr>,
          ht1 := t1\<lparr>ht_used := ht_used t1 + 1\<rparr>\<rparr>) }"

text \<open>
  The main loop; the boolean is the early \<^verbatim>\<open>return 1\<close> of the empty-bucket limit.
\<close>

fun rehash_loop :: "nat \<Rightarrow> int \<Rightarrow> ('k, 'v, 'p) dict \<Rightarrow> (bool \<times> ('k, 'v, 'p) dict) option" where
  "rehash_loop 0 empty_visits d = Some (False, d)"
| "rehash_loop (Suc n) empty_visits d =
     (if ht_used (ht0 d) = 0 then Some (False, d)
      else if \<not> (rehashidx d \<ge> 0 \<and> int (ht_size (ht0 d)) > rehashidx d) then None
      else
        case skip_empty (ht_table (ht0 d)) (nat (rehashidx d)) empty_visits of
          ScanFault \<Rightarrow> None
        | ScanStop i \<Rightarrow> Some (True, d\<lparr>rehashidx := int i\<rparr>)
        | ScanFound i ev \<Rightarrow> do {
            d1 \<leftarrow> move_chain (ht_table (ht0 d) ! i) d;
            rehash_loop n ev
              (d1\<lparr>ht0 := set_bucket (ht0 d1) i [], rehashidx := int i + 1\<rparr>) })"

definition dictRehash :: "nat \<Rightarrow> ('k, 'v, 'p) dict \<Rightarrow> (bool \<times> ('k, 'v, 'p) dict) option" where
  "dictRehash n d =
     (if \<not> dictIsRehashing d then Some (False, d)
      else do {
        (stopped, d1) \<leftarrow> rehash_loop n (int n * 10) d;
        (if stopped then Some (True, d1)
         else if ht_used (ht0 d1) = 0
         then Some (False, d1\<lparr>ht0 := ht1 d1, ht1 := dictReset, rehashidx := -1\<rparr>)
         else Some (True, d1)) })"

text \<open>
  \<^verbatim>\<open>timeInMilliseconds\<close> is a parameter, the successive readings of the clock; the fuel
  bounds the number of rounds.
\<close>

fun rehash_ms_loop ::
  "nat \<Rightarrow> (nat \<Rightarrow> int) \<Rightarrow> nat \<Rightarrow> int \<Rightarrow> int \<Rightarrow> int \<Rightarrow> ('k, 'v, 'p) dict
     \<Rightarrow> (int \<times> ('k, 'v, 'p) dict) option" where
  "rehash_ms_loop 0 clock i start ms rehashes d = None"
| "rehash_ms_loop (Suc fuel) clock i start ms rehashes d = do {
     (more, d1) \<leftarrow> dictRehash 100 d;
     (if \<not> more then Some (rehashes, d1)
      else if clock i - start > ms then Some (rehashes + 100, d1)
      else rehash_ms_loop fuel clock (Suc i) start ms (rehashes + 100) d1) }"

definition dictRehashMilliseconds ::
  "nat \<Rightarrow> (nat \<Rightarrow> int) \<Rightarrow> ('k, 'v, 'p) dict \<Rightarrow> int \<Rightarrow> (int \<times> ('k, 'v, 'p) dict) option" where
  "dictRehashMilliseconds fuel clock d ms = rehash_ms_loop fuel clock 1 (clock 0) ms 0 d"

definition dictRehashStep :: "('k, 'v, 'p) dict \<Rightarrow> ('k, 'v, 'p) dict option" where
  "dictRehashStep d = (if iterators d = 0 then map_option snd (dictRehash 1 d) else Some d)"

definition rehash_step_if :: "('k, 'v, 'p) dict \<Rightarrow> ('k, 'v, 'p) dict option" where
  "rehash_step_if d = (if dictIsRehashing d then dictRehashStep d else Some d)"

section \<open>Adding, replacing, finding and deleting\<close>

definition dictExpandIfNeeded :: "bool \<Rightarrow> ('k, 'v, 'p) dict \<Rightarrow> bool \<times> ('k, 'v, 'p) dict" where
  "dictExpandIfNeeded can_resize d =
     (if dictIsRehashing d then (True, d)
      else if ht_size (ht0 d) = 0 then dictExpand d DICT_HT_INITIAL_SIZE
      else if ht_used (ht0 d) \<ge> ht_size (ht0 d) \<and>
              (can_resize \<or> ht_used (ht0 d) div ht_size (ht0 d) > dict_force_resize_ratio)
      then dictExpand d (ht_used (ht0 d) * 2)
      else (True, d))"

datatype key_index = KeyIndex nat | KeyExists "dictRef option"

text \<open>
  \<open>KeyIndex\<close> is a bucket of the table new entries go to; \<open>KeyExists\<close> is the result
  \<open>-1\<close>, with what \<^verbatim>\<open>*existing\<close> is set to.
\<close>

definition dictKeyIndex ::
  "bool \<Rightarrow> ('k, 'v, 'p) dict \<Rightarrow> 'k \<Rightarrow> u64 \<Rightarrow> (key_index \<times> ('k, 'v, 'p) dict) option" where
  "dictKeyIndex can_resize d k h =
     (case dictExpandIfNeeded can_resize d of (ok, d1) \<Rightarrow>
        if \<not> ok then Some (KeyExists None, d1)
        else do {
          (idx0, pos0) \<leftarrow> search_ht d1 k h (ht0 d1);
          (case pos0 of
             Some j \<Rightarrow> Some (KeyExists (Some (0, idx0, j)), d1)
           | None \<Rightarrow>
               if \<not> dictIsRehashing d1 then Some (KeyIndex idx0, d1)
               else do {
                 (idx1, pos1) \<leftarrow> search_ht d1 k h (ht1 d1);
                 (case pos1 of
                    Some j \<Rightarrow> Some (KeyExists (Some (1, idx1, j)), d1)
                  | None \<Rightarrow> Some (KeyIndex idx1, d1)) }) })"

text \<open>
  \<^verbatim>\<open>dictAddRaw\<close>: \<open>Inr\<close> the reference of the new entry, whose value is not yet set
  (the argument \<open>undef\<close> stands for the uninitialised field), or \<open>Inl\<close> the existing one.
\<close>

definition dictAddRaw ::
  "bool \<Rightarrow> 'v \<Rightarrow> ('k, 'v, 'p) dict \<Rightarrow> 'k
     \<Rightarrow> ((dictRef option + dictRef) \<times> ('k, 'v, 'p) dict) option" where
  "dictAddRaw can_resize undef d k = do {
     d1 \<leftarrow> rehash_step_if d;
     (index, d2) \<leftarrow> dictKeyIndex can_resize d1 k (dictHashKey d1 k);
     (case index of
        KeyExists existing \<Rightarrow> Some (Inl existing, d2)
      | KeyIndex i \<Rightarrow> do {
          let t = (if dictIsRehashing d2 then 1 else 0);
          let ht = get_ht d2 t;
          b \<leftarrow> bucket ht i;
          let e = \<lparr>de_key = dup_key d2 k, de_val = undef\<rparr>;
          let ht' = set_bucket ht i (e # b);
          Some (Inr (t, i, 0), put_ht d2 t (ht'\<lparr>ht_used := ht_used ht' + 1\<rparr>)) }) }"

definition dictAdd ::
  "bool \<Rightarrow> 'v \<Rightarrow> ('k, 'v, 'p) dict \<Rightarrow> 'k \<Rightarrow> 'v \<Rightarrow> (bool \<times> ('k, 'v, 'p) dict) option" where
  "dictAdd can_resize undef d k v = do {
     (entry, d1) \<leftarrow> dictAddRaw can_resize undef d k;
     (case entry of
        Inl _ \<Rightarrow> Some (False, d1)
      | Inr r \<Rightarrow> do { d2 \<leftarrow> dictSetVal d1 r v; Some (True, d2) }) }"

definition dictReplace ::
  "bool \<Rightarrow> 'v \<Rightarrow> ('k, 'v, 'p) dict \<Rightarrow> 'k \<Rightarrow> 'v \<Rightarrow> (bool \<times> ('k, 'v, 'p) dict) option" where
  "dictReplace can_resize undef d k v = do {
     (entry, d1) \<leftarrow> dictAddRaw can_resize undef d k;
     (case entry of
        Inr r \<Rightarrow> do { d2 \<leftarrow> dictSetVal d1 r v; Some (True, d2) }
      | Inl existing \<Rightarrow> do {
          r \<leftarrow> existing;
          auxentry \<leftarrow> entry_at d1 r;
          d2 \<leftarrow> dictSetVal d1 r v;
          Some (False, dictFreeVal d2 auxentry) }) }"

definition dictAddOrFind ::
  "bool \<Rightarrow> 'v \<Rightarrow> ('k, 'v, 'p) dict \<Rightarrow> 'k \<Rightarrow> (dictRef option \<times> ('k, 'v, 'p) dict) option" where
  "dictAddOrFind can_resize undef d k = do {
     (entry, d1) \<leftarrow> dictAddRaw can_resize undef d k;
     Some (case entry of Inr r \<Rightarrow> Some r | Inl existing \<Rightarrow> existing, d1) }"

definition unlink :: "('k, 'v, 'p) dict \<Rightarrow> nat \<Rightarrow> nat \<Rightarrow> nat \<Rightarrow> ('k, 'v, 'p) dict" where
  "unlink d t i j =
     (let ht = get_ht d t; b = ht_table ht ! i; ht' = set_bucket ht i (take j b @ drop (Suc j) b)
      in put_ht d t (ht'\<lparr>ht_used := ht_used ht' - 1\<rparr>))"

definition free_entry :: "('k, 'v, 'p) dict \<Rightarrow> ('k, 'v) dictEntry \<Rightarrow> ('k, 'v, 'p) dict" where
  "free_entry d e = dictFreeVal (dictFreeKey d e) e"

definition dictGenericDelete ::
  "('k, 'v, 'p) dict \<Rightarrow> 'k \<Rightarrow> bool \<Rightarrow> (('k, 'v) dictEntry option \<times> ('k, 'v, 'p) dict) option" where
  "dictGenericDelete d k nofree =
     (if ht_used (ht0 d) = 0 \<and> ht_used (ht1 d) = 0 then Some (None, d)
      else do {
        d1 \<leftarrow> rehash_step_if d;
        let h = dictHashKey d1 k;
        (idx0, pos0) \<leftarrow> search_ht d1 k h (ht0 d1);
        (case pos0 of
           Some j \<Rightarrow> do {
             he \<leftarrow> entry_at d1 (0, idx0, j);
             let d2 = unlink d1 0 idx0 j;
             Some (Some he, if nofree then d2 else free_entry d2 he) }
         | None \<Rightarrow>
             if \<not> dictIsRehashing d1 then Some (None, d1)
             else do {
               (idx1, pos1) \<leftarrow> search_ht d1 k h (ht1 d1);
               (case pos1 of
                  Some j \<Rightarrow> do {
                    he \<leftarrow> entry_at d1 (1, idx1, j);
                    let d2 = unlink d1 1 idx1 j;
             Some (Some he, if nofree then d2 else free_entry d2 he) }
                | None \<Rightarrow> Some (None, d1)) }) })"

definition dictDelete :: "('k, 'v, 'p) dict \<Rightarrow> 'k \<Rightarrow> (bool \<times> ('k, 'v, 'p) dict) option" where
  "dictDelete d k = map_option (\<lambda>(he, d'). (he \<noteq> None, d')) (dictGenericDelete d k False)"

definition dictUnlink ::
  "('k, 'v, 'p) dict \<Rightarrow> 'k \<Rightarrow> (('k, 'v) dictEntry option \<times> ('k, 'v, 'p) dict) option" where
  "dictUnlink d k = dictGenericDelete d k True"

definition dictFreeUnlinkedEntry ::
  "('k, 'v, 'p) dict \<Rightarrow> ('k, 'v) dictEntry option \<Rightarrow> ('k, 'v, 'p) dict" where
  "dictFreeUnlinkedEntry d he = (case he of None \<Rightarrow> d | Some e \<Rightarrow> dictFreeVal (dictFreeKey d e) e)"

definition dictFind ::
  "('k, 'v, 'p) dict \<Rightarrow> 'k \<Rightarrow> (dictRef option \<times> ('k, 'v, 'p) dict) option" where
  "dictFind d k =
     (if ht_used (ht0 d) + ht_used (ht1 d) = 0 then Some (None, d)
      else do {
        d1 \<leftarrow> rehash_step_if d;
        let h = dictHashKey d1 k;
        (idx0, pos0) \<leftarrow> search_ht d1 k h (ht0 d1);
        (case pos0 of
           Some j \<Rightarrow> Some (Some (0, idx0, j), d1)
         | None \<Rightarrow>
             if \<not> dictIsRehashing d1 then Some (None, d1)
             else do {
               (idx1, pos1) \<leftarrow> search_ht d1 k h (ht1 d1);
               (case pos1 of
                  Some j \<Rightarrow> Some (Some (1, idx1, j), d1)
                | None \<Rightarrow> Some (None, d1)) }) })"

definition dictFetchValue ::
  "('k, 'v, 'p) dict \<Rightarrow> 'k \<Rightarrow> ('v option \<times> ('k, 'v, 'p) dict) option" where
  "dictFetchValue d k = do {
     (he, d1) \<leftarrow> dictFind d k;
     (case he of None \<Rightarrow> Some (None, d1)
      | Some r \<Rightarrow> do { e \<leftarrow> entry_at d1 r; Some (Some (de_val e), d1) }) }"

section \<open>Clearing\<close>

fun clear_chain :: "('k, 'v) chain \<Rightarrow> nat \<Rightarrow> ('k, 'v, 'p) dict \<Rightarrow> nat \<times> ('k, 'v, 'p) dict" where
  "clear_chain [] used d = (used, d)"
| "clear_chain (he # rest) used d = clear_chain rest (used - 1) (free_entry d he)"

function clear_loop ::
  "('p \<Rightarrow> 'p) option \<Rightarrow> ('k, 'v) dictht \<Rightarrow> nat \<Rightarrow> nat \<Rightarrow> ('k, 'v, 'p) dict \<Rightarrow> ('k, 'v, 'p) dict option" where
  "clear_loop callback ht i used d =
     (if i < ht_size ht \<and> used > 0 then do {
        let d1 = (case callback of Some f \<Rightarrow> if i mod 65536 = 0 then d\<lparr>privdata := f (privdata d)\<rparr> else d
                                 | None \<Rightarrow> d);
        he \<leftarrow> bucket ht i;
        (case clear_chain he used d1 of (used', d2) \<Rightarrow> clear_loop callback ht (i + 1) used' d2) }
      else Some d)"
  by pat_completeness auto
termination
  by (relation "measure (\<lambda>(callback, ht, i, used, d). ht_size ht - i)") auto

declare clear_loop.simps [simp del]

definition dictClear ::
  "('k, 'v, 'p) dict \<Rightarrow> nat \<Rightarrow> ('p \<Rightarrow> 'p) option \<Rightarrow> ('k, 'v, 'p) dict option" where
  "dictClear d t callback = do {
     d1 \<leftarrow> clear_loop callback (get_ht d t) 0 (ht_used (get_ht d t)) d;
     Some (put_ht d1 t dictReset) }"

definition dictEmpty ::
  "('k, 'v, 'p) dict \<Rightarrow> ('p \<Rightarrow> 'p) option \<Rightarrow> ('k, 'v, 'p) dict option" where
  "dictEmpty d callback = do {
     d1 \<leftarrow> dictClear d 0 callback;
     d2 \<leftarrow> dictClear d1 1 callback;
     Some (d2\<lparr>rehashidx := -1, iterators := 0\<rparr>) }"

text \<open>Releasing returns the private data, the only part that outlives the dictionary.\<close>

definition dictRelease :: "('k, 'v, 'p) dict \<Rightarrow> 'p option" where
  "dictRelease d = do {
     d1 \<leftarrow> dictClear d 0 None;
     d2 \<leftarrow> dictClear d1 1 None;
     Some (privdata d2) }"

end
