(* ===== verification/Dict_Inv.thy ===== *)
theory Dict_Inv
  imports Dict "HOL-Library.Multiset"
begin

text \<open>
  The well-formedness invariant of a dictionary and the map it stands for; incremental
  rehashing keeps both. Key comparison and hashing enter through the locale
  \<open>dict_keys\<close>: what a \<^verbatim>\<open>dictType\<close> must satisfy for the table to work.
\<close>

section \<open>Invariant and abstraction\<close>

definition ht_entries :: "('k, 'v) dictht \<Rightarrow> ('k, 'v) dictEntry list" where
  "ht_entries ht = concat (ht_table ht)"

definition dict_entries :: "('k, 'v, 'p) dict \<Rightarrow> ('k, 'v) dictEntry list" where
  "dict_entries d = ht_entries (ht0 d) @ ht_entries (ht1 d)"

text \<open>
  A table in use has \<open>2 ^ n\<close> buckets, its mask selects the low \<open>n\<close> bits of a hash, the
  counter is the number of entries and every entry is in the bucket of its hash.
\<close>

definition ht_live :: "('k \<Rightarrow> u64) \<Rightarrow> ('k, 'v) dictht \<Rightarrow> bool" where
  "ht_live H ht \<longleftrightarrow> (\<exists>n \<in> {2..63}. ht_size ht = 2 ^ n \<and> length (ht_table ht) = 2 ^ n
     \<and> ht_sizemask ht = mask n \<and> ht_used ht = length (ht_entries ht)
     \<and> (\<forall>i < 2 ^ n. \<forall>e \<in> set (ht_table ht ! i). ht_idx ht (H (de_key e)) = i))"

definition uniq_keys :: "('k \<Rightarrow> 'k \<Rightarrow> bool) \<Rightarrow> ('k, 'v) dictEntry list \<Rightarrow> bool" where
  "uniq_keys same es \<longleftrightarrow> (\<forall>k. length (filter (\<lambda>e. same k (de_key e)) es) \<le> 1)"

text \<open>While rehashing, both tables are in use and the buckets below the index are empty.\<close>

definition rehash_inv :: "('k, 'v, 'p) dict \<Rightarrow> bool" where
  "rehash_inv d \<longleftrightarrow>
     ht_live (hashFunction (d_type d)) (ht0 d) \<and> ht_live (hashFunction (d_type d)) (ht1 d)
     \<and> 0 \<le> rehashidx d \<and> rehashidx d \<le> int (ht_size (ht0 d))
     \<and> (\<forall>i < nat (rehashidx d). ht_table (ht0 d) ! i = [])"

definition dict_inv :: "('k \<Rightarrow> 'k \<Rightarrow> bool) \<Rightarrow> ('k, 'v, 'p) dict \<Rightarrow> bool" where
  "dict_inv same d \<longleftrightarrow>
     uniq_keys same (dict_entries d) \<and>
     (if dictIsRehashing d then rehash_inv d
      else (ht0 d = dictReset \<or> ht_live (hashFunction (d_type d)) (ht0 d)) \<and> ht1 d = dictReset)"

definition dict_abs :: "('k \<Rightarrow> 'k \<Rightarrow> bool) \<Rightarrow> ('k, 'v, 'p) dict \<Rightarrow> 'k \<Rightarrow> 'v option" where
  "dict_abs same d k = map_option de_val (find (\<lambda>e. same k (de_key e)) (dict_entries d))"

section \<open>Bucket updates\<close>

lemma mset_concat_update:
  "i < length xs \<Longrightarrow> mset (concat (xs[i := b])) + mset (xs ! i) = mset (concat xs) + mset b"
proof (induction xs arbitrary: i)
  case (Cons x xs)
  show ?case
  proof (cases i)
    case (Suc j)
    then show ?thesis using Cons.IH [of j] Cons.prems by simp
  qed (simp add: ac_simps)
qed simp

lemma find_pos_Some:
  "find_pos P xs = Some j \<Longrightarrow> j < length xs \<and> P (xs ! j)"
  by (induction xs arbitrary: j) (auto split: if_splits)

lemma find_pos_None: "find_pos P xs = None \<longleftrightarrow> (\<forall>x \<in> set xs. \<not> P x)"
  by (induction xs) auto

lemma ht_entries_reset [simp]: "ht_entries dictReset = []"
  by (simp add: ht_entries_def dictReset_def)

lemma ht_used_reset [simp]: "ht_used dictReset = 0"
  by (simp add: dictReset_def)

lemma set_bucket_simps [simp]:
  "ht_size (set_bucket ht i b) = ht_size ht"
  "ht_sizemask (set_bucket ht i b) = ht_sizemask ht"
  "ht_used (set_bucket ht i b) = ht_used ht"
  "ht_idx (set_bucket ht i b) h = ht_idx ht h"
  "ht_table (set_bucket ht i b) = (ht_table ht)[i := b]"
  by (simp_all add: set_bucket_def ht_idx_def)

lemma used_update_simps [simp]:
  "ht_idx (ht\<lparr>ht_used := u\<rparr>) h = ht_idx ht h"
  "ht_entries (ht\<lparr>ht_used := u\<rparr>) = ht_entries ht"
  "bucket (ht\<lparr>ht_used := u\<rparr>) i = bucket ht i"
  by (simp_all add: ht_idx_def ht_entries_def bucket_def)

lemma ht_entries_set_bucket:
  "i < length (ht_table ht) \<Longrightarrow>
     mset (ht_entries (set_bucket ht i b)) + mset (ht_table ht ! i) = mset (ht_entries ht) + mset b"
  by (simp add: ht_entries_def mset_concat_update)

lemma ht_entries_nth: "i < length (ht_table ht) \<Longrightarrow> set (ht_table ht ! i) \<subseteq> set (ht_entries ht)"
  by (auto simp: ht_entries_def intro: nth_mem)

lemma in_ht_entries: "e \<in> set (ht_entries ht) \<longleftrightarrow> (\<exists>i < length (ht_table ht). e \<in> set (ht_table ht ! i))"
  by (simp add: ht_entries_def) (metis in_set_conv_nth)

lemma ht_live_idx: "ht_live H ht \<Longrightarrow> ht_idx ht h < length (ht_table ht)"
proof -
  assume "ht_live H ht"
  then obtain n where "ht_sizemask ht = mask n" "length (ht_table ht) = 2 ^ n"
    by (auto simp: ht_live_def)
  then show ?thesis
    by (simp add: ht_idx_def unsigned_take_bit_eq flip: take_bit_eq_mask)
qed

lemma ht_live_entry_idx:
  "ht_live H ht \<Longrightarrow> i < length (ht_table ht) \<Longrightarrow> e \<in> set (ht_table ht ! i) \<Longrightarrow> ht_idx ht (H (de_key e)) = i"
  by (auto simp: ht_live_def)

lemma ht_live_bucket: "ht_live H ht \<Longrightarrow> bucket ht (ht_idx ht h) = Some (ht_table ht ! ht_idx ht h)"
  by (simp add: bucket_def ht_live_idx)

lemma ht_live_used: "ht_live H ht \<Longrightarrow> ht_used ht = length (ht_entries ht)"
  by (auto simp: ht_live_def)

lemma ht_live_size: "ht_live H ht \<Longrightarrow> ht_size ht = length (ht_table ht) \<and> 4 \<le> ht_size ht"
proof -
  assume "ht_live H ht"
  then obtain n where "2 \<le> n" "ht_size ht = 2 ^ n" "length (ht_table ht) = 2 ^ n"
    by (auto simp: ht_live_def)
  moreover from this have "(2::nat) ^ 2 \<le> 2 ^ n" by (intro power_increasing) auto
  ultimately show ?thesis by simp
qed

text \<open>Replacing one bucket keeps a table well-formed when the new entries belong there.\<close>

lemma ht_live_set_bucket:
  assumes "ht_live H ht" "i < length (ht_table ht)" "\<forall>e \<in> set b. ht_idx ht (H (de_key e)) = i"
    and "u = ht_used ht + length b - length (ht_table ht ! i)"
  shows "ht_live H ((set_bucket ht i b)\<lparr>ht_used := u\<rparr>)"
proof -
  have "length (ht_entries (set_bucket ht i b)) + length (ht_table ht ! i) = ht_used ht + length b"
    using arg_cong [OF ht_entries_set_bucket [OF assms(2), of b], of size] ht_live_used [OF assms(1)]
    by simp
  with assms show ?thesis
    by (auto simp: ht_live_def nth_list_update)
qed

lemma ht_live_push:
  assumes "ht_live H ht" "i = ht_idx ht (H (de_key e))"
  shows "ht_live H ((set_bucket ht i (e # ht_table ht ! i))\<lparr>ht_used := ht_used ht + 1\<rparr>)"
    and "mset (ht_entries (set_bucket ht i (e # ht_table ht ! i))) = add_mset e (mset (ht_entries ht))"
proof -
  note i = ht_live_idx [OF assms(1), of "H (de_key e)"]
  show "ht_live H ((set_bucket ht i (e # ht_table ht ! i))\<lparr>ht_used := ht_used ht + 1\<rparr>)"
    using assms i ht_live_entry_idx [OF assms(1)] by (intro ht_live_set_bucket) auto
  show "mset (ht_entries (set_bucket ht i (e # ht_table ht ! i))) = add_mset e (mset (ht_entries ht))"
    using ht_entries_set_bucket [of i ht "e # ht_table ht ! i"] assms(2) i by simp
qed

section \<open>Rehashing moves entries and loses none\<close>

lemma move_chain_live:
  assumes "ht_live (hashFunction (d_type d)) (ht1 d)"
  shows "\<exists>t1. move_chain chn d =
      Some (d\<lparr>ht0 := (ht0 d)\<lparr>ht_used := ht_used (ht0 d) - length chn\<rparr>, ht1 := t1\<rparr>)
    \<and> ht_live (hashFunction (d_type d)) t1
    \<and> mset (ht_entries t1) = mset chn + mset (ht_entries (ht1 d))"
  using assms
proof (induction chn arbitrary: d)
  case Nil
  then show ?case by (intro exI [of _ "ht1 d"]) simp
next
  case (Cons e es)
  let ?H = "hashFunction (d_type d)"
  let ?i = "ht_idx (ht1 d) (?H (de_key e))"
  let ?t = "set_bucket (ht1 d) ?i (e # ht_table (ht1 d) ! ?i)"
  let ?d = "d\<lparr>ht0 := (ht0 d)\<lparr>ht_used := ht_used (ht0 d) - 1\<rparr>, ht1 := ?t\<lparr>ht_used := ht_used ?t + 1\<rparr>\<rparr>"
  have "ht_live (hashFunction (d_type ?d)) (ht1 ?d)"
    using ht_live_push(1) [OF Cons.prems refl, of e] by simp
  from Cons.IH [OF this] ht_live_push(2) [OF Cons.prems refl, of e] show ?case
    by (auto simp: dictHashKey_def ht_live_bucket [OF Cons.prems] Let_def)
qed

lemma skip_empty_found:
  assumes "i \<le> j" "j < length tbl" "tbl ! j \<noteq> []"
  shows "case skip_empty tbl i ev of
      ScanFault \<Rightarrow> False
    | ScanStop i' \<Rightarrow> i < i' \<and> i' \<le> j \<and> (\<forall>k. i \<le> k \<and> k < i' \<longrightarrow> tbl ! k = [])
    | ScanFound i' ev' \<Rightarrow> i \<le> i' \<and> i' \<le> j \<and> tbl ! i' \<noteq> [] \<and> (\<forall>k. i \<le> k \<and> k < i' \<longrightarrow> tbl ! k = [])"
  using assms
proof (induction tbl i ev rule: skip_empty.induct)
  case (1 tbl i ev)
  show ?case
  proof (cases "tbl ! i = []")
    case True
    with "1.prems" have ij: "i < j" "i < length tbl" by (auto simp: nat_less_le)
    have split: "k = i \<or> Suc i \<le> k" if "i \<le> k" for k using that by auto
    show ?thesis
    proof (cases "ev - 1 = 0")
      case True
      then have "skip_empty tbl i ev = ScanStop (i + 1)"
        using ij \<open>tbl ! i = []\<close> by (subst skip_empty.simps) simp
      with ij \<open>tbl ! i = []\<close> show ?thesis by (auto dest: split)
    next
      case False
      from "1.IH" [OF _ _ False] ij \<open>tbl ! i = []\<close> "1.prems" False show ?thesis
        by (auto simp: skip_empty.simps [of tbl i ev] split: scan_result.splits dest: split)
    qed
  next
    case False
    with "1.prems" show ?thesis by (auto simp: skip_empty.simps [of tbl i ev])
  qed
qed

lemma rehash_inv_nonempty:
  assumes "rehash_inv d" "ht_used (ht0 d) \<noteq> 0"
  shows "\<exists>j. nat (rehashidx d) \<le> j \<and> j < length (ht_table (ht0 d)) \<and> ht_table (ht0 d) ! j \<noteq> []"
proof -
  from assms have "ht_entries (ht0 d) \<noteq> []"
    by (auto simp: rehash_inv_def dest: ht_live_used)
  then obtain j where "j < length (ht_table (ht0 d))" "ht_table (ht0 d) ! j \<noteq> []"
    by (auto simp: ht_entries_def in_set_conv_nth)
  with assms(1) show ?thesis
    unfolding rehash_inv_def by (meson not_less)
qed

text \<open>What a rehashing step may change: nothing but the tables and the index.\<close>

definition same_content :: "('k, 'v, 'p) dict \<Rightarrow> ('k, 'v, 'p) dict \<Rightarrow> bool" where
  "same_content d d' \<longleftrightarrow>
     mset (dict_entries d') = mset (dict_entries d) \<and> d_type d' = d_type d
     \<and> privdata d' = privdata d \<and> iterators d' = iterators d"

lemma same_content_refl [simp]: "same_content d d"
  by (simp add: same_content_def)

lemma same_content_trans: "same_content d d' \<Longrightarrow> same_content d' d'' \<Longrightarrow> same_content d d''"
  by (simp add: same_content_def)

text \<open>One round of the main loop: the first non-empty bucket is moved.\<close>

lemma rehash_bucket:
  assumes inv: "rehash_inv d" and i: "nat (rehashidx d) \<le> i" "i < length (ht_table (ht0 d))"
    and empty: "\<forall>k. nat (rehashidx d) \<le> k \<and> k < i \<longrightarrow> ht_table (ht0 d) ! k = []"
  shows "\<exists>d1. move_chain (ht_table (ht0 d) ! i) d = Some d1
    \<and> rehash_inv (d1\<lparr>ht0 := set_bucket (ht0 d1) i [], rehashidx := int i + 1\<rparr>)
    \<and> same_content d (d1\<lparr>ht0 := set_bucket (ht0 d1) i [], rehashidx := int i + 1\<rparr>)"
proof -
  let ?b = "ht_table (ht0 d) ! i"
  have live: "ht_live (hashFunction (d_type d)) (ht0 d)" "ht_live (hashFunction (d_type d)) (ht1 d)"
    using inv by (auto simp: rehash_inv_def)
  from move_chain_live [OF live(2), of ?b] obtain t1 where
    mv: "move_chain ?b d = Some (d\<lparr>ht0 := (ht0 d)\<lparr>ht_used := ht_used (ht0 d) - length ?b\<rparr>, ht1 := t1\<rparr>)"
    and t1: "ht_live (hashFunction (d_type d)) t1" "mset (ht_entries t1) = mset ?b + mset (ht_entries (ht1 d))"
    by auto
  let ?t0 = "set_bucket ((ht0 d)\<lparr>ht_used := ht_used (ht0 d) - length ?b\<rparr>) i []"
  have t0: "?t0 = (set_bucket (ht0 d) i [])\<lparr>ht_used := ht_used (ht0 d) + length [] - length ?b\<rparr>"
    by (simp add: set_bucket_def)
  have "ht_live (hashFunction (d_type d)) ?t0"
    by (subst t0, rule ht_live_set_bucket [OF live(1) i(2)]) auto
  moreover have "mset (ht_entries ?t0) + mset ?b = mset (ht_entries (ht0 d))"
    using ht_entries_set_bucket [OF i(2), of "[]"] by (subst t0) simp
  moreover have "(ht_table (ht0 d))[i := []] ! k = []" if "k \<le> i" for k
    using that inv i empty by (cases "k = i"; cases "k < nat (rehashidx d)") (auto simp: rehash_inv_def)
  ultimately show ?thesis
    using mv t1 i ht_live_size [OF live(1)]
    by (auto simp: rehash_inv_def same_content_def dict_entries_def less_Suc_eq_le nat_add_distrib)
qed

lemma rehash_loop_inv:
  assumes "rehash_inv d"
  shows "\<exists>stopped d'. rehash_loop n ev d = Some (stopped, d') \<and> rehash_inv d' \<and> same_content d d'
    \<and> rehashidx d \<le> rehashidx d'
    \<and> (n \<noteq> 0 \<and> ht_used (ht0 d) \<noteq> 0 \<longrightarrow> rehashidx d < rehashidx d')
    \<and> (stopped \<longrightarrow> ht_used (ht0 d') \<noteq> 0)"
  using assms
proof (induction n arbitrary: d ev)
  case (Suc n)
  show ?case
  proof (cases "ht_used (ht0 d) = 0")
    case True
    then show ?thesis using Suc.prems by auto
  next
    case False
    from rehash_inv_nonempty [OF Suc.prems False] obtain j where
      j: "nat (rehashidx d) \<le> j" "j < length (ht_table (ht0 d))" "ht_table (ht0 d) ! j \<noteq> []"
      by auto
    have sz: "ht_size (ht0 d) = length (ht_table (ht0 d))"
      using Suc.prems ht_live_size by (metis rehash_inv_def)
    have range: "0 \<le> rehashidx d" "rehashidx d < int (ht_size (ht0 d))"
      using Suc.prems j sz by (auto simp: rehash_inv_def)
    note skip = skip_empty_found [OF j, of ev]
    show ?thesis
    proof (cases "skip_empty (ht_table (ht0 d)) (nat (rehashidx d)) ev")
      case ScanFault
      with skip show ?thesis by simp
    next
      case (ScanStop i)
      with skip have i: "nat (rehashidx d) < i" "i \<le> j"
          "\<forall>k. nat (rehashidx d) \<le> k \<and> k < i \<longrightarrow> ht_table (ht0 d) ! k = []"
        by auto
      have "ht_table (ht0 d) ! k = []" if "k < i" for k
        using that i(3) Suc.prems by (cases "k < nat (rehashidx d)") (auto simp: rehash_inv_def)
      then have "rehash_inv (d\<lparr>rehashidx := int i\<rparr>)"
        using Suc.prems i(2) j(2) sz by (auto simp: rehash_inv_def)
      moreover have "same_content d (d\<lparr>rehashidx := int i\<rparr>)"
        by (simp add: same_content_def dict_entries_def)
      ultimately show ?thesis using ScanStop False range i(1) by auto
    next
      case (ScanFound i ev')
      with skip j have i: "nat (rehashidx d) \<le> i" "i < length (ht_table (ht0 d))"
          "\<forall>k. nat (rehashidx d) \<le> k \<and> k < i \<longrightarrow> ht_table (ht0 d) ! k = []"
        by auto
      from rehash_bucket [OF Suc.prems i] obtain d1 where
        mv: "move_chain (ht_table (ht0 d) ! i) d = Some d1"
        and d1: "rehash_inv (d1\<lparr>ht0 := set_bucket (ht0 d1) i [], rehashidx := int i + 1\<rparr>)"
          "same_content d (d1\<lparr>ht0 := set_bucket (ht0 d1) i [], rehashidx := int i + 1\<rparr>)"
        by auto
      from Suc.IH [OF d1(1), of ev'] obtain st d' where
        rest: "rehash_loop n ev' (d1\<lparr>ht0 := set_bucket (ht0 d1) i [], rehashidx := int i + 1\<rparr>) = Some (st, d')"
          "rehash_inv d'" "int i + 1 \<le> rehashidx d'" "st \<longrightarrow> ht_used (ht0 d') \<noteq> 0"
        and same: "same_content (d1\<lparr>ht0 := set_bucket (ht0 d1) i [], rehashidx := int i + 1\<rparr>) d'"
        by auto
      have "rehashidx d < rehashidx d'" using i(1) rest(3) by linarith
      with rest same_content_trans [OF d1(2) same] show ?thesis
        using False range ScanFound mv by (intro exI [of _ st] exI [of _ d']) auto
    qed
  qed
qed auto

lemma dictRehash_inv:
  assumes "rehash_inv d"
  shows "\<exists>more d'. dictRehash n d = Some (more, d') \<and> same_content d d'
    \<and> (if more then rehash_inv d' else ht_live (hashFunction (d_type d')) (ht0 d') \<and> ht1 d' = dictReset
         \<and> rehashidx d' = -1)
    \<and> (more \<and> n \<noteq> 0 \<longrightarrow> rehashidx d < rehashidx d')"
proof -
  from rehash_loop_inv [OF assms, of n "int n * 10"] obtain st d1 where
    1: "rehash_loop n (int n * 10) d = Some (st, d1)" "rehash_inv d1" "same_content d d1"
      "n \<noteq> 0 \<and> ht_used (ht0 d) \<noteq> 0 \<longrightarrow> rehashidx d < rehashidx d1"
      "st \<longrightarrow> ht_used (ht0 d1) \<noteq> 0"
    by blast
  have "dictIsRehashing d" using assms by (auto simp: rehash_inv_def dictIsRehashing_def)
  have e: "ht_entries (ht0 d1) = []" if "ht_used (ht0 d1) = 0"
    using that 1(2) by (auto simp: rehash_inv_def dest: ht_live_used)
  have u: "ht_used (ht0 d) \<noteq> 0" if "ht_used (ht0 d1) \<noteq> 0" "n \<noteq> 0"
  proof
    assume "ht_used (ht0 d) = 0"
    with 1(1) \<open>n \<noteq> 0\<close> have "d1 = d" by (cases n) auto
    with that \<open>ht_used (ht0 d) = 0\<close> show False by simp
  qed
  show ?thesis
  proof (cases "ht_used (ht0 d1) = 0")
    case True
    let ?d = "d1\<lparr>ht0 := ht1 d1, ht1 := dictReset, rehashidx := -1\<rparr>"
    have "dictRehash n d = Some (False, ?d)"
      using True 1(1,5) \<open>dictIsRehashing d\<close> by (simp add: dictRehash_def)
    moreover have "same_content d ?d"
      using 1(3) e [OF True] by (simp add: same_content_def dict_entries_def)
    ultimately show ?thesis
      using 1(2) by (intro exI [of _ False] exI [of _ ?d]) (simp add: rehash_inv_def)
  next
    case False
    then have "dictRehash n d = Some (True, d1)"
      using 1(1) \<open>dictIsRehashing d\<close> by (simp add: dictRehash_def)
    then show ?thesis using 1(2-4) u [OF False] by auto
  qed
qed

section \<open>Expansion\<close>

lemma next_power_loop_pow:
  assumes "i = 2 ^ k" "sz \<le> 2 ^ m" "k \<le> m"
  shows "\<exists>n. k \<le> n \<and> n \<le> m \<and> next_power_loop i sz = 2 ^ n \<and> sz \<le> 2 ^ n"
  using assms
proof (induction "m - k" arbitrary: i k)
  case 0
  then have "next_power_loop i sz = i" by (subst next_power_loop.simps) simp
  with 0 show ?case by (intro exI [of _ k]) simp
next
  case (Suc d)
  show ?case
  proof (cases "i \<ge> sz")
    case True
    then have "next_power_loop i sz = i" by (subst next_power_loop.simps) simp
    with Suc.prems True show ?thesis by (intro exI [of _ k]) simp
  next
    case False
    have "\<exists>n\<ge>Suc k. n \<le> m \<and> next_power_loop (i * 2) sz = 2 ^ n \<and> sz \<le> 2 ^ n"
      using Suc.hyps(2) Suc.prems by (intro Suc.hyps(1)) auto
    then obtain n where "Suc k \<le> n" "n \<le> m" "next_power_loop (i * 2) sz = 2 ^ n" "sz \<le> 2 ^ n"
      by auto
    moreover have "next_power_loop i sz = next_power_loop (i * 2) sz"
      using False Suc.prems(1) by (subst next_power_loop.simps) simp
    ultimately show ?thesis by (intro exI [of _ n]) simp
  qed
qed

lemma dictNextPower_pow:
  "\<exists>n \<in> {2..63}. dictNextPower sz = 2 ^ n \<and> (sz \<le> 2 ^ 63 \<longrightarrow> sz \<le> 2 ^ n)"
proof (cases "sz \<ge> LONG_MAX")
  case True
  then show ?thesis by (intro bexI [of _ 63]) (auto simp: dictNextPower_def LONG_MAX_def)
next
  case False
  then have "sz \<le> 2 ^ 63" by (simp add: LONG_MAX_def)
  with next_power_loop_pow [of 4 2 sz 63] False show ?thesis
    by (auto simp: dictNextPower_def DICT_HT_INITIAL_SIZE_def)
qed

lemma empty_table_live:
  assumes "n \<in> {2..63}"
  shows "ht_live H \<lparr>ht_table = replicate (2 ^ n) [], ht_size = 2 ^ n,
           ht_sizemask = of_nat (2 ^ n) - 1, ht_used = 0\<rparr>"
  using assms by (auto simp: ht_live_def ht_entries_def mask_eq_exp_minus_1 intro!: bexI [of _ n])

lemma uniq_keys_mset: "mset es = mset es' \<Longrightarrow> uniq_keys same es = uniq_keys same es'"
  unfolding uniq_keys_def by (metis mset_filter size_mset)

lemma uniq_keys_eq:
  assumes "uniq_keys same es" "e1 \<in> set es" "e2 \<in> set es" "same k (de_key e1)" "same k (de_key e2)"
  shows "e1 = e2"
proof -
  let ?f = "filter (\<lambda>e. same k (de_key e)) es"
  have "length ?f \<le> 1" using assms(1) by (simp add: uniq_keys_def)
  moreover have "e1 \<in> set ?f" "e2 \<in> set ?f" using assms by auto
  ultimately show ?thesis by (cases ?f) auto
qed

lemma dict_abs_Some:
  assumes "uniq_keys same (dict_entries d)"
  shows "dict_abs same d k = Some v \<longleftrightarrow>
    (\<exists>e \<in> set (dict_entries d). same k (de_key e) \<and> de_val e = v)"
proof
  assume "dict_abs same d k = Some v"
  then show "\<exists>e \<in> set (dict_entries d). same k (de_key e) \<and> de_val e = v"
    by (auto simp: dict_abs_def find_Some_iff)
next
  assume "\<exists>e \<in> set (dict_entries d). same k (de_key e) \<and> de_val e = v"
  then obtain e where e: "e \<in> set (dict_entries d)" "same k (de_key e)" "de_val e = v" by auto
  then obtain e' where e': "find (\<lambda>e. same k (de_key e)) (dict_entries d) = Some e'"
    by (cases "find (\<lambda>e. same k (de_key e)) (dict_entries d)") (auto simp: find_None_iff)
  then have "e' \<in> set (dict_entries d)" "same k (de_key e')"
    by (auto simp: find_Some_iff)
  with uniq_keys_eq [OF assms] e have "e' = e" by blast
  with e' e show "dict_abs same d k = Some v" by (simp add: dict_abs_def)
qed

lemma dict_abs_None:
  "dict_abs same d k = None \<longleftrightarrow> (\<forall>e \<in> set (dict_entries d). \<not> same k (de_key e))"
  by (auto simp: dict_abs_def find_None_iff)

lemma dict_abs_cong:
  assumes "mset (dict_entries d') = mset (dict_entries d)" "uniq_keys same (dict_entries d)"
  shows "dict_abs same d' = dict_abs same d"
proof
  fix k
  have "uniq_keys same (dict_entries d')" using assms uniq_keys_mset by metis
  moreover have "set (dict_entries d') = set (dict_entries d)" using assms(1) by (metis set_mset_mset)
  ultimately show "dict_abs same d' k = dict_abs same d k"
    using dict_abs_Some assms(2) by (metis (no_types, lifting) not_None_eq)
qed

lemma dict_inv_used: "dict_inv same d \<Longrightarrow> dictSize d = length (dict_entries d)"
  using ht_live_used [of "hashFunction (d_type d)" "ht0 d"] ht_live_used [of "hashFunction (d_type d)" "ht1 d"]
  by (auto simp: dict_inv_def rehash_inv_def dictSize_def dict_entries_def split: if_splits)

section \<open>The contract of a dictionary type\<close>

text \<open>
  \<open>same\<close> is the key equality of the type: \<^verbatim>\<open>keyCompare\<close> (or pointer equality) decides it
  and ignores the private data, it is an equivalence, equal keys hash alike, and a duplicated
  key equals its original.
\<close>

locale dict_keys =
  fixes T :: "('k, 'v, 'p) dictType" and same :: "'k \<Rightarrow> 'k \<Rightarrow> bool"
  assumes compare_same:
      "k1 = k2 \<or> (case keyCompare T of None \<Rightarrow> k1 = k2 | Some f \<Rightarrow> f p k1 k2) \<longleftrightarrow> same k1 k2"
    and same_sym: "same k1 k2 \<Longrightarrow> same k2 k1"
    and same_trans: "same k1 k2 \<Longrightarrow> same k2 k3 \<Longrightarrow> same k1 k3"
    and hash_same: "same k1 k2 \<Longrightarrow> hashFunction T k1 = hashFunction T k2"
    and keyDup_same: "keyDup T = Some f \<Longrightarrow> same (f p k) k"
begin

lemma same_refl: "same k k"
  using compare_same [of k k undefined] by simp

lemma key_matches_same: "d_type d = T \<Longrightarrow> key_matches d k e \<longleftrightarrow> same k (de_key e)"
  using compare_same [of k "de_key e" "privdata d"]
  by (simp add: key_matches_def dictCompareKeys_def)

lemma dup_key_same: "d_type d = T \<Longrightarrow> same (dup_key d k) k"
  by (auto simp: dup_key_def same_refl keyDup_same split: option.splits)

lemma rehash_step_if_inv:
  assumes "dict_inv same d" "d_type d = T"
  shows "\<exists>d'. rehash_step_if d = Some d' \<and> dict_inv same d' \<and> same_content d d'"
proof (cases "dictIsRehashing d \<and> iterators d = 0")
  case True
  then have "rehash_inv d" using assms by (simp add: dict_inv_def)
  from dictRehash_inv [OF this, of 1] obtain more d' where
    1: "dictRehash 1 d = Some (more, d')" "same_content d d'"
      "if more then rehash_inv d' else ht_live (hashFunction (d_type d')) (ht0 d') \<and> ht1 d' = dictReset
         \<and> rehashidx d' = -1" by auto
  have "uniq_keys same (dict_entries d')"
    using 1(2) assms(1) uniq_keys_mset by (metis dict_inv_def same_content_def)
  moreover have "dictIsRehashing d' = more"
    using 1(3) by (auto simp: dictIsRehashing_def rehash_inv_def split: if_splits)
  ultimately have "dict_inv same d'" using 1(3) by (auto simp: dict_inv_def split: if_splits)
  with 1 True show ?thesis by (simp add: rehash_step_if_def dictRehashStep_def)
next
  case False
  with assms show ?thesis by (auto simp: rehash_step_if_def dictRehashStep_def)
qed

lemma search_ht_live:
  assumes "ht_live (hashFunction T) ht" "d_type d = T"
  shows "\<exists>r. search_ht d k (dictHashKey d k) ht = Some (ht_idx ht (hashFunction T k), r)
    \<and> (case r of
         None \<Rightarrow> \<forall>e \<in> set (ht_entries ht). \<not> same k (de_key e)
       | Some j \<Rightarrow> j < length (ht_table ht ! ht_idx ht (hashFunction T k))
           \<and> same k (de_key (ht_table ht ! ht_idx ht (hashFunction T k) ! j)))"
proof -
  let ?i = "ht_idx ht (hashFunction T k)"
  let ?r = "find_pos (key_matches d k) (ht_table ht ! ?i)"
  have "\<not> same k (de_key e)" if "?r = None" "e \<in> set (ht_entries ht)" for e
  proof
    assume same: "same k (de_key e)"
    from that(2) obtain i where i: "i < length (ht_table ht)" "e \<in> set (ht_table ht ! i)"
      by (auto simp: in_ht_entries)
    from ht_live_entry_idx [OF assms(1) i] hash_same [OF same] have "i = ?i" by simp
    with that(1) i(2) same show False
      by (auto simp: find_pos_None key_matches_same [OF assms(2)])
  qed
  moreover have "j < length (ht_table ht ! ?i) \<and> same k (de_key (ht_table ht ! ?i ! j))"
    if "?r = Some j" for j
    using find_pos_Some [OF that] by (simp add: key_matches_same [OF assms(2)])
  moreover have "search_ht d k (dictHashKey d k) ht = Some (?i, ?r)"
    by (simp add: search_ht_def dictHashKey_def ht_live_bucket [OF assms(1)] Let_def assms(2))
  ultimately show ?thesis by (cases ?r) auto
qed

end

end
