(* ===== verification/Dict_Map.thy ===== *)
theory Dict_Map
  imports Dict_Inv
begin

text \<open>
  The dictionary as a map: adding, replacing, finding, unlinking and deleting keep the
  invariant and act on the abstract map, for every dictionary type that satisfies the
  contract \<open>dict_keys\<close>.
\<close>

lemma option_eqI: "(\<And>x. a = Some x \<longleftrightarrow> b = Some x) \<Longrightarrow> a = b"
  by (cases a; cases b) auto

section \<open>Updating one bucket of a dictionary\<close>

definition upd_bucket ::
  "('k, 'v, 'p) dict \<Rightarrow> nat \<Rightarrow> nat \<Rightarrow> ('k, 'v) chain \<Rightarrow> nat \<Rightarrow> ('k, 'v, 'p) dict" where
  "upd_bucket d t i b u = put_ht d t ((set_bucket (get_ht d t) i b)\<lparr>ht_used := u\<rparr>)"

lemma upd_bucket_fields [simp]:
  "d_type (upd_bucket d t i b u) = d_type d" "privdata (upd_bucket d t i b u) = privdata d"
  "rehashidx (upd_bucket d t i b u) = rehashidx d" "iterators (upd_bucket d t i b u) = iterators d"
  "dictIsRehashing (upd_bucket d t i b u) = dictIsRehashing d"
  by (simp_all add: upd_bucket_def put_ht_def dictIsRehashing_def)

lemma upd_bucket_entries:
  assumes "i < length (ht_table (get_ht d t))"
  shows "mset (dict_entries (upd_bucket d t i b u)) + mset (ht_table (get_ht d t) ! i)
           = mset (dict_entries d) + mset b"
  using ht_entries_set_bucket [OF assms, of b] assms
  by (auto simp: upd_bucket_def put_ht_def get_ht_def dict_entries_def ac_simps split: if_splits)

lemma upd_bucket_inv:
  assumes inv: "dict_inv same d" and t: "t = 0 \<or> t = 1 \<and> dictIsRehashing d"
    and live: "ht_live (hashFunction (d_type d)) (get_ht d t)" and i: "i < length (ht_table (get_ht d t))"
    and b: "\<forall>e \<in> set b. ht_idx (get_ht d t) (hashFunction (d_type d) (de_key e)) = i"
    and u: "u = ht_used (get_ht d t) + length b - length (ht_table (get_ht d t) ! i)"
    and idx: "t = 0 \<and> dictIsRehashing d \<Longrightarrow> nat (rehashidx d) \<le> i"
    and uniq: "uniq_keys same (dict_entries (upd_bucket d t i b u))"
  shows "dict_inv same (upd_bucket d t i b u)"
  using ht_live_set_bucket [OF live i b u] inv t uniq idx ht_live_size [OF live] u
  by (auto simp: dict_inv_def rehash_inv_def upd_bucket_def put_ht_def get_ht_def dictIsRehashing_def
      split: if_splits)

lemma uniq_keys_mset_iff:
  "uniq_keys same es \<longleftrightarrow> (\<forall>k. size (filter_mset (\<lambda>e. same k (de_key e)) (mset es)) \<le> 1)"
  by (simp add: uniq_keys_def flip: mset_filter)

lemma entry_at_in: "entry_at d r = Some e \<Longrightarrow> e \<in> set (dict_entries d)"
  using nth_mem
  by (cases r) (fastforce simp: entry_at_def bucket_def get_ht_def dict_entries_def in_ht_entries
      split: if_splits bind_splits)

lemma entry_at_intro:
  "i < length (ht_table (get_ht d t)) \<Longrightarrow> j < length (ht_table (get_ht d t) ! i) \<Longrightarrow>
     entry_at d (t, i, j) = Some (ht_table (get_ht d t) ! i ! j)"
  by (simp add: entry_at_def bucket_def)

lemma entry_at_elim:
  assumes "entry_at d (t, i, j) = Some e"
  shows "i < length (ht_table (get_ht d t))" "j < length (ht_table (get_ht d t) ! i)"
    "ht_table (get_ht d t) ! i ! j = e"
  using assms by (auto simp: entry_at_def bucket_def split: if_splits)

lemma get_ht_live:
  assumes "dict_inv same d" "entry_at d (t, i, j) = Some e"
  shows "ht_live (hashFunction (d_type d)) (get_ht d t)"
    and "t = 0 \<and> dictIsRehashing d \<Longrightarrow> nat (rehashidx d) \<le> i"
  using assms entry_at_elim [OF assms(2)]
  by (auto simp: dict_inv_def rehash_inv_def get_ht_def dictReset_def split: if_splits)
    (rule ccontr, simp add: not_le)

lemma upd_bucket_same_used:
  "upd_bucket d t i b (ht_used (get_ht d t)) = put_ht d t (set_bucket (get_ht d t) i b)"
  by (simp add: upd_bucket_def set_bucket_def)

lemma mset_remove_nth: "j < length b \<Longrightarrow> mset b = add_mset (b ! j) (mset (take j b @ drop (Suc j) b))"
  using arg_cong [OF id_take_nth_drop [of j b], of mset] by simp

text \<open>Unlinking the entry a reference points to.\<close>

lemma unlink_inv:
  assumes inv: "dict_inv same d" and e: "entry_at d (t, i, j) = Some e" and t: "t = 0 \<or> t = 1 \<and> dictIsRehashing d"
  shows "dict_inv same (unlink d t i j)" "add_mset e (mset (dict_entries (unlink d t i j))) = mset (dict_entries d)"
    "d_type (unlink d t i j) = d_type d" "privdata (unlink d t i j) = privdata d"
    "iterators (unlink d t i j) = iterators d"
proof -
  let ?b = "ht_table (get_ht d t) ! i"
  let ?b' = "take j ?b @ drop (Suc j) ?b"
  note i = entry_at_elim [OF e] and live = get_ht_live [OF inv e]
  have u: "unlink d t i j = upd_bucket d t i ?b' (ht_used (get_ht d t) - 1)"
    by (simp add: unlink_def upd_bucket_def Let_def)
  have ent: "add_mset e (mset (dict_entries (upd_bucket d t i ?b' v))) = mset (dict_entries d)" for v
  proof -
    have "mset (dict_entries (upd_bucket d t i ?b' v)) + add_mset e (mset ?b')
        = mset (dict_entries d) + mset ?b'"
      using upd_bucket_entries [OF i(1), of ?b' v] mset_remove_nth [OF i(2)] i(3) by metis
    then show ?thesis by simp
  qed
  have "size (filter_mset P (mset (dict_entries (upd_bucket d t i ?b' v))))
      \<le> size (filter_mset P (mset (dict_entries d)))" for P v
    unfolding ent [of v, symmetric] by simp
  with inv have "uniq_keys same (dict_entries (upd_bucket d t i ?b' v))" for v
    unfolding dict_inv_def uniq_keys_mset_iff by (meson le_trans)
  moreover have "set ?b' \<subseteq> set ?b" by (auto dest: in_set_takeD in_set_dropD)
  moreover have "ht_used (get_ht d t) - 1 = ht_used (get_ht d t) + length ?b' - length ?b"
    using i(2) by simp
  ultimately show "dict_inv same (unlink d t i j)"
    unfolding u using inv t live i(1) ht_live_entry_idx [OF live(1) i(1)]
    by (intro upd_bucket_inv) auto
  show "add_mset e (mset (dict_entries (unlink d t i j))) = mset (dict_entries d)"
    unfolding u by (rule ent)
  show "d_type (unlink d t i j) = d_type d" "privdata (unlink d t i j) = privdata d"
    "iterators (unlink d t i j) = iterators d"
    unfolding u by simp_all
qed

text \<open>Setting the value of the entry a reference points to.\<close>

lemma dictSetVal_inv:
  assumes inv: "dict_inv same d" and e: "entry_at d (t, i, j) = Some e" and t: "t = 0 \<or> t = 1 \<and> dictIsRehashing d"
  shows "\<exists>d'. dictSetVal d (t, i, j) v = Some d' \<and> dict_inv same d'
    \<and> add_mset e (mset (dict_entries d')) = add_mset (e\<lparr>de_val := dup_val d v\<rparr>) (mset (dict_entries d))
    \<and> d_type d' = d_type d \<and> privdata d' = privdata d \<and> iterators d' = iterators d"
proof -
  let ?b = "ht_table (get_ht d t) ! i" and ?e = "e\<lparr>de_val := dup_val d v\<rparr>"
  let ?d = "upd_bucket d t i (?b[j := ?e]) (ht_used (get_ht d t))"
  note i = entry_at_elim [OF e] and live = get_ht_live [OF inv e]
  have set: "dictSetVal d (t, i, j) v = Some ?d"
    using i by (simp add: dictSetVal_def bucket_def upd_bucket_same_used)
  have mb: "add_mset e (mset (?b[j := ?e])) = add_mset ?e (mset ?b)"
    using i nth_mem [OF i(2)] by (simp add: mset_update)
  have ent: "add_mset e (mset (dict_entries ?d)) = add_mset ?e (mset (dict_entries d))"
  proof -
    have "add_mset e (mset (dict_entries ?d)) + mset ?b = mset (dict_entries d) + add_mset e (mset (?b[j := ?e]))"
      using upd_bucket_entries [OF i(1), of "?b[j := ?e]"] by simp
    then show ?thesis unfolding mb by simp
  qed
  have "size (filter_mset (\<lambda>e. same k (de_key e)) (mset (dict_entries ?d)))
      = size (filter_mset (\<lambda>e. same k (de_key e)) (mset (dict_entries d)))" for k
    using arg_cong [OF ent, of "\<lambda>M. size (filter_mset (\<lambda>e. same k (de_key e)) M)"]
    by (simp split: if_splits)
  with inv have "uniq_keys same (dict_entries ?d)" by (simp add: dict_inv_def uniq_keys_mset_iff)
  moreover have "ht_idx (get_ht d t) (hashFunction (d_type d) (de_key x)) = i" if "x \<in> set (?b[j := ?e])" for x
    using that i set_update_subset_insert [of ?b j ?e] ht_live_entry_idx [OF live(1) i(1)] nth_mem [OF i(2)]
    by (cases "x = ?e") auto
  ultimately have "dict_inv same ?d"
    using inv t live i(1) by (intro upd_bucket_inv) auto
  with set ent show ?thesis by auto
qed

text \<open>Adding an entry at the head of its bucket.\<close>

lemma push_entry_inv:
  assumes inv: "dict_inv same d" and t: "t = (if dictIsRehashing d then 1 else 0)"
    and live: "ht_live (hashFunction (d_type d)) (get_ht d t)"
    and i: "i = ht_idx (get_ht d t) (hashFunction (d_type d) (de_key e))"
    and uniq: "uniq_keys same (e # dict_entries d)"
  shows "dict_inv same (upd_bucket d t i (e # ht_table (get_ht d t) ! i) (ht_used (get_ht d t) + 1))"
    and "mset (dict_entries (upd_bucket d t i (e # ht_table (get_ht d t) ! i) (ht_used (get_ht d t) + 1)))
           = add_mset e (mset (dict_entries d))"
proof -
  have il: "i < length (ht_table (get_ht d t))" using i ht_live_idx [OF live] by simp
  show ent: "mset (dict_entries (upd_bucket d t i (e # ht_table (get_ht d t) ! i) (ht_used (get_ht d t) + 1)))
           = add_mset e (mset (dict_entries d))"
    using upd_bucket_entries [OF il, of "e # ht_table (get_ht d t) ! i" "ht_used (get_ht d t) + 1"] by simp
  then have "uniq_keys same (dict_entries (upd_bucket d t i (e # ht_table (get_ht d t) ! i) (ht_used (get_ht d t) + 1)))"
    using uniq uniq_keys_mset by (metis mset.simps(2))
  then show "dict_inv same (upd_bucket d t i (e # ht_table (get_ht d t) ! i) (ht_used (get_ht d t) + 1))"
    using inv t live il i ht_live_entry_idx [OF live il]
    by (intro upd_bucket_inv) (auto split: if_splits)
qed

section \<open>Expansion keeps the invariant\<close>

lemma dictExpand_inv:
  assumes "dict_inv same d"
  shows "dict_inv same (snd (dictExpand d sz))" "same_content d (snd (dictExpand d sz))"
proof -
  obtain n where n: "n \<in> {2..63}" "dictNextPower sz = 2 ^ n"
    using dictNextPower_pow by blast
  let ?n = "\<lparr>ht_table = replicate (2 ^ n) [], ht_size = 2 ^ n,
             ht_sizemask = of_nat (2 ^ n) - 1, ht_used = 0\<rparr> :: ('a, 'b) dictht"
  have live: "ht_live (hashFunction (d_type d)) ?n" by (rule empty_table_live [OF n(1)])
  have empty: "ht_entries ?n = []" by (simp add: ht_entries_def)
  show "same_content d (snd (dictExpand d sz))"
    using assms n empty
    by (auto simp: dictExpand_def Let_def same_content_def dict_entries_def dict_inv_def ht_entries_def
        dictReset_def)
  show "dict_inv same (snd (dictExpand d sz))"
    using assms n empty live
    by (auto simp: dictExpand_def Let_def dict_entries_def dict_inv_def dictIsRehashing_def rehash_inv_def
        dictReset_def ht_entries_def)
qed

lemma dictExpandIfNeeded_inv:
  assumes "dict_inv same d" "dictSize d < 2 ^ 62" "dictExpandIfNeeded can_resize d = (ok, d')"
  shows "ok" "dict_inv same d'" "same_content d d'" "ht_live (hashFunction (d_type d')) (ht0 d')"
proof -
  have inv: "dict_inv same d'" "same_content d d'"
    using assms(1,3) dictExpand_inv [OF assms(1)]
    by (auto simp: dictExpandIfNeeded_def split: if_splits) (metis snd_conv)+
  then show "dict_inv same d'" "same_content d d'" by auto
  have used: "ht_used (ht0 d) < 2 ^ 62" using assms(2) by (simp add: dictSize_def)
  have "dictNextPower (ht_used (ht0 d) * 2) \<noteq> ht_size (ht0 d)"
    if "ht_size (ht0 d) \<noteq> 0" "ht_used (ht0 d) \<ge> ht_size (ht0 d)"
  proof -
    obtain n where "dictNextPower (ht_used (ht0 d) * 2) = 2 ^ n" "ht_used (ht0 d) * 2 \<le> 2 ^ n"
      using dictNextPower_pow [of "ht_used (ht0 d) * 2"] used by auto
    with that show ?thesis by linarith
  qed
  moreover have "dictNextPower DICT_HT_INITIAL_SIZE = 4"
    by (simp add: dictNextPower_def DICT_HT_INITIAL_SIZE_def LONG_MAX_def next_power_loop.simps)
  moreover have "ht_used (ht0 d) = 0" if "ht_size (ht0 d) = 0" "\<not> dictIsRehashing d"
    using assms(1) that ht_live_size [of _ "ht0 d"] by (auto simp: dict_inv_def)
  ultimately show ok
    using assms(1,3) used
    by (auto simp: dictExpandIfNeeded_def dictExpand_def Let_def DICT_HT_INITIAL_SIZE_def
        dictReset_def dict_inv_def split: if_splits)
  show "ht_live (hashFunction (d_type d')) (ht0 d')"
  proof (rule ccontr)
    assume "\<not> ?thesis"
    with inv(1) have "ht0 d' = dictReset" "\<not> dictIsRehashing d'"
      by (auto simp: dict_inv_def rehash_inv_def split: if_splits)
    with assms(1,3) \<open>ok\<close> show False
      using dictNextPower_pow [of DICT_HT_INITIAL_SIZE] dictNextPower_pow [of "ht_used (ht0 d) * 2"]
      by (auto simp: dictExpandIfNeeded_def dictExpand_def Let_def dictReset_def split: if_splits)
  qed
qed

section \<open>Freeing touches the private data only\<close>

lemma free_entry_fields [simp]:
  "d_type (free_entry d e) = d_type d" "ht0 (free_entry d e) = ht0 d" "ht1 (free_entry d e) = ht1 d"
  "rehashidx (free_entry d e) = rehashidx d" "iterators (free_entry d e) = iterators d"
  by (auto simp: free_entry_def dictFreeVal_def dictFreeKey_def split: option.split)

lemma free_entry_inv [simp]:
  "dict_inv same (free_entry d e) = dict_inv same d"
  "dict_entries (free_entry d e) = dict_entries d"
  "dict_abs same (free_entry d e) = dict_abs same d"
  by (simp_all add: dict_inv_def dict_entries_def rehash_inv_def dictIsRehashing_def dict_abs_def fun_eq_iff)

section \<open>The operations, for any dictionary type\<close>

text \<open>Where the two-table search finds a key; \<open>r\<close> is what the loops compute.\<close>

definition lookup_ref :: "('k \<Rightarrow> 'k \<Rightarrow> bool) \<Rightarrow> ('k, 'v, 'p) dict \<Rightarrow> 'k \<Rightarrow> dictRef option \<Rightarrow> bool" where
  "lookup_ref same d k r \<longleftrightarrow> (case r of
     None \<Rightarrow> dict_abs same d k = None
   | Some (t, i, j) \<Rightarrow> (t = 0 \<or> t = 1 \<and> dictIsRehashing d) \<and>
       (\<exists>e. entry_at d (t, i, j) = Some e \<and> same k (de_key e) \<and> dict_abs same d k = Some (de_val e)))"

text \<open>
  \<^verbatim>\<open>dictAddRaw\<close>: either the key is there and the reference is to its entry, or a new
  entry with the key (and no value yet) is the head of its bucket.
\<close>

definition addRaw_post ::
  "('k \<Rightarrow> 'k \<Rightarrow> bool) \<Rightarrow> 'v \<Rightarrow> ('k, 'v, 'p) dict \<Rightarrow> 'k \<Rightarrow> (dictRef option + dictRef) \<times> ('k, 'v, 'p) dict \<Rightarrow> bool" where
  "addRaw_post same undef d k r \<longleftrightarrow> dict_inv same (snd r) \<and> d_type (snd r) = d_type d
     \<and> privdata (snd r) = privdata d \<and> iterators (snd r) = iterators d \<and>
     (case fst r of
        Inl x \<Rightarrow> x \<noteq> None \<and> dict_abs same d k \<noteq> None \<and> lookup_ref same (snd r) k x \<and> same_content d (snd r)
      | Inr (t, i, j) \<Rightarrow> (t = 0 \<or> t = 1 \<and> dictIsRehashing (snd r)) \<and> dict_abs same d k = None
          \<and> entry_at (snd r) (t, i, j) = Some \<lparr>de_key = dup_key d k, de_val = undef\<rparr>
          \<and> mset (dict_entries (snd r)) = add_mset \<lparr>de_key = dup_key d k, de_val = undef\<rparr> (mset (dict_entries d)))"

text \<open>Updating an abstract map at a key and all keys equal to it.\<close>

definition upd :: "('k \<Rightarrow> 'k \<Rightarrow> bool) \<Rightarrow> ('k \<Rightarrow> 'v option) \<Rightarrow> 'k \<Rightarrow> 'v option \<Rightarrow> 'k \<Rightarrow> 'v option" where
  "upd same m k x = (\<lambda>k'. if same k' k then x else m k')"

context dict_keys
begin

text \<open>The state after a rehashing step, as the operations see it.\<close>

lemma same_content_abs:
  assumes "dict_inv same d" "same_content d d'"
  shows "dict_abs same d' = dict_abs same d"
  using assms dict_abs_cong by (auto simp: dict_inv_def same_content_def)

lemma lookup_ref_table:
  assumes inv: "dict_inv same d" and T: "d_type d = T" and t: "t = 0 \<or> t = 1 \<and> dictIsRehashing d"
    and live: "ht_live (hashFunction T) (get_ht d t)"
    and search: "search_ht d k (dictHashKey d k) (get_ht d t) = Some (i, Some j)"
  shows "lookup_ref same d k (Some (t, i, j))"
proof -
  from search_ht_live [OF live T, of k] search
  have i: "i < length (ht_table (get_ht d t))" "j < length (ht_table (get_ht d t) ! i)"
      "same k (de_key (ht_table (get_ht d t) ! i ! j))"
    using ht_live_idx [OF live] by auto
  let ?e = "ht_table (get_ht d t) ! i ! j"
  have e: "entry_at d (t, i, j) = Some ?e" using i by (simp add: entry_at_intro)
  moreover from this have "?e \<in> set (dict_entries d)" by (rule entry_at_in)
  ultimately show ?thesis
    using t i(3) inv dict_abs_Some [of same d k "de_val ?e"] by (auto simp: lookup_ref_def dict_inv_def)
qed

lemma search_miss:
  assumes T: "d_type d = T" and live: "ht_live (hashFunction T) ht"
    and search: "search_ht d k (dictHashKey d k) ht = Some (i, None)"
  shows "\<forall>e \<in> set (ht_entries ht). \<not> same k (de_key e)" "i = ht_idx ht (hashFunction T k)"
  using search_ht_live [OF live T, of k] search by auto

text \<open>The two-table search shared by \<^verbatim>\<open>dictFind\<close>, \<^verbatim>\<open>_dictKeyIndex\<close> and \<^verbatim>\<open>dictGenericDelete\<close>.\<close>

lemma search_both:
  assumes inv: "dict_inv same d" and T: "d_type d = T" and live: "ht_live (hashFunction T) (ht0 d)"
  obtains (found0) i j where "search_ht d k (dictHashKey d k) (ht0 d) = Some (i, Some j)"
      "lookup_ref same d k (Some (0, i, j))"
  | (miss0) i where "search_ht d k (dictHashKey d k) (ht0 d) = Some (i, None)" "\<not> dictIsRehashing d"
      "i = ht_idx (ht0 d) (hashFunction T k)" "dict_abs same d k = None"
  | (found1) i i1 j where "search_ht d k (dictHashKey d k) (ht0 d) = Some (i, None)" "dictIsRehashing d"
      "search_ht d k (dictHashKey d k) (ht1 d) = Some (i1, Some j)" "lookup_ref same d k (Some (1, i1, j))"
  | (miss1) i i1 where "search_ht d k (dictHashKey d k) (ht0 d) = Some (i, None)" "dictIsRehashing d"
      "search_ht d k (dictHashKey d k) (ht1 d) = Some (i1, None)"
      "i1 = ht_idx (ht1 d) (hashFunction T k)" "dict_abs same d k = None"
      "ht_live (hashFunction T) (ht1 d)"
proof -
  obtain i0 r0 where s0: "search_ht d k (dictHashKey d k) (ht0 d) = Some (i0, r0)"
    using search_ht_live [OF live T, of k] by auto
  show thesis
  proof (cases r0)
    case (Some j)
    with s0 lookup_ref_table [OF inv T, of 0 k i0 j] live show ?thesis
      by (intro found0) (auto simp: get_ht_def)
  next
    case None
    note miss = search_miss [OF T live s0 [unfolded None]]
    show ?thesis
    proof (cases "dictIsRehashing d")
      case False
      then have "ht1 d = dictReset" using inv by (simp add: dict_inv_def)
      then have "dict_abs same d k = None" using miss(1) by (simp add: dict_abs_None dict_entries_def)
      with False None s0 miss(2) show ?thesis by (intro miss0) auto
    next
      case True
      then have live1: "ht_live (hashFunction T) (ht1 d)" using inv T by (auto simp: dict_inv_def rehash_inv_def)
      obtain i1 r1 where s1: "search_ht d k (dictHashKey d k) (ht1 d) = Some (i1, r1)"
        using search_ht_live [OF live1 T, of k] by auto
      show ?thesis
      proof (cases r1)
        case (Some j)
        with s1 True lookup_ref_table [OF inv T, of 1 k i1 j] live1 s0 None show ?thesis
          by (intro found1) (auto simp: get_ht_def)
      next
        case None
        note miss' = search_miss [OF T live1 s1 [unfolded None]]
        have "dict_abs same d k = None"
          using miss(1) miss'(1) by (auto simp: dict_abs_None dict_entries_def)
        with True s0 s1 \<open>r0 = None\<close> None miss'(2) live1 show ?thesis by (intro miss1) auto
      qed
    qed
  qed
qed

lemma dictFind_inv:
  assumes inv: "dict_inv same d" and T: "d_type d = T"
  shows "\<exists>r d'. dictFind d k = Some (r, d') \<and> dict_inv same d' \<and> same_content d d' \<and> lookup_ref same d' k r"
proof (cases "dictSize d = 0")
  case True
  then have "dict_abs same d k = None"
    using dict_inv_used [OF inv] by (simp add: dict_abs_None)
  with True inv show ?thesis by (auto simp: dictFind_def dictSize_def lookup_ref_def)
next
  case False
  from rehash_step_if_inv [OF inv T] obtain d1 where
    d1: "rehash_step_if d = Some d1" "dict_inv same d1" "same_content d d1" by auto
  have T1: "d_type d1 = T" using d1(3) T by (simp add: same_content_def)
  have "dictSize d1 \<noteq> 0"
    using False d1(2,3) inv dict_inv_used by (metis same_content_def size_mset)
  then have "ht0 d1 \<noteq> dictReset \<or> dictIsRehashing d1" using d1(2) by (auto simp: dict_inv_def dictSize_def split: if_splits)
  then have live: "ht_live (hashFunction T) (ht0 d1)" using d1(2) T1 by (auto simp: dict_inv_def rehash_inv_def split: if_splits)
  have nz: "ht_used (ht0 d) = 0 \<Longrightarrow> 0 < ht_used (ht1 d)" using False by (simp add: dictSize_def)
  show ?thesis
    by (rule search_both [OF d1(2) T1 live, of k])
      (use d1 nz in \<open>auto simp: dictFind_def lookup_ref_def Let_def\<close>)
qed

lemma fresh_uniq:
  assumes "dict_inv same d" "dict_abs same d k = None" "same k' k"
  shows "uniq_keys same (\<lparr>de_key = k', de_val = u\<rparr> # dict_entries d)"
  unfolding uniq_keys_def
proof
  fix q
  have "length (filter (\<lambda>e. same q (de_key e)) (dict_entries d)) \<le> 1"
    using assms(1) by (simp add: dict_inv_def uniq_keys_def)
  moreover have "filter (\<lambda>e. same q (de_key e)) (dict_entries d) = []" if "same q k'"
  proof -
    have "same k q" using that assms(3) same_sym same_trans by blast
    then show ?thesis using assms(2) same_trans by (auto simp: dict_abs_None filter_empty_conv)
  qed
  ultimately show "length (filter (\<lambda>e. same q (de_key e)) (\<lparr>de_key = k', de_val = u\<rparr> # dict_entries d)) \<le> 1"
    by (cases "same q k'") simp_all
qed

lemma dictKeyIndex_inv:
  assumes inv: "dict_inv same d" and T: "d_type d = T" and small: "dictSize d < 2 ^ 62"
  shows "\<exists>x d'. dictKeyIndex can_resize d k (dictHashKey d k) = Some (x, d') \<and> dict_inv same d' \<and> same_content d d'
    \<and> (case x of
         KeyExists r \<Rightarrow> r \<noteq> None \<and> lookup_ref same d' k r
       | KeyIndex i \<Rightarrow> dict_abs same d k = None
           \<and> ht_live (hashFunction T) (get_ht d' (if dictIsRehashing d' then 1 else 0))
           \<and> i = ht_idx (get_ht d' (if dictIsRehashing d' then 1 else 0)) (hashFunction T k))"
proof -
  obtain ok d1 where e: "dictExpandIfNeeded can_resize d = (ok, d1)" by fastforce
  note d1 = dictExpandIfNeeded_inv [OF inv small e]
  have T1: "d_type d1 = T" using d1(3) T by (simp add: same_content_def)
  have h: "dictHashKey d k = dictHashKey d1 k" using T T1 by (simp add: dictHashKey_def)
  have abs: "dict_abs same d = dict_abs same d1" using same_content_abs [OF inv d1(3)] by simp
  show ?thesis
    by (rule search_both [OF d1(2) T1 d1(4) [unfolded T1], of k])
      (use d1 T1 in \<open>auto simp: dictKeyIndex_def e h abs get_ht_def\<close>)
qed

lemma dictAddRaw_inv:
  assumes inv: "dict_inv same d" and T: "d_type d = T" and small: "dictSize d < 2 ^ 62"
  shows "\<exists>r. dictAddRaw can_resize undef d k = Some r \<and> addRaw_post same undef d k r"
proof -
  from rehash_step_if_inv [OF inv T] obtain d1 where
    d1: "rehash_step_if d = Some d1" "dict_inv same d1" "same_content d d1" by auto
  have T1: "d_type d1 = T" using d1(3) T by (simp add: same_content_def)
  have "dictSize d1 = dictSize d"
    using d1(2,3) inv dict_inv_used by (metis same_content_def size_mset)
  with dictKeyIndex_inv [OF d1(2) T1, of can_resize k] small obtain x d2 where
    idx: "dictKeyIndex can_resize d1 k (dictHashKey d1 k) = Some (x, d2)"
    and d2: "dict_inv same d2" "same_content d1 d2"
    and x: "case x of KeyExists r \<Rightarrow> r \<noteq> None \<and> lookup_ref same d2 k r
       | KeyIndex i \<Rightarrow> dict_abs same d1 k = None
           \<and> ht_live (hashFunction T) (get_ht d2 (if dictIsRehashing d2 then 1 else 0))
           \<and> i = ht_idx (get_ht d2 (if dictIsRehashing d2 then 1 else 0)) (hashFunction T k)"
    by auto
  have sc: "same_content d d2" by (rule same_content_trans [OF d1(3) d2(2)])
  have abs: "dict_abs same d2 = dict_abs same d" "dict_abs same d1 = dict_abs same d"
    using same_content_abs [OF inv sc] same_content_abs [OF inv d1(3)] by auto
  have T2: "d_type d2 = T" using sc T by (simp add: same_content_def)
  have dup: "dup_key d2 k = dup_key d k" using sc by (auto simp: dup_key_def same_content_def split: option.split)
  show ?thesis
  proof (cases x)
    case (KeyExists r)
    with x abs have "r \<noteq> None" "lookup_ref same d2 k r" "dict_abs same d k \<noteq> None"
      by (auto simp: lookup_ref_def)
    with KeyExists d1(1) idx d2(1) sc show ?thesis
      by (auto simp: dictAddRaw_def addRaw_post_def same_content_def)
  next
    case (KeyIndex i)
    define t where "t = (if dictIsRehashing d2 then 1 else 0 :: nat)"
    let ?e = "\<lparr>de_key = dup_key d k, de_val = undef\<rparr>"
    let ?d = "upd_bucket d2 t i (?e # ht_table (get_ht d2 t) ! i) (ht_used (get_ht d2 t) + 1)"
    from KeyIndex x have live: "ht_live (hashFunction (d_type d2)) (get_ht d2 t)"
      and i: "i = ht_idx (get_ht d2 t) (hashFunction T k)" and none: "dict_abs same d k = None"
      using abs T2 by (auto simp: t_def)
    have ki: "i = ht_idx (get_ht d2 t) (hashFunction (d_type d2) (de_key ?e))"
      using i T2 hash_same [OF dup_key_same [OF T]] by simp
    have un: "uniq_keys same (?e # dict_entries d2)"
      using fresh_uniq [OF d2(1), of k "dup_key d k" undef] abs none dup_key_same [OF T] by simp
    note push = push_entry_inv [OF d2(1) t_def live ki un]
    have il: "i < length (ht_table (get_ht d2 t))" using ht_live_idx [OF live] i by simp
    have "dictAddRaw can_resize undef d k = Some (Inr (t, i, 0), ?d)"
      using d1(1) idx KeyIndex il dup
      by (simp add: dictAddRaw_def bucket_def Let_def upd_bucket_def flip: t_def)
    moreover have "entry_at ?d (t, i, 0) = Some ?e"
      using il by (cases "t = 0") (simp_all add: entry_at_def bucket_def upd_bucket_def get_ht_def put_ht_def)
    ultimately show ?thesis
      using push sc none by (simp add: addRaw_post_def same_content_def t_def)
  qed
qed

lemma abs_insert:
  assumes "dict_inv same d'" "dict_inv same d" "mset (dict_entries d') = add_mset e (mset (dict_entries d))"
  shows "dict_abs same d' k' = (if same k' (de_key e) then Some (de_val e) else dict_abs same d k')"
proof -
  have set: "set (dict_entries d') = insert e (set (dict_entries d))"
    using arg_cong [OF assms(3), of set_mset] by simp
  have u: "uniq_keys same (dict_entries d')" "uniq_keys same (dict_entries d)"
    using assms by (auto simp: dict_inv_def)
  show ?thesis
  proof (cases "same k' (de_key e)")
    case True
    then show ?thesis using dict_abs_Some [OF u(1), of k' "de_val e"] set by auto
  next
    case False
    then have "dict_abs same d' k' = Some x \<longleftrightarrow> dict_abs same d k' = Some x" for x
      unfolding dict_abs_Some [OF u(1)] dict_abs_Some [OF u(2)] set by auto
    with False show ?thesis by (simp add: option_eqI)
  qed
qed

lemma abs_remove:
  assumes "dict_inv same d'" "dict_inv same d" "add_mset e (mset (dict_entries d')) = mset (dict_entries d)"
  shows "dict_abs same d' k' = (if same k' (de_key e) then None else dict_abs same d k')"
proof -
  have "dict_abs same d' k' = None" if "same k' (de_key e)"
  proof -
    have "\<forall>q. size (filter_mset (\<lambda>e. same q (de_key e)) (add_mset e (mset (dict_entries d')))) \<le> 1"
      using assms(2,3) by (simp add: dict_inv_def uniq_keys_mset_iff)
    with that have "filter_mset (\<lambda>e. same k' (de_key e)) (mset (dict_entries d')) = {#}"
      by (auto dest: spec [of _ k'])
    then show ?thesis by (auto simp: dict_abs_None filter_mset_eq_mempty_iff)
  qed
  then show ?thesis using abs_insert [OF assms(2,1) assms(3) [symmetric], of k'] by auto
qed

lemma dictSetVal_abs:
  assumes inv: "dict_inv same d" and e: "entry_at d (t, i, j) = Some e" and t: "t = 0 \<or> t = 1 \<and> dictIsRehashing d"
    and k: "same k (de_key e)"
  shows "\<exists>d'. dictSetVal d (t, i, j) v = Some d' \<and> dict_inv same d' \<and> d_type d' = d_type d
    \<and> privdata d' = privdata d \<and> iterators d' = iterators d
    \<and> size (mset (dict_entries d')) = size (mset (dict_entries d))
    \<and> dict_abs same d' = upd same (dict_abs same d) k (Some (dup_val d v))"
proof -
  let ?e = "e\<lparr>de_val := dup_val d v\<rparr>"
  from dictSetVal_inv [OF inv e t, of v] obtain d' where
    d': "dictSetVal d (t, i, j) v = Some d'" "dict_inv same d'" "d_type d' = d_type d"
      "privdata d' = privdata d" "iterators d' = iterators d"
    and ent: "add_mset e (mset (dict_entries d')) = add_mset ?e (mset (dict_entries d))" by auto
  have sz: "size (mset (dict_entries d')) = size (mset (dict_entries d))"
    using arg_cong [OF ent, of size] by simp
  have mem: "set (dict_entries d') \<union> {e} = set (dict_entries d) \<union> {?e}"
    using arg_cong [OF ent, of set_mset] by auto
  have u: "uniq_keys same (dict_entries d')" "uniq_keys same (dict_entries d)"
    using inv d'(2) by (auto simp: dict_inv_def)
  have eq: "same k' k \<longleftrightarrow> same k' (de_key e)" for k'
    using k same_sym same_trans by blast
  have in': "?e \<in> set (dict_entries d')"
    using mem entry_at_in [OF e] ent by (cases "?e = e") (auto simp: insert_eq_iff dest: mset_eq_setD)
  have "dict_abs same d' k' = upd same (dict_abs same d) k (Some (dup_val d v)) k'" for k'
  proof (cases "same k' k")
    case True
    then have "dict_abs same d' k' = Some (dup_val d v)"
      using in' eq dict_abs_Some [OF u(1)] by force
    with True show ?thesis by (simp add: upd_def)
  next
    case False
    then have "\<not> same k' (de_key e)" using eq by blast
    then have "dict_abs same d' k' = Some x \<longleftrightarrow> dict_abs same d k' = Some x" for x
      unfolding dict_abs_Some [OF u(1)] dict_abs_Some [OF u(2)] using mem by auto
    then have "dict_abs same d' k' = dict_abs same d k'" by (rule option_eqI)
    with False show ?thesis by (simp add: upd_def)
  qed
  with d' sz show ?thesis by auto
qed

theorem dictAdd_map:
  assumes inv: "dict_inv same d" and T: "d_type d = T" and small: "dictSize d < 2 ^ 62"
  shows "\<exists>ok d'. dictAdd can_resize undef d k v = Some (ok, d') \<and> dict_inv same d' \<and> d_type d' = T
    \<and> (ok \<longleftrightarrow> dict_abs same d k = None)
    \<and> dict_abs same d' = (if ok then upd same (dict_abs same d) k (Some (dup_val d v)) else dict_abs same d)
    \<and> dictSize d' = dictSize d + (if ok then 1 else 0)"
proof -
  from dictAddRaw_inv [OF inv T small, of can_resize undef k] obtain x d1 where
    raw: "dictAddRaw can_resize undef d k = Some (x, d1)" and post: "addRaw_post same undef d k (x, d1)"
    by auto
  show ?thesis
  proof (cases x)
    case (Inl r)
    with post have d1: "dict_inv same d1" "same_content d d1" "dict_abs same d k \<noteq> None"
      by (auto simp: addRaw_post_def)
    with same_content_abs [OF inv d1(2)] raw Inl T dict_inv_used [OF inv] dict_inv_used [OF d1(1)]
    show ?thesis by (auto simp: dictAdd_def same_content_def dest: mset_eq_length)
  next
    case (Inr r)
    obtain t i j where r: "r = (t, i, j)" by (cases r)
    let ?e = "\<lparr>de_key = dup_key d k, de_val = undef\<rparr>"
    from post Inr r have d1: "dict_inv same d1" "d_type d1 = T" "privdata d1 = privdata d"
        "dict_abs same d k = None" "entry_at d1 (t, i, j) = Some ?e"
        "mset (dict_entries d1) = add_mset ?e (mset (dict_entries d))" "t = 0 \<or> t = 1 \<and> dictIsRehashing d1"
      using T by (auto simp: addRaw_post_def)
    have k: "same k (dup_key d k)" using dup_key_same [OF T] same_sym by blast
    from dictSetVal_abs [OF d1(1,5,7), of k v] k obtain d2 where
      d2: "dictSetVal d1 (t, i, j) v = Some d2" "dict_inv same d2" "d_type d2 = T"
        "size (mset (dict_entries d2)) = size (mset (dict_entries d1))"
        "dict_abs same d2 = upd same (dict_abs same d1) k (Some (dup_val d1 v))"
      using d1(2) by auto
    have dv: "dup_val d1 v = dup_val d v"
      using d1(2,3) T by (auto simp: dup_val_def split: option.split)
    have "same k' k" if "same k' (dup_key d k)" for k'
      using that k same_sym same_trans by blast
    then have "upd same (dict_abs same d1) k y = upd same (dict_abs same d) k y" for y
      unfolding upd_def using abs_insert [OF d1(1) inv d1(6)] by (auto simp: fun_eq_iff)
    with d2 raw Inr r d1(4) dv show ?thesis
      using dict_inv_used [OF d2(2)] dict_inv_used [OF inv] d1(6) by (auto simp: dictAdd_def)
  qed
qed

theorem dictReplace_map:
  assumes inv: "dict_inv same d" and T: "d_type d = T" and small: "dictSize d < 2 ^ 62"
  shows "\<exists>added d'. dictReplace can_resize undef d k v = Some (added, d') \<and> dict_inv same d' \<and> d_type d' = T
    \<and> (added \<longleftrightarrow> dict_abs same d k = None)
    \<and> dict_abs same d' = upd same (dict_abs same d) k (Some (dup_val d v))
    \<and> dictSize d' = dictSize d + (if added then 1 else 0)"
proof -
  from dictAddRaw_inv [OF inv T small, of can_resize undef k] obtain x d1 where
    raw: "dictAddRaw can_resize undef d k = Some (x, d1)" and post: "addRaw_post same undef d k (x, d1)"
    by auto
  have dv: "dup_val d1 v = dup_val d v"
    using post by (auto simp: dup_val_def addRaw_post_def split: option.split)
  show ?thesis
  proof (cases x)
    case (Inr r)
    with raw have "dictReplace can_resize undef d k v = dictAdd can_resize undef d k v"
      by (simp add: dictReplace_def dictAdd_def)
    moreover have "dict_abs same d k = None" using post Inr by (auto simp: addRaw_post_def split: prod.splits)
    moreover from dictAdd_map [OF inv T small, of can_resize undef k v] obtain ok d' where
      "dictAdd can_resize undef d k v = Some (ok, d')" "dict_inv same d'" "d_type d' = T"
      "ok \<longleftrightarrow> dict_abs same d k = None" "dictSize d' = dictSize d + (if ok then 1 else 0)"
      "dict_abs same d' = (if ok then upd same (dict_abs same d) k (Some (dup_val d v)) else dict_abs same d)"
      by blast
    ultimately show ?thesis by (intro exI [of _ True] exI [of _ d']) simp
  next
    case (Inl x')
    with post obtain t i j e where x': "x' = Some (t, i, j)" and
      d1: "dict_inv same d1" "d_type d1 = T" "same_content d d1" "dict_abs same d k \<noteq> None"
        "entry_at d1 (t, i, j) = Some e" "same k (de_key e)" "t = 0 \<or> t = 1 \<and> dictIsRehashing d1"
      using T by (auto simp: addRaw_post_def lookup_ref_def)
    from dictSetVal_abs [OF d1(1,5,7,6), of v] obtain d2 where
      d2: "dictSetVal d1 (t, i, j) v = Some d2" "dict_inv same d2" "d_type d2 = T"
        "dict_abs same d2 = upd same (dict_abs same d1) k (Some (dup_val d1 v))"
        "size (mset (dict_entries d2)) = size (mset (dict_entries d1))"
      using d1(2) by blast
    have "dictSize (dictFreeVal d2 e) = dictSize d2"
      by (simp add: dictFreeVal_def dictSize_def split: option.splits)
    also have "\<dots> = dictSize d"
      using d2(5) d1(3) dict_inv_used [OF d2(2)] dict_inv_used [OF inv]
      by (metis same_content_def size_mset)
    finally have size: "dictSize (dictFreeVal d2 e) = dictSize d" .
    have "dict_inv same (dictFreeVal d2 e)" "d_type (dictFreeVal d2 e) = T"
        "dict_abs same (dictFreeVal d2 e) = dict_abs same d2"
      using d2(2,3) by (auto simp: dictFreeVal_def dict_inv_def rehash_inv_def dictIsRehashing_def
          dict_entries_def dict_abs_def split: option.splits)
    with size d2 d1 raw Inl x' dv same_content_abs [OF inv d1(3)] show ?thesis
      by (auto simp: dictReplace_def)
  qed
qed

theorem dictGenericDelete_map:
  assumes inv: "dict_inv same d" and T: "d_type d = T"
  shows "\<exists>he d'. dictGenericDelete d k nofree = Some (he, d') \<and> dict_inv same d' \<and> d_type d' = T
    \<and> map_option de_val he = dict_abs same d k
    \<and> dict_abs same d' = upd same (dict_abs same d) k None
    \<and> dictSize d' = dictSize d - (if he = None then 0 else 1)"
proof (cases "dictSize d = 0")
  case True
  then have "dict_abs same d = (\<lambda>_. None)"
    using dict_inv_used [OF inv] by (auto simp: dict_abs_None fun_eq_iff)
  with True inv T show ?thesis
    by (auto simp: dictGenericDelete_def dictSize_def upd_def)
next
  case False
  from rehash_step_if_inv [OF inv T] obtain d1 where
    d1: "rehash_step_if d = Some d1" "dict_inv same d1" "same_content d d1" by auto
  have T1: "d_type d1 = T" using d1(3) T by (simp add: same_content_def)
  have sz: "dictSize d1 = dictSize d"
    using d1(2,3) inv dict_inv_used by (metis same_content_def size_mset)
  with False have "ht0 d1 \<noteq> dictReset \<or> dictIsRehashing d1"
    using d1(2) by (auto simp: dict_inv_def dictSize_def split: if_splits)
  then have live: "ht_live (hashFunction T) (ht0 d1)"
    using d1(2) T1 by (auto simp: dict_inv_def rehash_inv_def split: if_splits)
  have nz: "ht_used (ht0 d) = 0 \<Longrightarrow> 0 < ht_used (ht1 d)" using False by (simp add: dictSize_def)
  note abs = same_content_abs [OF inv d1(3)]
  have found: "\<exists>e. entry_at d1 (t, i, j) = Some e \<and> Some (de_val e) = dict_abs same d k
      \<and> dict_inv same (unlink d1 t i j) \<and> d_type (unlink d1 t i j) = T
      \<and> dict_abs same (unlink d1 t i j) = upd same (dict_abs same d) k None
      \<and> dictSize (unlink d1 t i j) = dictSize d - 1"
    if "lookup_ref same d1 k (Some (t, i, j))" for t i j
  proof -
    from that obtain e where e: "entry_at d1 (t, i, j) = Some e" "same k (de_key e)"
        "dict_abs same d1 k = Some (de_val e)" "t = 0 \<or> t = 1 \<and> dictIsRehashing d1"
      by (auto simp: lookup_ref_def)
    note u = unlink_inv [OF d1(2) e(1,4)]
    have "same k' k \<longleftrightarrow> same k' (de_key e)" for k'
      using e(2) same_sym same_trans by blast
    then have "dict_abs same (unlink d1 t i j) = upd same (dict_abs same d) k None"
      using abs_remove [OF u(1) d1(2) u(2)] abs by (auto simp: upd_def fun_eq_iff)
    moreover have "dictSize (unlink d1 t i j) = dictSize d - 1"
      using dict_inv_used [OF u(1)] dict_inv_used [OF d1(2)] sz arg_cong [OF u(2), of size] by simp
    ultimately show ?thesis using e u T1 abs by auto
  qed
  have dsz: "dictSize (free_entry x e) = dictSize x" for x e by (simp add: dictSize_def)
  have miss: "upd same (dict_abs same d) k None = dict_abs same d" if "dict_abs same d1 k = None"
  proof -
    have "dict_abs same d1 k' = None" if k': "same k' k" for k'
      using \<open>dict_abs same d1 k = None\<close> same_trans [OF same_sym [OF k']]
      unfolding dict_abs_None by blast
    with abs have "dict_abs same d k' = None" if "same k' k" for k' using that by simp
    then show ?thesis by (auto simp: upd_def fun_eq_iff)
  qed
  show ?thesis
  proof (rule search_both [OF d1(2) T1 live, of k])
    fix i j
    assume "search_ht d1 k (dictHashKey d1 k) (ht0 d1) = Some (i, Some j)" "lookup_ref same d1 k (Some (0, i, j))"
    with found [OF this(2)] d1(1) nz show ?thesis
      by (auto simp: dictGenericDelete_def Let_def dsz)
  next
    fix i i1 j
    assume "search_ht d1 k (dictHashKey d1 k) (ht0 d1) = Some (i, None)" "dictIsRehashing d1"
      "search_ht d1 k (dictHashKey d1 k) (ht1 d1) = Some (i1, Some j)" "lookup_ref same d1 k (Some (1, i1, j))"
    with found [OF this(4)] d1(1) nz show ?thesis
      by (auto simp: dictGenericDelete_def Let_def dsz)
  qed (use d1 nz sz T1 miss abs in \<open>auto simp: dictGenericDelete_def Let_def\<close>)
qed

theorem dictFetchValue_map:
  assumes inv: "dict_inv same d" and T: "d_type d = T"
  shows "\<exists>d'. dictFetchValue d k = Some (dict_abs same d k, d') \<and> dict_inv same d' \<and> same_content d d'"
proof -
  from dictFind_inv [OF inv T, of k] obtain r d' where
    "dictFind d k = Some (r, d')" "dict_inv same d'" "same_content d d'" "lookup_ref same d' k r"
    by auto
  with same_content_abs [OF inv this(3)] show ?thesis
    by (cases r) (auto simp: dictFetchValue_def lookup_ref_def)
qed

end

end
