(* ===== verification/Dict_Scan.thy ===== *)
theory Dict_Scan
  imports Dict_Map
begin

text \<open>
  Walking a dictionary (\<^verbatim>\<open>src/dict.c\<close>): the iterators, the random sampling functions and
  the stateless scan \<^verbatim>\<open>dictScan\<close>. The scan's cursor counts in bit-reversed order; the
  lemmas read a cursor as its reversal, an ordinary number that only grows, and show that a
  complete scan returns every key that is in the dictionary from its first to its last call,
  whatever resizing happens between the calls.
\<close>

section \<open>Iterators\<close>

text \<open>
  The fingerprint hashes the addresses, sizes and counters of the two tables; the addresses
  are a parameter. The arithmetic is on 64-bit words, with \<^verbatim>\<open>>>\<close> on the signed type.
\<close>

definition wang_round :: "u64 \<Rightarrow> u64 \<Rightarrow> u64" where
  "wang_round hash integer =
     (let hash = hash + integer;
          hash = NOT hash + push_bit 21 hash;
          hash = hash XOR signed_drop_bit 24 hash;
          hash = (hash + push_bit 3 hash) + push_bit 8 hash;
          hash = hash XOR signed_drop_bit 14 hash;
          hash = (hash + push_bit 2 hash) + push_bit 4 hash;
          hash = hash XOR signed_drop_bit 28 hash
      in hash + push_bit 31 hash)"

definition dictFingerprint :: "u64 \<Rightarrow> u64 \<Rightarrow> ('k, 'v, 'p) dict \<Rightarrow> u64" where
  "dictFingerprint addr0 addr1 d =
     foldl wang_round 0
       [addr0, of_nat (ht_size (ht0 d)), of_nat (ht_used (ht0 d)),
        addr1, of_nat (ht_size (ht1 d)), of_nat (ht_used (ht1 d))]"

text \<open>
  An iterator points into a chain: the current and the saved next entry are the rest of the
  chain from there, empty for \<^verbatim>\<open>NULL\<close>.
\<close>

record ('k, 'v) dictIterator =
  it_index :: int
  it_table :: nat
  it_safe :: bool
  it_entry :: "('k, 'v) chain"
  it_nextEntry :: "('k, 'v) chain"
  it_fingerprint :: u64

definition dictGetIterator :: "('k, 'v) dictIterator" where
  "dictGetIterator = \<lparr>it_index = -1, it_table = 0, it_safe = False, it_entry = [], it_nextEntry = [],
     it_fingerprint = 0\<rparr>"

definition dictGetSafeIterator :: "('k, 'v) dictIterator" where
  "dictGetSafeIterator = dictGetIterator\<lparr>it_safe := True\<rparr>"

definition start_iteration ::
  "('k, 'v, 'p) dict \<Rightarrow> u64 \<Rightarrow> ('k, 'v) dictIterator \<Rightarrow> ('k, 'v) dictIterator \<times> ('k, 'v, 'p) dict" where
  "start_iteration d fp it =
     (if it_index it = -1 \<and> it_table it = 0
      then (if it_safe it then (it, d\<lparr>iterators := iterators d + 1\<rparr>)
            else (it\<lparr>it_fingerprint := fp\<rparr>, d))
      else (it, d))"

text \<open>
  The loop of \<^verbatim>\<open>dictNext\<close>; \<open>fp\<close> stands for the fingerprint of the dictionary. The fuel
  bounds the number of buckets and chain ends passed over.
\<close>

fun dictNext ::
  "nat \<Rightarrow> (('k, 'v, 'p) dict \<Rightarrow> u64) \<Rightarrow> ('k, 'v) dictIterator \<Rightarrow> ('k, 'v, 'p) dict
     \<Rightarrow> (('k, 'v) dictEntry option \<times> ('k, 'v) dictIterator \<times> ('k, 'v, 'p) dict) option" where
  "dictNext 0 fp it d = None"
| "dictNext (Suc fuel) fp it d =
     (let step = (\<lambda>it d. case it_entry it of
                    e # rest \<Rightarrow> Some (Some e, it\<lparr>it_nextEntry := rest\<rparr>, d)
                  | [] \<Rightarrow> dictNext fuel fp it d)
      in if it_entry it = [] then
           (case start_iteration d (fp d) it of (it, d) \<Rightarrow>
              let it = it\<lparr>it_index := it_index it + 1\<rparr> in
              if it_index it \<ge> int (ht_size (get_ht d (it_table it))) then
                (if dictIsRehashing d \<and> it_table it = 0 then do {
                   b \<leftarrow> bucket (ht1 d) 0;
                   step (it\<lparr>it_table := 1, it_index := 0, it_entry := b\<rparr>) d }
                 else Some (None, it, d))
              else do {
                b \<leftarrow> bucket (get_ht d (it_table it)) (nat (it_index it));
                step (it\<lparr>it_entry := b\<rparr>) d })
         else step (it\<lparr>it_entry := it_nextEntry it\<rparr>) d)"

text \<open>\<open>None\<close> is the failed assertion that the fingerprint is unchanged.\<close>

definition dictReleaseIterator ::
  "(('k, 'v, 'p) dict \<Rightarrow> u64) \<Rightarrow> ('k, 'v) dictIterator \<Rightarrow> ('k, 'v, 'p) dict \<Rightarrow> ('k, 'v, 'p) dict option" where
  "dictReleaseIterator fp it d =
     (if \<not> (it_index it = -1 \<and> it_table it = 0)
      then (if it_safe it then Some (d\<lparr>iterators := iterators d - 1\<rparr>)
            else if it_fingerprint it = fp d then Some d else None)
      else Some d)"

section \<open>Random entries\<close>

text \<open>
  \<^verbatim>\<open>random()\<close> is a parameter: the sequence of its results, with the index of the next.
\<close>

fun random_bucket ::
  "nat \<Rightarrow> (nat \<Rightarrow> nat) \<Rightarrow> nat \<Rightarrow> ('k, 'v, 'p) dict \<Rightarrow> (('k, 'v) chain \<times> nat) option" where
  "random_bucket 0 rnd n d = None"
| "random_bucket (Suc fuel) rnd n d = do {
     he \<leftarrow>
       (if dictIsRehashing d then
          let s0 = ht_size (ht0 d);
              h = nat (rehashidx d) + rnd n mod (s0 + ht_size (ht1 d) - nat (rehashidx d))
          in if h \<ge> s0 then bucket (ht1 d) (h - s0) else bucket (ht0 d) h
        else bucket (ht0 d) (ht_idx (ht0 d) (of_nat (rnd n))));
     (if he = [] then random_bucket fuel rnd (Suc n) d else Some (he, Suc n)) }"

definition dictGetRandomKey ::
  "nat \<Rightarrow> (nat \<Rightarrow> nat) \<Rightarrow> nat \<Rightarrow> ('k, 'v, 'p) dict
     \<Rightarrow> (('k, 'v) dictEntry option \<times> nat \<times> ('k, 'v, 'p) dict) option" where
  "dictGetRandomKey fuel rnd n d =
     (if dictSize d = 0 then Some (None, n, d)
      else do {
        d1 \<leftarrow> rehash_step_if d;
        (he, n1) \<leftarrow> random_bucket fuel rnd n d1;
        let listele = rnd n1 mod length he;
        Some (Some (he ! listele), Suc n1, d1) })"

text \<open>
  \<^verbatim>\<open>dictGetSomeKeys\<close>. The state of the sampling loop: the bucket index, the length of the
  current run of empty buckets, the entries stored so far and the next random number.
\<close>

record ('k, 'v) sample =
  sm_i :: nat
  sm_empty :: nat
  sm_stored :: "('k, 'v) dictEntry list"
  sm_rnd :: nat

definition sample_bucket ::
  "(nat \<Rightarrow> nat) \<Rightarrow> nat \<Rightarrow> u64 \<Rightarrow> ('k, 'v) dictht \<Rightarrow> ('k, 'v) sample \<Rightarrow> ('k, 'v) sample option" where
  "sample_bucket rnd cnt maxsizemask ht s =
     (if sm_i s \<ge> ht_size ht then Some s
      else do {
        he \<leftarrow> bucket ht (sm_i s);
        (if he = [] then
           (let s = s\<lparr>sm_empty := sm_empty s + 1\<rparr> in
            if sm_empty s \<ge> 5 \<and> sm_empty s > cnt
            then Some (s\<lparr>sm_i := unat (of_nat (rnd (sm_rnd s)) AND maxsizemask), sm_empty := 0,
                         sm_rnd := sm_rnd s + 1\<rparr>)
            else Some s)
         else Some (s\<lparr>sm_empty := 0,
                      sm_stored := sm_stored s @ take (cnt - length (sm_stored s)) he\<rparr>)) })"

definition sample_table ::
  "(nat \<Rightarrow> nat) \<Rightarrow> nat \<Rightarrow> u64 \<Rightarrow> nat \<Rightarrow> ('k, 'v, 'p) dict \<Rightarrow> nat \<Rightarrow> ('k, 'v) sample \<Rightarrow> ('k, 'v) sample option" where
  "sample_table rnd cnt maxsizemask tables d j s =
     (if tables = 2 \<and> j = 0 \<and> int (sm_i s) < rehashidx d then
        (if sm_i s \<ge> ht_size (ht1 d)
         then sample_bucket rnd cnt maxsizemask (get_ht d j) (s\<lparr>sm_i := nat (rehashidx d)\<rparr>)
         else Some s)
      else sample_bucket rnd cnt maxsizemask (get_ht d j) s)"

fun sample_loop ::
  "nat \<Rightarrow> (nat \<Rightarrow> nat) \<Rightarrow> nat \<Rightarrow> u64 \<Rightarrow> nat \<Rightarrow> ('k, 'v, 'p) dict \<Rightarrow> ('k, 'v) sample \<Rightarrow> ('k, 'v) sample option" where
  "sample_loop 0 rnd cnt maxsizemask tables d s = Some s"
| "sample_loop (Suc maxsteps) rnd cnt maxsizemask tables d s =
     (if length (sm_stored s) < cnt then do {
        s \<leftarrow> sample_table rnd cnt maxsizemask tables d 0 s;
        (if length (sm_stored s) = cnt then Some s
         else do {
           s \<leftarrow> (if tables > 1 then sample_table rnd cnt maxsizemask tables d 1 s else Some s);
           (if length (sm_stored s) = cnt then Some s
            else sample_loop maxsteps rnd cnt maxsizemask tables d
                   (s\<lparr>sm_i := unat (of_nat (sm_i s + 1) AND maxsizemask)\<rparr>)) }) }
      else Some s)"

fun rehash_times :: "nat \<Rightarrow> ('k, 'v, 'p) dict \<Rightarrow> ('k, 'v, 'p) dict option" where
  "rehash_times 0 d = Some d"
| "rehash_times (Suc j) d =
     (if dictIsRehashing d then do { d1 \<leftarrow> dictRehashStep d; rehash_times j d1 } else Some d)"

definition dictGetSomeKeys ::
  "(nat \<Rightarrow> nat) \<Rightarrow> nat \<Rightarrow> ('k, 'v, 'p) dict \<Rightarrow> nat
     \<Rightarrow> (('k, 'v) dictEntry list \<times> nat \<times> ('k, 'v, 'p) dict) option" where
  "dictGetSomeKeys rnd n d cnt = do {
     let cnt = min cnt (dictSize d);
     let maxsteps = cnt * 10 mod 2 ^ 32;
     d1 \<leftarrow> rehash_times cnt d;
     let tables = (if dictIsRehashing d1 then 2 else 1);
     let maxsizemask = (if tables > 1 \<and> ht_sizemask (ht0 d1) < ht_sizemask (ht1 d1)
                        then ht_sizemask (ht1 d1) else ht_sizemask (ht0 d1));
     let i = unat (of_nat (rnd n) AND maxsizemask);
     s \<leftarrow> sample_loop maxsteps rnd cnt maxsizemask tables d1
            \<lparr>sm_i = i, sm_empty = 0, sm_stored = [], sm_rnd = Suc n\<rparr>;
     Some (sm_stored s, sm_rnd s, d1) }"

section \<open>The scan\<close>

text \<open>Bit reversal by swapping halves, quarters, \<dots>, single bits.\<close>

function rev_loop :: "nat \<Rightarrow> u64 \<Rightarrow> u64 \<Rightarrow> u64" where
  "rev_loop s msk v =
     (let s = s div 2 in
      if s > 0 then
        let msk = msk XOR push_bit s msk;
            v = (drop_bit s v AND msk) OR (push_bit s v AND NOT msk)
        in rev_loop s msk v
      else v)"
  by pat_completeness auto
termination
  by (relation "measure (\<lambda>(s, msk, v). s)") auto

declare rev_loop.simps [simp del]

definition dict_rev :: "u64 \<Rightarrow> u64" where
  "dict_rev v = rev_loop 64 (NOT 0) v"

text \<open>What a scan reports: a call of \<^verbatim>\<open>bucketfn\<close> (table and bucket) or of \<^verbatim>\<open>fn\<close>.\<close>

datatype ('k, 'v) scan_event = EmitBucket nat nat | EmitEntry "('k, 'v) dictEntry"

definition emit_bucket ::
  "bool \<Rightarrow> nat \<Rightarrow> ('k, 'v) dictht \<Rightarrow> u64 \<Rightarrow> ('k, 'v) scan_event list option" where
  "emit_bucket bucketfn t ht v = do {
     let i = unat (v AND ht_sizemask ht);
     b \<leftarrow> bucket ht i;
     Some ((if bucketfn then [EmitBucket t i] else []) @ map EmitEntry b) }"

text \<open>Set the bits above the mask, then increment the reversed cursor.\<close>

definition next_cursor :: "u64 \<Rightarrow> u64 \<Rightarrow> u64" where
  "next_cursor v m = dict_rev (dict_rev (v OR NOT m) + 1)"

partial_function (option) scan_expand ::
  "bool \<Rightarrow> nat \<Rightarrow> ('k, 'v) dictht \<Rightarrow> u64 \<Rightarrow> u64 \<Rightarrow> u64 \<Rightarrow> (u64 \<times> ('k, 'v) scan_event list) option" where
  "scan_expand bucketfn t ht m0 m1 v = do {
     es \<leftarrow> emit_bucket bucketfn t ht v;
     let v = next_cursor v m1;
     (if v AND (m0 XOR m1) \<noteq> 0 then do {
        (v', es') \<leftarrow> scan_expand bucketfn t ht m0 m1 v;
        Some (v', es @ es') }
      else Some (v, es)) }"

definition dictScan ::
  "bool \<Rightarrow> ('k, 'v, 'p) dict \<Rightarrow> u64 \<Rightarrow> (u64 \<times> ('k, 'v) scan_event list) option" where
  "dictScan bucketfn d v =
     (if dictSize d = 0 then Some (0, [])
      else if \<not> dictIsRehashing d then do {
        es \<leftarrow> emit_bucket bucketfn 0 (ht0 d) v;
        Some (next_cursor v (ht_sizemask (ht0 d)), es) }
      else
        let (n0, n1) = (if ht_size (ht0 d) > ht_size (ht1 d) then (1, 0) else (0, 1));
            t0 = get_ht d n0; t1 = get_ht d n1; m0 = ht_sizemask t0; m1 = ht_sizemask t1
        in do {
          es \<leftarrow> emit_bucket bucketfn n0 t0 v;
          (v', es') \<leftarrow> scan_expand bucketfn n1 t1 m0 m1 v;
          Some (v', es @ es') })"

text \<open>A sequence of scan calls, each on the state of the dictionary at that time.\<close>

fun scan_run ::
  "bool \<Rightarrow> ('k, 'v, 'p) dict list \<Rightarrow> u64 \<Rightarrow> (u64 \<times> ('k, 'v) scan_event list) option" where
  "scan_run bucketfn [] v = Some (v, [])"
| "scan_run bucketfn (d # ds) v = do {
     (v', es) \<leftarrow> dictScan bucketfn d v;
     (v'', es') \<leftarrow> scan_run bucketfn ds v';
     Some (v'', es @ es') }"

section \<open>Bit reversal\<close>

definition swap_step :: "nat \<Rightarrow> u64 \<Rightarrow> u64 \<Rightarrow> u64" where
  "swap_step s m v = (drop_bit s v AND m) OR (push_bit s v AND NOT m)"

lemma rev_loop_step:
  "s0 div 2 = s \<Longrightarrow> 0 < s \<Longrightarrow> m XOR push_bit s m = m' \<Longrightarrow>
     rev_loop s0 m v = rev_loop s m' (swap_step s m' v)"
  by (subst rev_loop.simps) (simp add: swap_step_def)

lemma rev_masks:
  "(NOT 0 :: u64) XOR push_bit 32 (NOT 0) = 0x00000000FFFFFFFF"
  "(0x00000000FFFFFFFF :: u64) XOR push_bit 16 0x00000000FFFFFFFF = 0x0000FFFF0000FFFF"
  "(0x0000FFFF0000FFFF :: u64) XOR push_bit 8 0x0000FFFF0000FFFF = 0x00FF00FF00FF00FF"
  "(0x00FF00FF00FF00FF :: u64) XOR push_bit 4 0x00FF00FF00FF00FF = 0x0F0F0F0F0F0F0F0F"
  "(0x0F0F0F0F0F0F0F0F :: u64) XOR push_bit 2 0x0F0F0F0F0F0F0F0F = 0x3333333333333333"
  "(0x3333333333333333 :: u64) XOR push_bit 1 0x3333333333333333 = 0x5555555555555555"
  by code_simp+

lemma dict_rev_unfold:
  "dict_rev v = swap_step 1 0x5555555555555555 (swap_step 2 0x3333333333333333
     (swap_step 4 0x0F0F0F0F0F0F0F0F (swap_step 8 0x00FF00FF00FF00FF
       (swap_step 16 0x0000FFFF0000FFFF (swap_step 32 0x00000000FFFFFFFF v)))))"
  unfolding dict_rev_def
  apply (subst rev_loop_step [OF _ _ rev_masks(1)], simp, simp)
  apply (subst rev_loop_step [OF _ _ rev_masks(2)], simp, simp)
  apply (subst rev_loop_step [OF _ _ rev_masks(3)], simp, simp)
  apply (subst rev_loop_step [OF _ _ rev_masks(4)], simp, simp)
  apply (subst rev_loop_step [OF _ _ rev_masks(5)], simp, simp)
  apply (subst rev_loop_step [OF _ _ rev_masks(6)], simp, simp)
  apply (subst rev_loop.simps, simp)
  done

lemma bit_swap_step:
  "i < 64 \<Longrightarrow> bit (swap_step s m v) i =
     (if bit m i then i + s < 64 \<and> bit v (i + s) else s \<le> i \<and> bit v (i - s))"
  by (auto simp: swap_step_def bit_simps ac_simps dest: bit_imp_le_length)

lemma bit_dict_rev_all: "\<forall>i \<in> set [0..<64]. bit (dict_rev v) i = bit v (63 - i)"
  unfolding dict_rev_unfold
  by (simp add: bit_swap_step upt_conv_Cons numeral_2_eq_2 numeral_3_eq_3)

lemma bit_dict_rev: "bit (dict_rev v) i \<longleftrightarrow> i < 64 \<and> bit v (63 - i)"
  using bit_dict_rev_all [of v] bit_imp_le_length [of "dict_rev v" i] by auto

lemma dict_rev_dict_rev [simp]: "dict_rev (dict_rev v) = v"
  by (rule bit_word_eqI) (auto simp: bit_dict_rev)

text \<open>The position of a hash or cursor in scan order.\<close>

definition scan_pos :: "u64 \<Rightarrow> nat" where
  "scan_pos v = unat (dict_rev v)"

lemma scan_pos_less: "scan_pos v < 2 ^ 64"
  using unsigned_less [of "dict_rev v"] by (simp add: scan_pos_def)

lemma scan_pos_zero [simp]: "scan_pos 0 = 0"
proof -
  have "dict_rev 0 = 0" by (rule bit_word_eqI) (simp add: bit_dict_rev)
  then show ?thesis by (simp add: scan_pos_def)
qed

lemma scan_pos_eq_0: "scan_pos v = 0 \<longleftrightarrow> v = 0"
proof
  assume "scan_pos v = 0"
  then have "dict_rev v = 0" by (simp add: scan_pos_def unsigned_eq_0_iff)
  then have "dict_rev (dict_rev v) = dict_rev 0" by simp
  then show "v = 0" using scan_pos_zero by (simp add: scan_pos_def unsigned_eq_0_iff)
qed simp

lemma nat_or_mask: "(n::nat) OR mask k = n div 2 ^ k * 2 ^ k + (2 ^ k - 1)"
proof -
  have "n OR mask k = push_bit k (drop_bit k n) OR mask k"
    by (rule bit_eqI) (auto simp: bit_simps)
  also have "\<dots> = push_bit k (drop_bit k n) + mask k"
    by (rule disjunctive_add [symmetric]) (auto simp: bit_simps)
  finally show ?thesis by (simp add: push_bit_eq_mult drop_bit_eq_div mask_eq_exp_minus_1)
qed

lemma dict_rev_or_not_mask:
  "j \<le> 64 \<Longrightarrow> dict_rev (v OR NOT (mask j)) = dict_rev v OR mask (64 - j)"
  by (rule bit_word_eqI) (auto simp: bit_dict_rev bit_simps)

lemma unat_mask_u64: "k \<le> 64 \<Longrightarrow> unat (mask k :: u64) = mask k"
  by (rule bit_eqI) (auto simp: bit_simps)

text \<open>A step moves to the next multiple of the size of a bucket's interval.\<close>

lemma scan_pos_next:
  assumes "j \<le> 64"
  shows "scan_pos (next_cursor v (mask j)) =
    (scan_pos v div 2 ^ (64 - j) + 1) * 2 ^ (64 - j) mod 2 ^ 64"
proof -
  let ?x = "dict_rev v" and ?k = "64 - j"
  have "unat (?x OR mask ?k) = unat ?x div 2 ^ ?k * 2 ^ ?k + (2 ^ ?k - 1)"
    by (simp add: unsigned_or_eq unat_mask_u64 nat_or_mask)
  moreover have "(1::nat) \<le> 2 ^ ?k" by simp
  ultimately have "unat (?x OR mask ?k) + 1 = (unat ?x div 2 ^ ?k + 1) * 2 ^ ?k"
    by (simp add: algebra_simps)
  then show ?thesis
    by (simp add: scan_pos_def next_cursor_def dict_rev_or_not_mask [OF assms] unat_word_ariths)
qed

text \<open>Two hashes fall in the same bucket when their positions are in the same interval.\<close>

lemma same_bucket_pos:
  assumes "j \<le> 64"
  shows "h AND mask j = v AND mask j \<longleftrightarrow> scan_pos h div 2 ^ (64 - j) = scan_pos v div 2 ^ (64 - j)"
proof -
  have "h AND mask j = v AND mask j \<longleftrightarrow> (\<forall>i < j. bit h i = bit v i)"
  proof
    assume eq: "h AND mask j = v AND mask j"
    have "bit h i = bit v i" if "i < j" for i
      using arg_cong [OF eq, of "\<lambda>w. bit w i"] that assms by (simp add: bit_simps)
    then show "\<forall>i < j. bit h i = bit v i" by simp
  next
    assume R: "\<forall>i < j. bit h i = bit v i"
    show "h AND mask j = v AND mask j"
      by (rule bit_word_eqI) (use R in \<open>auto simp: bit_simps\<close>)
  qed
  also have "\<dots> \<longleftrightarrow> (\<forall>i < j. bit (dict_rev h) (64 - j + i) = bit (dict_rev v) (64 - j + i))"
  proof
    assume L: "\<forall>i < j. bit h i = bit v i"
    show "\<forall>i < j. bit (dict_rev h) (64 - j + i) = bit (dict_rev v) (64 - j + i)"
      using L assms by (auto simp: bit_dict_rev)
  next
    assume R: "\<forall>i < j. bit (dict_rev h) (64 - j + i) = bit (dict_rev v) (64 - j + i)"
    have "bit h i = bit v i" if "i < j" for i
      using R [rule_format, of "j - 1 - i"] that assms by (auto simp: bit_dict_rev)
    then show "\<forall>i < j. bit h i = bit v i" by simp
  qed
  also have "\<dots> \<longleftrightarrow> drop_bit (64 - j) (dict_rev h) = drop_bit (64 - j) (dict_rev v)"
  proof
    assume L: "\<forall>i < j. bit (dict_rev h) (64 - j + i) = bit (dict_rev v) (64 - j + i)"
    show "drop_bit (64 - j) (dict_rev h) = drop_bit (64 - j) (dict_rev v)"
    proof (rule bit_word_eqI)
      fix i
      show "bit (drop_bit (64 - j) (dict_rev h)) i = bit (drop_bit (64 - j) (dict_rev v)) i"
        using L [rule_format, of i] assms
        by (cases "i < j") (auto simp: bit_simps bit_dict_rev)
    qed
  next
    assume eq: "drop_bit (64 - j) (dict_rev h) = drop_bit (64 - j) (dict_rev v)"
    show "\<forall>i < j. bit (dict_rev h) (64 - j + i) = bit (dict_rev v) (64 - j + i)"
      using arg_cong [OF eq, of "\<lambda>w. bit w i" for i] by (simp add: bit_simps)
  qed
  also have "\<dots> \<longleftrightarrow> unat (drop_bit (64 - j) (dict_rev h)) = unat (drop_bit (64 - j) (dict_rev v))"
    by (rule word_eq_iff_unsigned)
  finally show ?thesis
    unfolding unat_drop_bit_eq scan_pos_def by (simp add: drop_bit_eq_div)
qed

lemma scan_pos_dvd:
  assumes "j \<le> 64"
  shows "2 ^ (64 - j) dvd scan_pos v \<longleftrightarrow> (\<forall>i. j \<le> i \<longrightarrow> \<not> bit v i)"
proof -
  have "2 ^ (64 - j) dvd scan_pos v \<longleftrightarrow> (\<forall>i < 64 - j. \<not> bit (dict_rev v) i)"
    by (simp add: scan_pos_def bit_eq_iff bit_simps flip: take_bit_eq_0_iff)
  also have "\<dots> \<longleftrightarrow> (\<forall>i. j \<le> i \<longrightarrow> \<not> bit v i)"
  proof
    assume L: "\<forall>i < 64 - j. \<not> bit (dict_rev v) i"
    show "\<forall>i. j \<le> i \<longrightarrow> \<not> bit v i"
    proof (intro allI impI notI)
      fix i assume i: "j \<le> i" "bit v i"
      then have "i < 64" using bit_imp_le_length [of v i] by simp
      with i(1) have "63 - i < 64 - j" "63 - (63 - i) = i" by auto
      with L i(2) show False by (auto simp: bit_dict_rev)
    qed
  next
    assume "\<forall>i. j \<le> i \<longrightarrow> \<not> bit v i"
    then show "\<forall>i < 64 - j. \<not> bit (dict_rev v) i" by (auto simp: bit_dict_rev)
  qed
  finally show ?thesis .
qed

text \<open>The test that ends the loop over the larger table.\<close>

lemma mask_diff_test:
  assumes "j0 \<le> j1" "j1 \<le> 64" "2 ^ (64 - j1) dvd scan_pos v"
  shows "v AND (mask j0 XOR mask j1) = 0 \<longleftrightarrow> 2 ^ (64 - j0) dvd scan_pos v"
proof -
  have "v AND (mask j0 XOR mask j1) = 0 \<longleftrightarrow> (\<forall>i. j0 \<le> i \<and> i < j1 \<longrightarrow> \<not> bit v i)"
  proof
    assume "v AND (mask j0 XOR mask j1) = 0"
    then have "\<not> bit (v AND (mask j0 XOR mask j1)) i" for i by simp
    then have "bit v i \<longrightarrow> i < 64 \<longrightarrow> (i < j0 \<longleftrightarrow> i < j1)" for i by (auto simp: bit_simps)
    then show "\<forall>i. j0 \<le> i \<and> i < j1 \<longrightarrow> \<not> bit v i"
      using assms(2) by (meson less_le_trans not_less)
  next
    assume R: "\<forall>i. j0 \<le> i \<and> i < j1 \<longrightarrow> \<not> bit v i"
    show "v AND (mask j0 XOR mask j1) = 0"
    proof (rule bit_word_eqI)
      fix i
      show "bit (v AND (mask j0 XOR mask j1)) i = bit 0 i"
        using R [rule_format, of i] assms(1) by (cases "j0 \<le> i") (auto simp: bit_simps)
    qed
  qed
  also have "\<dots> \<longleftrightarrow> (\<forall>i. j0 \<le> i \<longrightarrow> \<not> bit v i)"
    using assms scan_pos_dvd [of j1 v] by (meson not_less)
  finally show ?thesis using assms by (simp add: scan_pos_dvd)
qed

section \<open>What one call covers\<close>

text \<open>
  \<open>covers H ht es lo hi\<close>: every entry of the table whose hash lies in the interval has been
  reported.
\<close>

definition covers ::
  "('k \<Rightarrow> u64) \<Rightarrow> ('k, 'v) dictht \<Rightarrow> ('k, 'v) scan_event list \<Rightarrow> nat \<Rightarrow> nat \<Rightarrow> bool" where
  "covers H ht es lo hi \<longleftrightarrow>
     (\<forall>e \<in> set (ht_entries ht). lo \<le> scan_pos (H (de_key e)) \<and> scan_pos (H (de_key e)) < hi
        \<longrightarrow> EmitEntry e \<in> set es)"

text \<open>\<open>ht_bits j\<close>: a live table with \<open>2 ^ j\<close> buckets.\<close>

definition ht_bits :: "('k \<Rightarrow> u64) \<Rightarrow> ('k, 'v) dictht \<Rightarrow> nat \<Rightarrow> bool" where
  "ht_bits H ht j \<longleftrightarrow> ht_live H ht \<and> 2 \<le> j \<and> j \<le> 63 \<and> ht_size ht = 2 ^ j \<and> ht_sizemask ht = mask j"

lemma ht_live_bits: "ht_live H ht \<Longrightarrow> \<exists>j. ht_bits H ht j"
  by (auto simp: ht_bits_def ht_live_def)

lemma interval_div:
  "0 < (k::nat) \<Longrightarrow> p div k = q \<longleftrightarrow> q * k \<le> p \<and> p < (q + 1) * k"
  using div_nat_eqI [of k q p] dividend_less_div_times [of k p] div_times_less_eq_dividend [of p k]
  by (auto simp: algebra_simps)

lemma emit_bucket_covers:
  assumes "ht_bits H ht j"
  shows "\<exists>es. emit_bucket bucketfn t ht v = Some es \<and>
    covers H ht es (scan_pos v div 2 ^ (64 - j) * 2 ^ (64 - j)) ((scan_pos v div 2 ^ (64 - j) + 1) * 2 ^ (64 - j))
    \<and> (\<forall>e. EmitEntry e \<in> set es \<longrightarrow> e \<in> set (ht_entries ht))"
proof -
  from assms have live: "ht_live H ht" and j: "j \<le> 64" "ht_sizemask ht = mask j"
    by (auto simp: ht_bits_def)
  let ?i = "ht_idx ht v"
  have b: "bucket ht ?i = Some (ht_table ht ! ?i)" by (rule ht_live_bucket [OF live])
  have "e \<in> set (ht_table ht ! ?i)"
    if e: "e \<in> set (ht_entries ht)"
      "scan_pos v div 2 ^ (64 - j) * 2 ^ (64 - j) \<le> scan_pos (H (de_key e))"
      "scan_pos (H (de_key e)) < (scan_pos v div 2 ^ (64 - j) + 1) * 2 ^ (64 - j)" for e
  proof -
    have "scan_pos (H (de_key e)) div 2 ^ (64 - j) = scan_pos v div 2 ^ (64 - j)"
      using e(2,3) interval_div [of "2 ^ (64 - j)"] by simp
    then have "ht_idx ht (H (de_key e)) = ?i"
      using same_bucket_pos [OF j(1), of "H (de_key e)" v] j(2) by (simp add: ht_idx_def)
    moreover from e(1) obtain i where "i < length (ht_table ht)" "e \<in> set (ht_table ht ! i)"
      by (auto simp: in_ht_entries)
    ultimately show ?thesis using ht_live_entry_idx [OF live] by metis
  qed
  moreover have "set (ht_table ht ! ?i) \<subseteq> set (ht_entries ht)"
    using ht_entries_nth [of ?i ht] ht_live_idx [OF live] by blast
  ultimately show ?thesis
    using b by (auto simp: emit_bucket_def Let_def covers_def ht_idx_def)
qed

lemma covers_join:
  "covers H ht es lo mid \<Longrightarrow> covers H ht es' mid hi \<Longrightarrow> covers H ht (es @ es') lo hi"
  by (auto simp: covers_def) (metis not_le)

lemma covers_mono: "covers H ht es lo hi \<Longrightarrow> lo \<le> lo' \<Longrightarrow> hi' \<le> hi \<Longrightarrow> covers H ht (as @ es @ bs) lo' hi'"
  by (auto simp: covers_def)

text \<open>
  The loop over the larger table ends where the smaller table's interval ends, and covers
  everything in between. With \<open>c = j1 - j0\<close> the larger intervals are \<open>2 ^ c\<close> small ones.
\<close>

lemma scan_expand_covers:
  assumes bits: "ht_bits H ht j1" and j: "j0 \<le> j1"
    and q: "q = scan_pos v div 2 ^ (64 - j1)" and Q: "Q = (scan_pos v div 2 ^ (64 - j0) + 1) * 2 ^ (j1 - j0)"
  shows "\<exists>v' es. scan_expand bucketfn t ht (mask j0) (mask j1) v = Some (v', es)
    \<and> scan_pos v' = Q * 2 ^ (64 - j1) mod 2 ^ 64
    \<and> covers H ht es (q * 2 ^ (64 - j1)) (Q * 2 ^ (64 - j1))
    \<and> (\<forall>e. EmitEntry e \<in> set es \<longrightarrow> e \<in> set (ht_entries ht))"
  using q Q
proof (induction "Q - q" arbitrary: v q rule: less_induct)
  case less
  let ?k = "2 ^ (64 - j1) :: nat" and ?K = "2 ^ (64 - j0) :: nat" and ?c = "2 ^ (j1 - j0) :: nat"
  let ?v = "next_cursor v (mask j1)" and ?m = "scan_pos v div 2 ^ (64 - j0)"
  have j1: "j1 \<le> 63" using bits by (simp add: ht_bits_def)
  have K: "?K = ?k * ?c" and W: "(2::nat) ^ 64 = 2 ^ j1 * ?k" "(2::nat) ^ 64 = 2 ^ j0 * ?K"
    using j j1 by (simp_all flip: power_add)
  have m: "q div ?c = ?m" using less.prems(1) by (simp only: K div_mult2_eq)
  then have mq: "?m * ?c \<le> q" "q < Q"
    using interval_div [of ?c q ?m] less.prems(2) by simp_all
  from emit_bucket_covers [OF bits, of bucketfn t v] obtain es where
    es: "emit_bucket bucketfn t ht v = Some es" "covers H ht es (q * ?k) ((q + 1) * ?k)"
      "\<forall>e. EmitEntry e \<in> set es \<longrightarrow> e \<in> set (ht_entries ht)"
    using less.prems(1) by auto
  have pos: "scan_pos ?v = (q + 1) * ?k mod 2 ^ 64"
    using scan_pos_next [of j1 v] j1 less.prems(1) by simp
  have "?k dvd scan_pos ?v" unfolding pos W(1) by (intro dvd_mod) simp_all
  with j j1 have test: "?v AND (mask j0 XOR mask j1) = 0 \<longleftrightarrow> ?K dvd scan_pos ?v"
    by (intro mask_diff_test) auto
  show ?case
  proof (cases "q + 1 = Q")
    case True
    have "(q + 1) * ?k = (?m + 1) * (?c * ?k)" unfolding True less.prems(2) by (simp only: mult.assoc)
    then have "(q + 1) * ?k = (?m + 1) * ?K" using K by (simp only: mult.commute)
    then have "?K dvd scan_pos ?v" unfolding pos W(2) by (intro dvd_mod) simp_all
    then have "scan_expand bucketfn t ht (mask j0) (mask j1) v = Some (?v, es)"
      using es(1) test by (simp add: scan_expand.simps Let_def)
    with es pos True show ?thesis by auto
  next
    case False
    with mq have lt: "q + 1 < Q" by simp
    have "?m < 2 ^ j0" using scan_pos_less [of v] W(2) by (simp add: less_mult_imp_div_less)
    then have "Q \<le> 2 ^ j0 * ?c" unfolding less.prems(2) by (intro mult_right_mono) auto
    also have "\<dots> = 2 ^ j1" using j by (simp flip: power_add)
    finally have "q + 1 < 2 ^ j1" using lt by simp
    then have "(q + 1) * ?k < 2 ^ j1 * ?k" by (rule mult_strict_right_mono) simp
    then have pos': "scan_pos ?v = (q + 1) * ?k" using pos W(1) by simp
    have m': "(q + 1) div ?c = ?m"
      using mq(1) lt less.prems(2) interval_div [of ?c "q + 1" ?m] by simp
    then have same: "scan_pos ?v div ?K = ?m" unfolding pos' K div_mult2_eq by simp
    have "\<not> ?K dvd scan_pos ?v"
    proof
      assume "?K dvd scan_pos ?v"
      then have "?k * ?c dvd ?k * (q + 1)" unfolding pos' K by (simp only: mult.commute)
      then have "?c dvd q + 1" by (subst (asm) nat_mult_dvd_cancel1) simp_all
      then have "q + 1 = ?c * ((q + 1) div ?c)" by simp
      with m' mq(1) show False by (simp add: mult.commute)
    qed
    with test have ne: "?v AND (mask j0 XOR mask j1) \<noteq> 0" by simp
    have "Q - (q + 1) < Q - q" "q + 1 = scan_pos ?v div ?k" using lt by (auto simp: pos')
    from less.hyps [OF this] same less.prems(2) obtain v' es' where
      IH: "scan_expand bucketfn t ht (mask j0) (mask j1) ?v = Some (v', es')"
        "scan_pos v' = Q * ?k mod 2 ^ 64" "covers H ht es' ((q + 1) * ?k) (Q * ?k)"
        "\<forall>e. EmitEntry e \<in> set es' \<longrightarrow> e \<in> set (ht_entries ht)"
      by auto
    have "scan_expand bucketfn t ht (mask j0) (mask j1) v = Some (v', es @ es')"
      using es(1) ne IH(1) by (subst scan_expand.simps) (simp add: Let_def)
    moreover have "covers H ht (es @ es') (q * ?k) (Q * ?k)"
      by (rule covers_join [OF es(2) IH(3)])
    ultimately show ?thesis using IH(2,4) es(3) by auto
  qed
qed

text \<open>One call on a non-empty dictionary, in terms of the smaller table's \<open>2 ^ j\<close> buckets.\<close>

definition scan_bits :: "('k, 'v, 'p) dict \<Rightarrow> nat \<Rightarrow> bool" where
  "scan_bits d j \<longleftrightarrow> j \<le> 63 \<and>
     2 ^ j = (if dictIsRehashing d then min (ht_size (ht0 d)) (ht_size (ht1 d)) else ht_size (ht0 d))"

lemma scan_bits_total:
  assumes "scan_bits d j"
  shows "(2::nat) ^ j * 2 ^ (64 - j) = 2 ^ 64"
proof -
  have "j + (64 - j) = 64" using assms by (simp add: scan_bits_def)
  then show ?thesis by (metis power_add)
qed

lemma scan_bits_exists:
  assumes "dict_inv same d" "dictSize d \<noteq> 0"
  shows "\<exists>j. scan_bits d j"
proof -
  have "ht_live (hashFunction (d_type d)) (ht0 d)" "dictIsRehashing d \<Longrightarrow> ht_live (hashFunction (d_type d)) (ht1 d)"
    using assms by (auto simp: dict_inv_def rehash_inv_def dictSize_def split: if_splits)
  then show ?thesis
    using ht_live_bits [of "hashFunction (d_type d)" "ht0 d"] ht_live_bits [of "hashFunction (d_type d)" "ht1 d"]
    by (auto simp: scan_bits_def ht_bits_def min_def)
qed

lemma dictScan_covers:
  assumes inv: "dict_inv same d" and ne: "dictSize d \<noteq> 0" and bits: "scan_bits d j"
    and E: "E = (scan_pos v div 2 ^ (64 - j) + 1) * 2 ^ (64 - j)"
  shows "\<exists>v' es. dictScan bucketfn d v = Some (v', es) \<and> scan_pos v' = E mod 2 ^ 64
    \<and> (\<forall>e \<in> set (dict_entries d). scan_pos v \<le> scan_pos (hashFunction (d_type d) (de_key e))
          \<and> scan_pos (hashFunction (d_type d) (de_key e)) < E \<longrightarrow> EmitEntry e \<in> set es)
    \<and> (\<forall>e. EmitEntry e \<in> set es \<longrightarrow> e \<in> set (dict_entries d))"
proof -
  let ?H = "hashFunction (d_type d)"
  have lo: "scan_pos v div k * k \<le> scan_pos v" for k by simp
  show ?thesis
  proof (cases "dictIsRehashing d")
    case False
    with inv ne have "ht_live ?H (ht0 d)" "ht1 d = dictReset"
      by (auto simp: dict_inv_def dictSize_def)
    with bits False have b: "ht_bits ?H (ht0 d) j"
      using ht_live_bits [of ?H "ht0 d"] by (auto simp: ht_bits_def scan_bits_def)
    from emit_bucket_covers [OF b, where bucketfn = bucketfn and t = 0 and v = v] obtain es where
      es: "emit_bucket bucketfn 0 (ht0 d) v = Some es"
        "covers ?H (ht0 d) es (scan_pos v div 2 ^ (64 - j) * 2 ^ (64 - j)) E"
        "\<forall>e. EmitEntry e \<in> set es \<longrightarrow> e \<in> set (ht_entries (ht0 d))"
      unfolding E by auto
    have "scan_pos (next_cursor v (ht_sizemask (ht0 d))) = E mod 2 ^ 64"
      using b scan_pos_next [of j v] by (simp add: ht_bits_def E)
    with es ne False \<open>ht1 d = dictReset\<close> lo show ?thesis
      by (auto simp: dictScan_def dict_entries_def covers_def dest: le_trans [OF lo])
  next
    case True
    obtain n0 n1 :: nat where
      n: "(if ht_size (ht0 d) > ht_size (ht1 d) then (1, 0) else (0, 1)) = (n0, n1)"
      by (metis surj_pair)
    have live: "ht_live ?H (get_ht d n0)" "ht_live ?H (get_ht d n1)"
      using True inv n by (auto simp: dict_inv_def rehash_inv_def get_ht_def split: if_splits)
    then obtain j0 j1 where b: "ht_bits ?H (get_ht d n0) j0" "ht_bits ?H (get_ht d n1) j1"
      using ht_live_bits by metis
    have sz: "ht_size (get_ht d n0) \<le> ht_size (get_ht d n1)" "(2::nat) ^ j = ht_size (get_ht d n0)"
      using n True bits by (auto simp: get_ht_def scan_bits_def split: if_splits)
    with b have "(2::nat) ^ j0 \<le> 2 ^ j1" "(2::nat) ^ j = 2 ^ j0" by (auto simp: ht_bits_def)
    then have j: "j0 \<le> j1" "j = j0" by auto
    have j1: "j1 \<le> 63" using b(2) by (simp add: ht_bits_def)
    from emit_bucket_covers [OF b(1), where bucketfn = bucketfn and t = n0 and v = v] obtain es where
      es: "emit_bucket bucketfn n0 (get_ht d n0) v = Some es"
        "covers ?H (get_ht d n0) es (scan_pos v div 2 ^ (64 - j) * 2 ^ (64 - j)) E"
        "\<forall>e. EmitEntry e \<in> set es \<longrightarrow> e \<in> set (ht_entries (get_ht d n0))"
      unfolding E j by auto
    have EQ: "(scan_pos v div 2 ^ (64 - j0) + 1) * 2 ^ (j1 - j0) * 2 ^ (64 - j1) = E"
    proof -
      have "(2::nat) ^ (j1 - j0) * 2 ^ (64 - j1) = 2 ^ (64 - j0)" using j j1 by (simp flip: power_add)
      then show ?thesis by (simp only: E j mult.assoc)
    qed
    from scan_expand_covers [OF b(2) j(1) refl refl, where v = v and bucketfn = bucketfn and t = n1] obtain v' es' where
      ex: "scan_expand bucketfn n1 (get_ht d n1) (mask j0) (mask j1) v = Some (v', es')"
        "scan_pos v' = E mod 2 ^ 64"
        "covers ?H (get_ht d n1) es' (scan_pos v div 2 ^ (64 - j1) * 2 ^ (64 - j1)) E"
        "\<forall>e. EmitEntry e \<in> set es' \<longrightarrow> e \<in> set (ht_entries (get_ht d n1))"
      unfolding EQ by auto
    have "dictScan bucketfn d v = Some (v', es @ es')"
      using es(1) ex(1) ne True b
      by (simp add: dictScan_def Let_def n ht_bits_def)
    moreover have "set (dict_entries d) = set (ht_entries (get_ht d n0)) \<union> set (ht_entries (get_ht d n1))"
      using n by (auto simp: dict_entries_def get_ht_def split: if_splits)
    ultimately show ?thesis
      using ex(2-4) es(2,3) by (auto simp: covers_def dest: le_trans [OF lo])
  qed
qed

section \<open>Complete scans\<close>

text \<open>
  The position only grows until it wraps to zero, so a key that stays in the dictionary is
  passed by the call whose interval holds its hash.
\<close>

context dict_keys
begin

lemma scan_run_finds:
  assumes "\<forall>d \<in> set ds. dict_inv same d \<and> d_type d = T \<and> dict_abs same d k \<noteq> None"
    and "scan_run bucketfn ds v = Some (0, es)" and "v \<noteq> 0 \<or> ds \<noteq> []"
    and "scan_pos v \<le> scan_pos (hashFunction T k)"
  shows "\<exists>e. EmitEntry e \<in> set es \<and> same k (de_key e) \<and> (\<exists>d \<in> set ds. dict_abs same d k = Some (de_val e))"
  using assms
proof (induction ds arbitrary: v es)
  case (Cons d ds)
  let ?h = "scan_pos (hashFunction T k)"
  have inv: "dict_inv same d" "d_type d = T" using Cons.prems(1) by auto
  from Cons.prems(1) obtain e where e: "e \<in> set (dict_entries d)" "same k (de_key e)"
    by (auto simp: dict_abs_None)
  then have ne: "dictSize d \<noteq> 0" using dict_inv_used [OF inv(1)] by auto
  then obtain j where j: "scan_bits d j" using scan_bits_exists inv(1) by blast
  define E where "E = (scan_pos v div 2 ^ (64 - j) + 1) * 2 ^ (64 - j)"
  from dictScan_covers [OF inv(1) ne j E_def, where bucketfn = bucketfn] obtain v1 es1 where
    s: "dictScan bucketfn d v = Some (v1, es1)" "scan_pos v1 = E mod 2 ^ 64"
      "\<forall>e \<in> set (dict_entries d). scan_pos v \<le> scan_pos (hashFunction (d_type d) (de_key e))
          \<and> scan_pos (hashFunction (d_type d) (de_key e)) < E \<longrightarrow> EmitEntry e \<in> set es1"
    by blast
  with Cons.prems(2) obtain es2 where r: "scan_run bucketfn ds v1 = Some (0, es2)" "es = es1 @ es2"
    by (auto simp: bind_Some_iff split: prod.splits)
  have h: "hashFunction (d_type d) (de_key e) = hashFunction T k"
    using hash_same [OF e(2)] inv(2) by simp
  show ?case
  proof (cases "?h < E")
    case True
    with s(3) e(1) h Cons.prems(4) r(2) have "EmitEntry e \<in> set es" by auto
    moreover have "dict_abs same d k = Some (de_val e)"
      using e inv(1) by (auto simp: dict_abs_Some dict_inv_def)
    ultimately show ?thesis using e(2) by auto
  next
    case False
    then have "E < 2 ^ 64" using scan_pos_less [of "hashFunction T k"] by linarith
    with s(2) have v1: "scan_pos v1 = E" by simp
    moreover have "0 < E" by (simp add: E_def)
    ultimately have "v1 \<noteq> 0" using scan_pos_eq_0 by (metis less_irrefl)
    then show ?thesis
      using Cons.IH [of v1 es2] Cons.prems(1) r v1 False by fastforce
  qed
qed simp

end

text \<open>On an unchanging dictionary the cursor is back at zero after one call per bucket.\<close>

lemma scan_run_append:
  "scan_run bucketfn (as @ bs) v = do {
     (v', es) \<leftarrow> scan_run bucketfn as v;
     (v'', es') \<leftarrow> scan_run bucketfn bs v';
     Some (v'', es @ es') }"
  by (induction as arbitrary: v) (auto simp: bind_eq_None_conv split: prod.splits bind_splits)

lemma scan_run_static:
  assumes inv: "dict_inv same d" and ne: "dictSize d \<noteq> 0" and bits: "scan_bits d j" and n: "n \<le> 2 ^ j"
  shows "\<exists>v es. scan_run bucketfn (replicate n d) 0 = Some (v, es)
    \<and> scan_pos v = n * 2 ^ (64 - j) mod 2 ^ 64
    \<and> (\<forall>e \<in> set (dict_entries d). scan_pos (hashFunction (d_type d) (de_key e)) < n * 2 ^ (64 - j)
          \<longrightarrow> EmitEntry e \<in> set es)
    \<and> (\<forall>e. EmitEntry e \<in> set es \<longrightarrow> e \<in> set (dict_entries d))"
  using n
proof (induction n)
  case (Suc n)
  let ?k = "2 ^ (64 - j) :: nat"
  from Suc obtain v es where IH: "scan_run bucketfn (replicate n d) 0 = Some (v, es)"
    "scan_pos v = n * ?k mod 2 ^ 64"
    "\<forall>e \<in> set (dict_entries d). scan_pos (hashFunction (d_type d) (de_key e)) < n * ?k \<longrightarrow> EmitEntry e \<in> set es"
    "\<forall>e. EmitEntry e \<in> set es \<longrightarrow> e \<in> set (dict_entries d)"
    by auto
  have W: "(2::nat) ^ 64 = 2 ^ j * ?k" using scan_bits_total [OF bits] ..
  have "n * ?k < 2 ^ j * ?k" using Suc.prems by (intro mult_strict_right_mono) auto
  then have pos: "scan_pos v = n * ?k" unfolding IH(2) W by (rule mod_less)
  then have E: "Suc n * ?k = (scan_pos v div ?k + 1) * ?k" by simp
  from dictScan_covers [OF inv ne bits E, where bucketfn = bucketfn] obtain v1 es1 where
    s: "dictScan bucketfn d v = Some (v1, es1)" "scan_pos v1 = Suc n * ?k mod 2 ^ 64"
      "\<forall>e \<in> set (dict_entries d). scan_pos v \<le> scan_pos (hashFunction (d_type d) (de_key e))
          \<and> scan_pos (hashFunction (d_type d) (de_key e)) < Suc n * ?k \<longrightarrow> EmitEntry e \<in> set es1"
      "\<forall>e. EmitEntry e \<in> set es1 \<longrightarrow> e \<in> set (dict_entries d)"
    by blast
  have "scan_run bucketfn (replicate (Suc n) d) 0 = Some (v1, es @ es1)"
    using IH(1) s(1) by (simp only: replicate_Suc replicate_append_same [symmetric] scan_run_append) simp
  moreover have "EmitEntry e \<in> set (es @ es1)"
    if "e \<in> set (dict_entries d)" "scan_pos (hashFunction (d_type d) (de_key e)) < Suc n * ?k" for e
    using that IH(3) s(3) pos by (cases "scan_pos (hashFunction (d_type d) (de_key e)) < n * ?k") auto
  ultimately show ?case using s(2,4) IH(4) by auto
qed simp

lemma scan_run_static_complete:
  assumes inv: "dict_inv same d" and ne: "dictSize d \<noteq> 0" and bits: "scan_bits d j"
  shows "\<exists>es. scan_run bucketfn (replicate (2 ^ j) d) 0 = Some (0, es)
    \<and> {e. EmitEntry e \<in> set es} = set (dict_entries d)"
proof -
  from scan_run_static [OF assms order_refl, where bucketfn = bucketfn] obtain v es where
    r: "scan_run bucketfn (replicate (2 ^ j) d) 0 = Some (v, es)"
      "scan_pos v = 2 ^ j * 2 ^ (64 - j) mod 2 ^ 64"
      "\<forall>e \<in> set (dict_entries d). scan_pos (hashFunction (d_type d) (de_key e)) < 2 ^ j * 2 ^ (64 - j)
          \<longrightarrow> EmitEntry e \<in> set es"
      "\<forall>e. EmitEntry e \<in> set es \<longrightarrow> e \<in> set (dict_entries d)" by blast
  from scan_bits_total [OF bits] r(2,3) have "v = 0" "\<forall>e \<in> set (dict_entries d). EmitEntry e \<in> set es"
    using scan_pos_less scan_pos_eq_0 [of v] by simp_all
  with r show ?thesis by auto
qed

section \<open>Iteration visits every entry once\<close>

text \<open>The entries an iterator has still to return, and the buckets it has still to look at.\<close>

definition it_remaining :: "('k, 'v, 'p) dict \<Rightarrow> ('k, 'v) dictIterator \<Rightarrow> ('k, 'v) dictEntry list" where
  "it_remaining d it =
     (if it_entry it = [] then [] else it_nextEntry it)
     @ concat (drop (nat (it_index it + 1)) (ht_table (get_ht d (it_table it))))
     @ (if dictIsRehashing d \<and> it_table it = 0 then ht_entries (ht1 d) else [])"

definition it_buckets :: "('k, 'v, 'p) dict \<Rightarrow> ('k, 'v) dictIterator \<Rightarrow> nat" where
  "it_buckets d it =
     (if it_entry it = [] then 0 else 1)
     + (ht_size (get_ht d (it_table it)) - nat (it_index it + 1))
     + (if dictIsRehashing d \<and> it_table it = 0 then ht_size (ht1 d) else 0)"

definition it_wf :: "('k, 'v, 'p) dict \<Rightarrow> ('k, 'v) dictIterator \<Rightarrow> bool" where
  "it_wf d it \<longleftrightarrow> -1 \<le> it_index it \<and> (it_table it = 0 \<or> it_table it = 1 \<and> dictIsRehashing d)"

text \<open>Both tables have the size they claim; a property of every well-formed dictionary.\<close>

lemma dict_inv_sizes:
  "dict_inv same d \<Longrightarrow> ht_size (get_ht d t) = length (ht_table (get_ht d t))"
  using ht_live_size [of "hashFunction (d_type d)" "ht0 d"] ht_live_size [of "hashFunction (d_type d)" "ht1 d"]
  by (auto simp: dict_inv_def rehash_inv_def get_ht_def dictReset_def split: if_splits)

lemma dict_inv_ht1_pos: "dict_inv same d \<Longrightarrow> dictIsRehashing d \<Longrightarrow> 0 < ht_size (ht1 d)"
  using ht_live_size [of "hashFunction (d_type d)" "ht1 d"]
  by (auto simp: dict_inv_def rehash_inv_def)

text \<open>The only field of the dictionary an iterator touches does not matter for these.\<close>

lemma iterators_update [simp]:
  "dict_inv same (d\<lparr>iterators := n\<rparr>) = dict_inv same d"
  "get_ht (d\<lparr>iterators := n\<rparr>) t = get_ht d t"
  "dictIsRehashing (d\<lparr>iterators := n\<rparr>) = dictIsRehashing d"
  "it_remaining (d\<lparr>iterators := n\<rparr>) it = it_remaining d it"
  "it_buckets (d\<lparr>iterators := n\<rparr>) it = it_buckets d it"
  "it_wf (d\<lparr>iterators := n\<rparr>) it = it_wf d it"
  by (simp_all add: dict_inv_def rehash_inv_def dict_entries_def get_ht_def dictIsRehashing_def
      it_remaining_def it_buckets_def it_wf_def)

text \<open>A call returns the first remaining entry, or \<^verbatim>\<open>NULL\<close> when there is none.\<close>

definition next_post ::
  "('k, 'v, 'p) dict \<Rightarrow> ('k, 'v) dictIterator
     \<Rightarrow> (('k, 'v) dictEntry option \<times> ('k, 'v) dictIterator \<times> ('k, 'v, 'p) dict) option \<Rightarrow> bool" where
  "next_post d it r \<longleftrightarrow> (\<exists>it' n.
     r = Some (case it_remaining d it of [] \<Rightarrow> None | e # _ \<Rightarrow> Some e, it', d\<lparr>iterators := n\<rparr>)
     \<and> it_remaining d it' = tl (it_remaining d it) \<and> it_wf d it')"

lemma next_post_move:
  "next_post (d\<lparr>iterators := n\<rparr>) it1 r \<Longrightarrow> it_remaining d it1 = it_remaining d it
     \<Longrightarrow> next_post d it r"
  unfolding next_post_def by auto

lemma start_iteration_cases:
  obtains n fp' where "start_iteration d fp it = (it\<lparr>it_fingerprint := fp'\<rparr>, d\<lparr>iterators := n\<rparr>)"
proof -
  have "start_iteration d fp it = (it\<lparr>it_fingerprint := it_fingerprint it\<rparr>, d\<lparr>iterators := iterators d\<rparr>)
    \<or> start_iteration d fp it = (it\<lparr>it_fingerprint := it_fingerprint it\<rparr>, d\<lparr>iterators := iterators d + 1\<rparr>)
    \<or> start_iteration d fp it = (it\<lparr>it_fingerprint := fp\<rparr>, d\<lparr>iterators := iterators d\<rparr>)"
    by (simp add: start_iteration_def)
  with that show ?thesis by blast
qed

lemma next_post_found:
  "it_wf d jt \<Longrightarrow> it_remaining d it = e # it_remaining d jt
     \<Longrightarrow> next_post d it (Some (Some e, jt, d\<lparr>iterators := n\<rparr>))"
  by (auto simp: next_post_def)

text \<open>Moving the iterator to the chain of bucket \<open>i\<close> of table \<open>t\<close>.\<close>

lemma next_post_enter:
  assumes b: "i < ht_size (get_ht d t)" "b = ht_table (get_ht d t) ! i"
    and sz: "ht_size (get_ht d t) = length (ht_table (get_ht d t))"
    and jt: "it_index jt = int i" "it_table jt = t" "it_entry jt = b" "it_wf d jt"
    and old: "it_remaining d it = concat (drop i (ht_table (get_ht d t)))
       @ (if dictIsRehashing d \<and> t = 0 then ht_entries (ht1 d) else [])"
      "ht_size (get_ht d t) - i + (if dictIsRehashing d \<and> t = 0 then ht_size (ht1 d) else 0) \<le> it_buckets d it"
    and again: "it_remaining d jt = it_remaining d it \<Longrightarrow> it_buckets d jt < it_buckets d it \<Longrightarrow> next_post d it r"
  shows "next_post d it (case b of e # rest \<Rightarrow> Some (Some e, jt\<lparr>it_nextEntry := rest\<rparr>, d\<lparr>iterators := n\<rparr>)
           | [] \<Rightarrow> r)"
proof -
  have i: "nat (int i + 1) = Suc i" by simp
  have c: "concat (drop i (ht_table (get_ht d t))) = b @ concat (drop (Suc i) (ht_table (get_ht d t)))"
    using b sz by (simp add: Cons_nth_drop_Suc [symmetric])
  show ?thesis
  proof (cases b)
    case Nil
    with i c b jt old have "it_remaining d jt = it_remaining d it" "it_buckets d jt < it_buckets d it"
      by (auto simp: it_remaining_def it_buckets_def)
    with again Nil show ?thesis by simp
  next
    case (Cons e rest)
    let ?jt = "jt\<lparr>it_nextEntry := rest\<rparr>"
    from Cons i c b jt old have "it_remaining d it = e # it_remaining d ?jt"
      by (auto simp: it_remaining_def it_buckets_def)
    moreover have "it_wf d ?jt" using jt(4) by (simp add: it_wf_def)
    ultimately show ?thesis using Cons next_post_found by simp
  qed
qed

lemma dictNext_post:
  assumes "dict_inv same d" "it_wf d it" "it_buckets d it < fuel"
  shows "next_post d it (dictNext fuel fp it d)"
  using assms
proof (induction fuel arbitrary: it d)
  case (Suc fuel)
  let ?t = "it_table it"
  note sz = dict_inv_sizes [OF Suc.prems(1)]
  from Suc.prems(2) obtain i where idx [simp]: "it_index it + 1 = int i"
    using nonneg_int_cases [of "it_index it + 1"] by (auto simp: it_wf_def)
  have IH: "next_post d it (dictNext fuel fp jt (d\<lparr>iterators := n\<rparr>))"
    if "it_wf d jt" "it_remaining d jt = it_remaining d it" "it_buckets d jt < it_buckets d it" for jt n
    using that Suc.prems by (intro next_post_move [OF Suc.IH]) auto
  show ?case
  proof (cases "it_entry it = []")
    case True
    obtain n f where st: "start_iteration d (fp d) it = (it\<lparr>it_fingerprint := f\<rparr>, d\<lparr>iterators := n\<rparr>)"
      by (rule start_iteration_cases)
    consider (inside) "i < ht_size (get_ht d ?t)"
      | (switch) "\<not> i < ht_size (get_ht d ?t)" "dictIsRehashing d" "?t = 0"
      | (stop) "\<not> i < ht_size (get_ht d ?t)" "\<not> (dictIsRehashing d \<and> ?t = 0)" by argo
    then show ?thesis
    proof cases
      case inside
      let ?jt = "it\<lparr>it_fingerprint := f, it_index := int i, it_entry := ht_table (get_ht d ?t) ! i\<rparr>"
      have wf: "it_wf d ?jt" using Suc.prems(2) by (auto simp: it_wf_def)
      have "next_post d it (case ht_table (get_ht d ?t) ! i of
            e # rest \<Rightarrow> Some (Some e, ?jt\<lparr>it_nextEntry := rest\<rparr>, d\<lparr>iterators := n\<rparr>)
          | [] \<Rightarrow> dictNext fuel fp ?jt (d\<lparr>iterators := n\<rparr>))"
        by (rule next_post_enter [OF inside refl sz _ _ _ wf _ _ IH [OF wf]])
          (assumption | use True in \<open>simp add: it_remaining_def it_buckets_def\<close>)+
      then show ?thesis using True st inside sz by (simp add: Let_def bucket_def)
    next
      case switch
      let ?jt = "it\<lparr>it_fingerprint := f, it_table := 1, it_index := 0, it_entry := ht_table (ht1 d) ! 0\<rparr>"
      have wf: "it_wf d ?jt" using switch by (auto simp: it_wf_def)
      have ne: "0 < ht_size (get_ht d 1)"
        using dict_inv_ht1_pos [OF Suc.prems(1) switch(2)] by (simp add: get_ht_def)
      have "next_post d it (case ht_table (ht1 d) ! 0 of
            e # rest \<Rightarrow> Some (Some e, ?jt\<lparr>it_nextEntry := rest\<rparr>, d\<lparr>iterators := n\<rparr>)
          | [] \<Rightarrow> dictNext fuel fp ?jt (d\<lparr>iterators := n\<rparr>))"
        by (rule next_post_enter [OF ne _ sz _ _ _ wf _ _ IH [OF wf]])
          (assumption | use True switch sz [of 0] sz [of 1] in \<open>simp add: it_remaining_def it_buckets_def get_ht_def ht_entries_def\<close>)+
      then show ?thesis
        using True st switch sz [of 1] ne by (simp add: Let_def bucket_def get_ht_def dictIsRehashing_def del: One_nat_def)
    next
      case stop
      with True sz Suc.prems(2) have "it_remaining d it = []"
        "it_remaining d (it\<lparr>it_fingerprint := f, it_index := int i\<rparr>) = []"
        by (auto simp: it_remaining_def)
      with True st stop sz Suc.prems(2) show ?thesis
        by (auto simp: Let_def next_post_def it_wf_def it_buckets_def)
    qed
  next
    case False
    let ?jt = "it\<lparr>it_entry := it_nextEntry it\<rparr>"
    have wf: "it_wf d ?jt" "it_wf d (?jt\<lparr>it_nextEntry := rest\<rparr>)" for rest
      using Suc.prems(2) by (simp_all add: it_wf_def)
    show ?thesis
    proof (cases "it_nextEntry it")
      case Nil
      with False have "it_remaining d ?jt = it_remaining d it" "it_buckets d ?jt < it_buckets d it"
        by (simp_all add: it_remaining_def it_buckets_def)
      with IH [OF wf(1), of "iterators d"] Nil False show ?thesis by simp
    next
      case (Cons e rest)
      with False have "it_remaining d it = e # it_remaining d (?jt\<lparr>it_nextEntry := rest\<rparr>)"
        by (simp add: it_remaining_def)
      with next_post_found [OF wf(2), of it e rest "iterators d"] Cons False show ?thesis by simp
    qed
  qed
qed simp

lemma it_buckets_bound: "it_buckets d it \<le> 1 + ht_size (ht0 d) + ht_size (ht1 d)"
  by (auto simp: it_buckets_def get_ht_def)

text \<open>
  The loop \<^verbatim>\<open>while ((de = dictNext(di)) != NULL)\<close> of the callers, with a bound on its rounds.
\<close>

fun iterate ::
  "nat \<Rightarrow> nat \<Rightarrow> (('k, 'v, 'p) dict \<Rightarrow> u64) \<Rightarrow> ('k, 'v) dictIterator \<Rightarrow> ('k, 'v, 'p) dict
     \<Rightarrow> (('k, 'v) dictEntry list \<times> ('k, 'v) dictIterator \<times> ('k, 'v, 'p) dict) option" where
  "iterate 0 fuel fp it d = None"
| "iterate (Suc n) fuel fp it d = do {
     (r, it1, d1) \<leftarrow> dictNext fuel fp it d;
     (case r of
        None \<Rightarrow> Some ([], it1, d1)
      | Some e \<Rightarrow> do { (es, it2, d2) \<leftarrow> iterate n fuel fp it1 d1; Some (e # es, it2, d2) }) }"

lemma iterate_remaining:
  assumes "dict_inv same d" "it_wf d it" "1 + ht_size (ht0 d) + ht_size (ht1 d) < fuel"
    "length (it_remaining d it) < n"
  shows "\<exists>it' m. iterate n fuel fp it d = Some (it_remaining d it, it', d\<lparr>iterators := m\<rparr>)"
  using assms
proof (induction n arbitrary: it d)
  case (Suc n)
  have "it_buckets d it < fuel" using it_buckets_bound [of d it] Suc.prems(3) by simp
  then have "next_post d it (dictNext fuel fp it d)"
    using dictNext_post Suc.prems by blast
  then obtain it1 m where nx: "dictNext fuel fp it d
      = Some (case it_remaining d it of [] \<Rightarrow> None | e # _ \<Rightarrow> Some e, it1, d\<lparr>iterators := m\<rparr>)"
    "it_remaining d it1 = tl (it_remaining d it)" "it_wf d it1"
    by (auto simp: next_post_def)
  show ?case
  proof (cases "it_remaining d it")
    case Nil
    with nx(1) show ?thesis by auto
  next
    case (Cons e es)
    with Suc.IH [of "d\<lparr>iterators := m\<rparr>" it1] Suc.prems nx obtain it2 m2 where
      "iterate n fuel fp it1 (d\<lparr>iterators := m\<rparr>) = Some (es, it2, d\<lparr>iterators := m2\<rparr>)" by auto
    with nx(1) Cons show ?thesis by auto
  qed
qed simp

lemma it_remaining_start:
  assumes "dict_inv same d"
  shows "it_wf d dictGetIterator" "it_wf d dictGetSafeIterator"
    "it_remaining d dictGetIterator = dict_entries d" "it_remaining d dictGetSafeIterator = dict_entries d"
  using assms
  by (auto simp: it_wf_def it_remaining_def dictGetIterator_def dictGetSafeIterator_def dict_entries_def
      ht_entries_def get_ht_def dict_inv_def dictReset_def)

lemma iterate_all:
  assumes "dict_inv same d" "1 + ht_size (ht0 d) + ht_size (ht1 d) < fuel" "dictSize d < n"
    "it \<in> {dictGetIterator, dictGetSafeIterator}"
  shows "\<exists>it' m. iterate n fuel fp it d = Some (dict_entries d, it', d\<lparr>iterators := m\<rparr>)"
  using iterate_remaining [OF assms(1), of it fuel n] it_remaining_start [OF assms(1)] assms
    dict_inv_used [OF assms(1)] by auto

end
