(* ===== verification/Dict_Sample.thy ===== *)
theory Dict_Sample
  imports Dict_Scan
begin

text \<open>
  Random access to a dictionary: whatever \<^verbatim>\<open>random()\<close> returns, the bucket accesses of
  \<^verbatim>\<open>dictGetRandomKey\<close> and \<^verbatim>\<open>dictGetSomeKeys\<close> are in range and only entries of the
  dictionary come back, at most as many as asked for.
\<close>

section \<open>One random entry\<close>

lemma bucket_in_range:
  "dict_inv same d \<Longrightarrow> i < ht_size (get_ht d t) \<Longrightarrow>
     bucket (get_ht d t) i = Some (ht_table (get_ht d t) ! i) \<and> set (ht_table (get_ht d t) ! i) \<subseteq> set (dict_entries d)"
  using dict_inv_sizes [of same d t] ht_entries_nth [of i "get_ht d t"]
  by (auto simp: bucket_def dict_entries_def get_ht_def split: if_splits)

lemmas bucket_in_ht0 = bucket_in_range [where t = 0, unfolded get_ht_def, simplified]
  and bucket_in_ht1 = bucket_in_range [where t = 1, unfolded get_ht_def, simplified]

text \<open>The bucket the \<open>n\<close>-th random number selects.\<close>

definition random_pick :: "nat \<Rightarrow> ('k, 'v, 'p) dict \<Rightarrow> ('k, 'v) chain" where
  "random_pick r d =
     (if dictIsRehashing d then
        let s0 = ht_size (ht0 d); h = nat (rehashidx d) + r mod (s0 + ht_size (ht1 d) - nat (rehashidx d))
        in if h \<ge> s0 then ht_table (ht1 d) ! (h - s0) else ht_table (ht0 d) ! h
      else ht_table (ht0 d) ! ht_idx (ht0 d) (of_nat r))"

lemma random_pick_bucket:
  assumes inv: "dict_inv same d" and ne: "dictSize d \<noteq> 0"
  shows "(if dictIsRehashing d then
          let s0 = ht_size (ht0 d);
              h = nat (rehashidx d) + r mod (s0 + ht_size (ht1 d) - nat (rehashidx d))
          in if h \<ge> s0 then bucket (ht1 d) (h - s0) else bucket (ht0 d) h
        else bucket (ht0 d) (ht_idx (ht0 d) (of_nat r))) = Some (random_pick r d)
      \<and> set (random_pick r d) \<subseteq> set (dict_entries d)"
proof (cases "dictIsRehashing d")
  case True
  let ?s0 = "ht_size (ht0 d)" and ?s1 = "ht_size (ht1 d)" and ?x = "nat (rehashidx d)"
  define h where "h = ?x + r mod (?s0 + ?s1 - ?x)"
  have "?x \<le> ?s0" "0 < ?s1"
    using True inv dict_inv_ht1_pos [OF inv] by (auto simp: dict_inv_def rehash_inv_def)
  then have "h < ?s0 + ?s1"
    using mod_less_divisor [of "?s0 + ?s1 - ?x" r] unfolding h_def by linarith
  then show ?thesis
    using True bucket_in_ht0 [OF inv, of h] bucket_in_ht1 [OF inv, of "h - ?s0"]
    by (simp add: random_pick_def Let_def flip: h_def)
next
  case False
  then have live: "ht_live (hashFunction (d_type d)) (ht0 d)"
    using inv ne by (auto simp: dict_inv_def dictSize_def)
  then show ?thesis
    using False ht_live_bucket [OF live] ht_entries_nth [OF ht_live_idx [OF live]]
    by (auto simp: random_pick_def dict_entries_def)
qed

lemma random_bucket_step:
  assumes "dict_inv same d" "dictSize d \<noteq> 0"
  shows "random_bucket (Suc fuel) rnd n d =
      (if random_pick (rnd n) d = [] then random_bucket fuel rnd (Suc n) d
       else Some (random_pick (rnd n) d, Suc n))"
  using random_pick_bucket [OF assms, of "rnd n"] by (simp only: random_bucket.simps) simp

lemmas random_pick_sub = random_pick_bucket [THEN conjunct2]

text \<open>The loop ends as soon as the generator selects a bucket that is not empty.\<close>

lemma random_bucket_total:
  assumes inv: "dict_inv same d" "dictSize d \<noteq> 0" and hit: "random_pick (rnd (n + m)) d \<noteq> []" "m < fuel"
  shows "\<exists>he n'. random_bucket fuel rnd n d = Some (he, n') \<and> he \<noteq> [] \<and> set he \<subseteq> set (dict_entries d)"
  using hit
proof (induction m arbitrary: n fuel)
  case 0
  then obtain g where "fuel = Suc g" by (cases fuel) auto
  with 0 random_bucket_step [OF inv] random_pick_sub [OF inv] show ?case by auto
next
  case (Suc m)
  then obtain g where g: "fuel = Suc g" "m < g" by (cases fuel) auto
  show ?case
  proof (cases "random_pick (rnd n) d = []")
    case True
    with g Suc.prems Suc.IH [of "Suc n" g] random_bucket_step [OF inv] show ?thesis by auto
  next
    case False
    with g random_bucket_step [OF inv] random_pick_sub [OF inv] show ?thesis by auto
  qed
qed

context dict_keys
begin

lemma rehash_times_inv:
  assumes "dict_inv same d" "d_type d = T"
  shows "\<exists>d'. rehash_times n d = Some d' \<and> dict_inv same d' \<and> same_content d d'"
  using assms
proof (induction n arbitrary: d)
  case (Suc n)
  show ?case
  proof (cases "dictIsRehashing d")
    case True
    from rehash_step_if_inv [OF Suc.prems] True obtain d1 where
      1: "dictRehashStep d = Some d1" "dict_inv same d1" "same_content d d1"
      by (auto simp: rehash_step_if_def)
    then have "d_type d1 = T" using Suc.prems(2) by (simp add: same_content_def)
    with Suc.IH [of d1] 1 True show ?thesis by (auto intro: same_content_trans)
  qed (use Suc.prems in auto)
qed simp

lemma dictGetRandomKey_entry:
  assumes inv: "dict_inv same d" "d_type d = T" and ne: "dictSize d \<noteq> 0"
    and step: "rehash_step_if d = Some d1" and hit: "random_pick (rnd (n + m)) d1 \<noteq> []" "m < fuel"
  shows "\<exists>e n'. dictGetRandomKey fuel rnd n d = Some (Some e, n', d1) \<and> e \<in> set (dict_entries d)"
proof -
  from rehash_step_if_inv [OF inv] step have 1: "dict_inv same d1" "same_content d d1" by auto
  have sets: "set (dict_entries d1) = set (dict_entries d)"
    using 1(2) unfolding same_content_def by (metis set_mset_mset)
  have "dictSize d1 \<noteq> 0"
    using ne dict_inv_used [OF inv(1)] dict_inv_used [OF 1(1)] sets by auto
  from random_bucket_total [where rnd = rnd and n = n, OF 1(1) this hit] obtain he n1 where
    "random_bucket fuel rnd n d1 = Some (he, n1)" "he \<noteq> []" "set he \<subseteq> set (dict_entries d1)" by blast
  moreover from this have "he ! (rnd n1 mod length he) \<in> set (dict_entries d)"
    using sets by (metis length_greater_0_conv mod_less_divisor nth_mem subsetD)
  ultimately show ?thesis using ne step by (simp add: dictGetRandomKey_def Let_def)
qed

end

section \<open>Several entries\<close>

definition sample_ok :: "('k, 'v, 'p) dict \<Rightarrow> nat \<Rightarrow> ('k, 'v) sample \<Rightarrow> bool" where
  "sample_ok d cnt s \<longleftrightarrow> length (sm_stored s) \<le> cnt \<and> set (sm_stored s) \<subseteq> set (dict_entries d)"

lemma sample_bucket_ok:
  assumes inv: "dict_inv same d" and s: "sample_ok d cnt s"
  shows "\<exists>s'. sample_bucket rnd cnt msk (get_ht d j) s = Some s' \<and> sample_ok d cnt s'"
proof (cases "sm_i s < ht_size (get_ht d j)")
  case True
  let ?b = "ht_table (get_ht d j) ! sm_i s"
  have "set (take k ?b) \<subseteq> set (dict_entries d)" for k
    using bucket_in_range [OF inv True] set_take_subset [of k ?b] by blast
  then show ?thesis
    using True s bucket_in_range [OF inv True] by (auto simp: sample_bucket_def sample_ok_def Let_def min_def)
qed (use s in \<open>simp add: sample_bucket_def\<close>)

lemma sample_table_ok:
  assumes "dict_inv same d" "sample_ok d cnt s"
  shows "\<exists>s'. sample_table rnd cnt msk tables d j s = Some s' \<and> sample_ok d cnt s'"
  using assms sample_bucket_ok [of same d cnt "s\<lparr>sm_i := nat (rehashidx d)\<rparr>"] sample_bucket_ok [of same d cnt s]
  by (simp add: sample_table_def sample_ok_def)

lemma sample_loop_ok:
  assumes "dict_inv same d" "sample_ok d cnt s"
  shows "\<exists>s'. sample_loop maxsteps rnd cnt msk tables d s = Some s' \<and> sample_ok d cnt s'"
  using assms(2)
proof (induction maxsteps arbitrary: s)
  case (Suc maxsteps)
  obtain s1 where 1: "sample_table rnd cnt msk tables d 0 s = Some s1" "sample_ok d cnt s1"
    using sample_table_ok [OF assms(1) Suc.prems] by blast
  obtain s2 where 2: "sample_table rnd cnt msk tables d 1 s1 = Some s2" "sample_ok d cnt s2"
    using sample_table_ok [OF assms(1) 1(2)] by blast
  have "sample_ok d cnt (t\<lparr>sm_i := i\<rparr>) = sample_ok d cnt t" for t i by (simp add: sample_ok_def)
  with 1 2 Suc.IH Suc.prems show ?case by auto
qed simp

context dict_keys
begin

lemma dictGetSomeKeys_entries:
  assumes "dict_inv same d" "d_type d = T"
  shows "\<exists>es n' d'. dictGetSomeKeys rnd n d cnt = Some (es, n', d') \<and> length es \<le> cnt \<and> length es \<le> dictSize d
    \<and> set es \<subseteq> set (dict_entries d) \<and> dict_inv same d' \<and> same_content d d'"
proof -
  let ?c = "min cnt (dictSize d)"
  from rehash_times_inv [OF assms, of ?c] obtain d1 where
    1: "rehash_times ?c d = Some d1" "dict_inv same d1" "same_content d d1" by blast
  have sets: "set (dict_entries d1) = set (dict_entries d)"
    using 1(3) unfolding same_content_def by (metis set_mset_mset)
  define tables :: nat where "tables = (if dictIsRehashing d1 then 2 else 1)"
  define msk where "msk = (if tables > 1 \<and> ht_sizemask (ht0 d1) < ht_sizemask (ht1 d1)
                        then ht_sizemask (ht1 d1) else ht_sizemask (ht0 d1))"
  let ?s = "\<lparr>sm_i = unat (of_nat (rnd n) AND msk), sm_empty = 0, sm_stored = [], sm_rnd = Suc n\<rparr>"
  have "sample_ok d1 ?c ?s" by (simp add: sample_ok_def)
  from sample_loop_ok [OF 1(2) this] obtain s' where
    s': "sample_loop (?c * 10 mod 2 ^ 32) rnd ?c msk tables d1 ?s = Some s'" "sample_ok d1 ?c s'" by blast
  then have "dictGetSomeKeys rnd n d cnt = Some (sm_stored s', sm_rnd s', d1)"
    by (simp only: dictGetSomeKeys_def Let_def 1(1) Option.bind.simps flip: tables_def msk_def)
  then show ?thesis using 1 s'(2) sets by (simp add: sample_ok_def)
qed

end

end
