(* ===== verification/Dict_Maint.thy ===== *)
theory Dict_Maint
  imports Dict_Map
begin

text \<open>
  Maintenance of a dictionary: clearing and releasing (every key and value is freed exactly
  once), the time-bounded rehashing of the server's cron, and shrinking.
\<close>

section \<open>Clearing\<close>

definition free_effect :: "('k, 'v, 'p) dictType \<Rightarrow> ('k, 'v) dictEntry \<Rightarrow> 'p \<Rightarrow> 'p" where
  "free_effect T e p =
     (let p = (case keyDestructor T of Some f \<Rightarrow> f p (de_key e) | None \<Rightarrow> p)
      in case valDestructor T of Some f \<Rightarrow> f p (de_val e) | None \<Rightarrow> p)"

lemma free_entry_effect:
  "free_entry d e = d\<lparr>privdata := free_effect (d_type d) e (privdata d)\<rparr>"
  by (simp add: free_entry_def free_effect_def dictFreeVal_def dictFreeKey_def Let_def split: option.splits)

lemma clear_chain_effect:
  "clear_chain b used d = (used - length b, d\<lparr>privdata := fold (free_effect (d_type d)) b (privdata d)\<rparr>)"
  by (induction b used d rule: clear_chain.induct) (simp_all add: free_entry_effect)

text \<open>The loop stops early when the counter reaches zero, which is when no entry is left.\<close>

lemma clear_loop_effect:
  assumes "ht_size ht = length (ht_table ht)" "used = length (concat (drop i (ht_table ht)))"
  shows "clear_loop None ht i used d
    = Some (d\<lparr>privdata := fold (free_effect (d_type d)) (concat (drop i (ht_table ht))) (privdata d)\<rparr>)"
  using assms
proof (induction "ht_size ht - i" arbitrary: i used d)
  case 0
  then show ?case by (subst clear_loop.simps) simp
next
  case (Suc n)
  let ?b = "ht_table ht ! i"
  have i: "i < length (ht_table ht)" using Suc.hyps(2) Suc.prems(1) by simp
  then have split: "concat (drop i (ht_table ht)) = ?b @ concat (drop (Suc i) (ht_table ht))"
    by (simp add: Cons_nth_drop_Suc [symmetric])
  show ?case
  proof (cases "used = 0")
    case True
    with Suc.prems(2) have "concat (drop i (ht_table ht)) = []" by (metis length_0_conv)
    with True show ?thesis by (subst clear_loop.simps) (simp del: concat_eq_Nil_conv)
  next
    case False
    have "n = ht_size ht - Suc i" using Suc.hyps(2) by simp
    from Suc.hyps(1) [OF this Suc.prems(1) refl] show ?thesis
      using False i Suc.prems split
      by (subst clear_loop.simps) (simp add: Let_def bucket_def clear_chain_effect)
  qed
qed

lemma clear_loop_total:
  assumes "ht_size ht = length (ht_table ht)"
  shows "\<exists>p. clear_loop callback ht i used d = Some (d\<lparr>privdata := p\<rparr>)"
  using assms
proof (induction "ht_size ht - i" arbitrary: i used d)
  case 0
  have "d = d\<lparr>privdata := privdata d\<rparr>" by simp
  with 0 show ?case by (subst clear_loop.simps) (auto intro: exI [of _ "privdata d"])
next
  case (Suc n)
  have n: "n = ht_size ht - (i + 1)" and i: "i < length (ht_table ht)"
    using Suc.hyps(2) Suc.prems(1) by simp_all
  have "\<exists>p. clear_loop callback ht (i + 1) u (d\<lparr>privdata := q\<rparr>) = Some (d\<lparr>privdata := p\<rparr>)" for u q
    using Suc.hyps(1) [OF n Suc.prems, of u "d\<lparr>privdata := q\<rparr>"] by simp
  moreover have "d = d\<lparr>privdata := privdata d\<rparr>" by simp
  ultimately show ?case
    using i Suc.prems
    by (subst clear_loop.simps) (auto simp: Let_def bucket_def clear_chain_effect split: option.split intro: exI [of _ "privdata d"])
qed

lemma dict_inv_table_sizes:
  "dict_inv same d \<Longrightarrow> ht_size (ht0 d) = length (ht_table (ht0 d)) \<and> ht_size (ht1 d) = length (ht_table (ht1 d))
     \<and> ht_used (ht0 d) = length (ht_entries (ht0 d)) \<and> ht_used (ht1 d) = length (ht_entries (ht1 d))"
  using ht_live_size [of "hashFunction (d_type d)" "ht0 d"] ht_live_size [of "hashFunction (d_type d)" "ht1 d"]
    ht_live_used [of "hashFunction (d_type d)" "ht0 d"] ht_live_used [of "hashFunction (d_type d)" "ht1 d"]
  by (auto simp: dict_inv_def rehash_inv_def dictReset_def ht_entries_def split: if_splits)

lemma uniq_keys_Nil [simp]: "uniq_keys same []"
  by (simp add: uniq_keys_def)

lemma dictEmpty_spec:
  assumes "dict_inv same d"
  shows "\<exists>d'. dictEmpty d callback = Some d' \<and> dict_inv same d' \<and> dict_entries d' = [] \<and> dictSize d' = 0
    \<and> d_type d' = d_type d \<and> iterators d' = 0 \<and> \<not> dictIsRehashing d'"
proof -
  note sz = dict_inv_table_sizes [OF assms]
  obtain p where 1: "clear_loop callback (ht0 d) 0 (ht_used (ht0 d)) d = Some (d\<lparr>privdata := p\<rparr>)"
    using clear_loop_total [of "ht0 d" callback 0 "ht_used (ht0 d)" d] sz by auto
  obtain q where 2: "clear_loop callback (ht1 d) 0 (ht_used (ht1 d)) (d\<lparr>privdata := p, ht0 := dictReset\<rparr>)
      = Some (d\<lparr>ht0 := dictReset, privdata := q\<rparr>)"
    using clear_loop_total [of "ht1 d" callback 0 "ht_used (ht1 d)" "d\<lparr>privdata := p, ht0 := dictReset\<rparr>"] sz by auto
  show ?thesis
    using 1 2 by (simp add: dictEmpty_def dictClear_def get_ht_def put_ht_def dict_inv_def dict_entries_def
        dictSize_def dictIsRehashing_def)
qed

text \<open>Releasing frees the entries of both tables in order, each once.\<close>

lemma dictRelease_spec:
  fixes d :: "('k, 'v, 'p) dict"
  assumes "dict_inv same d"
  shows "dictRelease d = Some (fold (free_effect (d_type d)) (dict_entries d) (privdata d))"
proof -
  note sz = dict_inv_table_sizes [OF assms]
  have "clear_loop None (ht0 d) 0 (ht_used (ht0 d)) d
      = Some (d\<lparr>privdata := fold (free_effect (d_type d)) (ht_entries (ht0 d)) (privdata d)\<rparr>)"
    using sz clear_loop_effect [of "ht0 d" "ht_used (ht0 d)" 0] by (simp add: ht_entries_def)
  moreover have "clear_loop None (ht1 d) 0 (ht_used (ht1 d)) d1
      = Some (d1\<lparr>privdata := fold (free_effect (d_type d1)) (ht_entries (ht1 d)) (privdata d1)\<rparr>)" for d1 :: "('k, 'v, 'p) dict"
    using sz clear_loop_effect [of "ht1 d" "ht_used (ht1 d)" 0] by (simp add: ht_entries_def)
  ultimately show ?thesis
    by (simp add: dictRelease_def dictClear_def get_ht_def put_ht_def dict_entries_def)
qed

section \<open>Bounded rehashing\<close>

lemma move_chain_size: "move_chain b d = Some d' \<Longrightarrow> ht_size (ht0 d') = ht_size (ht0 d)"
  by (induction b d rule: move_chain.induct) (auto simp: Let_def bind_Some_iff)

lemma rehash_loop_size: "rehash_loop n ev d = Some (st, d') \<Longrightarrow> ht_size (ht0 d') = ht_size (ht0 d)"
  by (induction n ev d rule: rehash_loop.induct)
    (auto simp: bind_Some_iff move_chain_size split: if_splits scan_result.splits)

lemma dictRehash_keeps:
  assumes inv: "dict_inv same d"
  shows "\<exists>more d'. dictRehash n d = Some (more, d') \<and> dict_inv same d' \<and> same_content d d'
    \<and> (more \<longrightarrow> dictIsRehashing d' \<and> ht_size (ht0 d') = ht_size (ht0 d) \<and> (n \<noteq> 0 \<longrightarrow> rehashidx d < rehashidx d'))"
proof (cases "dictIsRehashing d")
  case True
  then have "rehash_inv d" using inv by (simp add: dict_inv_def)
  from dictRehash_inv [OF this, of n] obtain more d' where
    1: "dictRehash n d = Some (more, d')" "same_content d d'" "more \<and> n \<noteq> 0 \<longrightarrow> rehashidx d < rehashidx d'"
      "if more then rehash_inv d' else ht_live (hashFunction (d_type d')) (ht0 d') \<and> ht1 d' = dictReset
         \<and> rehashidx d' = -1" by auto
  have "uniq_keys same (dict_entries d')"
    using 1(2) inv uniq_keys_mset by (metis dict_inv_def same_content_def)
  moreover have re: "dictIsRehashing d' = more"
    using 1(4) by (auto simp: dictIsRehashing_def rehash_inv_def split: if_splits)
  moreover have "more \<longrightarrow> ht_size (ht0 d') = ht_size (ht0 d)"
    using 1(1) True by (auto simp: dictRehash_def bind_Some_iff rehash_loop_size split: if_splits)
  ultimately show ?thesis using 1 by (auto simp: dict_inv_def)
qed (use inv in \<open>auto simp: dictRehash_def\<close>)

text \<open>Every round advances the rehashing index, so the loop ends even if time stands still.\<close>

lemma rehash_ms_loop_total:
  assumes "dict_inv same d" "nat (int (ht_size (ht0 d)) - rehashidx d) < fuel"
  shows "\<exists>r d'. rehash_ms_loop fuel clock i start ms rehashes d = Some (r, d')
    \<and> dict_inv same d' \<and> same_content d d'"
  using assms
proof (induction fuel arbitrary: i rehashes d)
  case (Suc fuel)
  from dictRehash_keeps [OF Suc.prems(1), of 100] obtain more d1 where
    1: "dictRehash 100 d = Some (more, d1)" "dict_inv same d1" "same_content d d1"
      "more \<longrightarrow> dictIsRehashing d1 \<and> ht_size (ht0 d1) = ht_size (ht0 d) \<and> rehashidx d < rehashidx d1" by auto
  show ?case
  proof (cases more)
    case True
    then have "rehash_inv d1" using 1(2,4) by (simp add: dict_inv_def)
    then have "nat (int (ht_size (ht0 d1)) - rehashidx d1) < fuel"
      using True 1(4) Suc.prems(2) by (auto simp: rehash_inv_def)
    from Suc.IH [OF 1(2) this, of "Suc i" "rehashes + 100"] 1 show ?thesis
      using same_content_trans [OF 1(3)] by auto
  qed (use 1 in auto)
qed simp

section \<open>Shrinking\<close>

text \<open>With fewer than \<open>2 ^ 31\<close> elements the target is the number of elements, at least 4.\<close>

lemma dictResize_small:
  assumes "ht_used (ht0 d) < 2 ^ 31"
  shows "dictResize True d
    = (if dictIsRehashing d then (False, d) else dictExpand d (max (ht_used (ht0 d)) DICT_HT_INITIAL_SIZE))"
proof -
  have "sint (of_nat (ht_used (ht0 d)) :: 32 word) = int (ht_used (ht0 d))"
    using assms by (simp add: signed_of_nat signed_take_bit_int_eq_self)
  then show ?thesis by (simp add: dictResize_def Let_def DICT_HT_INITIAL_SIZE_def max_def dictExpand_def)
qed

end
