(* ===== verification/Siphash.thy ===== *)
theory Siphash
  imports Prelude
begin

text \<open>
  The keyed hash of \<^verbatim>\<open>siphash.c\<close> (SipHash with one compression and two finalisation
  rounds) in its two forms. The case-insensitive form is the plain one on the lower-cased
  input, which is what makes it agree with a case-insensitive key comparison.
\<close>

section \<open>The hash\<close>

definition siptlw :: "byte \<Rightarrow> byte" where
  "siptlw c = (if c \<ge> ch CHR ''A'' \<and> c \<le> ch CHR ''Z'' then c + (ch CHR ''a'' - ch CHR ''A'') else c)"

definition ROTL :: "u64 \<Rightarrow> nat \<Rightarrow> u64" where
  "ROTL x b = push_bit b x OR drop_bit (64 - b) x"

text \<open>Eight bytes, least significant first; a shorter list stands for zero-padded bytes.\<close>

fun U8TO64_LE :: "byte list \<Rightarrow> u64" where
  "U8TO64_LE [] = 0"
| "U8TO64_LE (c # cs) = ucast c OR push_bit 8 (U8TO64_LE cs)"

definition U8TO64_LE_NOCASE :: "byte list \<Rightarrow> u64" where
  "U8TO64_LE_NOCASE p =
     ucast (siptlw (p ! 0)) OR push_bit 8 (ucast (siptlw (p ! 1))) OR
     push_bit 16 (ucast (siptlw (p ! 2))) OR push_bit 24 (ucast (siptlw (p ! 3))) OR
     push_bit 32 (ucast (siptlw (p ! 4))) OR push_bit 40 (ucast (siptlw (p ! 5))) OR
     push_bit 48 (ucast (siptlw (p ! 6))) OR push_bit 56 (ucast (siptlw (p ! 7)))"

type_synonym sipstate = "u64 \<times> u64 \<times> u64 \<times> u64"

definition SIPROUND :: "sipstate \<Rightarrow> sipstate" where
  "SIPROUND = (\<lambda>(v0, v1, v2, v3).
     let v0 = v0 + v1;
         v1 = ROTL v1 13;
         v1 = v1 XOR v0;
         v0 = ROTL v0 32;
         v2 = v2 + v3;
         v3 = ROTL v3 16;
         v3 = v3 XOR v2;
         v0 = v0 + v3;
         v3 = ROTL v3 21;
         v3 = v3 XOR v0;
         v2 = v2 + v1;
         v1 = ROTL v1 17;
         v1 = v1 XOR v2;
         v2 = ROTL v2 32
     in (v0, v1, v2, v3))"

text \<open>The loop over the whole 64-bit words of the input, then the initial and final steps.\<close>

function siphash_loop :: "byte list \<Rightarrow> sipstate \<Rightarrow> sipstate \<times> byte list" where
  "siphash_loop inp st =
     (if length inp < 8 then (st, inp)
      else let (v0, v1, v2, v3) = st;
               m = U8TO64_LE (take 8 inp);
               (v0, v1, v2, v3) = SIPROUND (v0, v1, v2, v3 XOR m)
           in siphash_loop (drop 8 inp) (v0 XOR m, v1, v2, v3))"
  by pat_completeness auto
termination
  by (relation "measure (\<lambda>(inp, st). length inp)") auto

declare siphash_loop.simps [simp del]

definition sip_init :: "byte list \<Rightarrow> sipstate" where
  "sip_init k =
     (let k0 = U8TO64_LE (take 8 k); k1 = U8TO64_LE (take 8 (drop 8 k)) in
      (0x736f6d6570736575 XOR k0, 0x646f72616e646f6d XOR k1,
       0x6c7967656e657261 XOR k0, 0x7465646279746573 XOR k1))"

definition sip_final :: "sipstate \<Rightarrow> u64 \<Rightarrow> u64" where
  "sip_final st b =
     (let (v0, v1, v2, v3) = st;
          (v0, v1, v2, v3) = SIPROUND (v0, v1, v2, v3 XOR b);
          (v0, v1, v2, v3) = SIPROUND (SIPROUND (v0 XOR b, v1, v2 XOR 0xff, v3))
      in v0 XOR v1 XOR v2 XOR v3)"

text \<open>The trailing bytes, at most seven, with the length in the top byte.\<close>

definition siphash :: "byte list \<Rightarrow> byte list \<Rightarrow> u64" where
  "siphash inp k =
     (let (st, left) = siphash_loop inp (sip_init k)
      in sip_final st (push_bit 56 (of_nat (length inp)) OR U8TO64_LE left))"

function siphash_nocase_loop :: "byte list \<Rightarrow> sipstate \<Rightarrow> sipstate \<times> byte list" where
  "siphash_nocase_loop inp st =
     (if length inp < 8 then (st, inp)
      else let (v0, v1, v2, v3) = st;
               m = U8TO64_LE_NOCASE inp;
               (v0, v1, v2, v3) = SIPROUND (v0, v1, v2, v3 XOR m)
           in siphash_nocase_loop (drop 8 inp) (v0 XOR m, v1, v2, v3))"
  by pat_completeness auto
termination
  by (relation "measure (\<lambda>(inp, st). length inp)") auto

declare siphash_nocase_loop.simps [simp del]

definition siphash_nocase :: "byte list \<Rightarrow> byte list \<Rightarrow> u64" where
  "siphash_nocase inp k =
     (let (st, left) = siphash_nocase_loop inp (sip_init k)
      in sip_final st (push_bit 56 (of_nat (length inp)) OR U8TO64_LE (map siptlw left)))"

section \<open>The two forms agree\<close>

lemma length8: "8 \<le> length xs \<Longrightarrow> \<exists>a b c d e f g h rest. xs = [a, b, c, d, e, f, g, h] @ rest"
  by (cases xs; cases "tl xs"; cases "tl (tl xs)"; cases "tl (tl (tl xs))"; cases "tl (tl (tl (tl xs)))";
      cases "tl (tl (tl (tl (tl xs))))"; cases "tl (tl (tl (tl (tl (tl xs)))))";
      cases "tl (tl (tl (tl (tl (tl (tl xs))))))") auto

lemma push_bit_or_u64: "push_bit n (a OR b :: u64) = push_bit n a OR push_bit n b"
  by (rule bit_word_eqI) (auto simp: bit_simps)

lemma U8TO64_LE_NOCASE_eq:
  assumes "8 \<le> length inp"
  shows "U8TO64_LE_NOCASE inp = U8TO64_LE (take 8 (map siptlw inp))"
proof -
  from length8 [OF assms] obtain a b c d e f g h rest where
    "inp = [a, b, c, d, e, f, g, h] @ rest" by blast
  then show ?thesis
    by (simp add: U8TO64_LE_NOCASE_def push_bit_or_u64 or.assoc)
qed

lemma siphash_nocase_loop_eq:
  "siphash_nocase_loop inp st = (st', left) \<Longrightarrow> siphash_loop (map siptlw inp) st = (st', map siptlw left)"
proof (induction "length inp" arbitrary: inp st rule: less_induct)
  case (less inp st)
  obtain v0 v1 v2 v3 where st: "st = (v0, v1, v2, v3)" by (cases st) auto
  show ?case
  proof (cases "length inp < 8")
    case True
    with less show ?thesis by (simp add: siphash_loop.simps siphash_nocase_loop.simps)
  next
    case False
    let ?m = "U8TO64_LE_NOCASE inp"
    obtain w0 w1 w2 w3 where r: "SIPROUND (v0, v1, v2, v3 XOR ?m) = (w0, w1, w2, w3)"
      by (cases "SIPROUND (v0, v1, v2, v3 XOR ?m)") auto
    have m: "U8TO64_LE (take 8 (map siptlw inp)) = ?m" using False by (simp add: U8TO64_LE_NOCASE_eq)
    have "siphash_nocase_loop (drop 8 inp) (w0 XOR ?m, w1, w2, w3) = (st', left)"
      using less.prems False st r by (subst (asm) siphash_nocase_loop.simps) simp
    with less.hyps [of "drop 8 inp"] False st r m
    show ?thesis by (subst siphash_loop.simps) (simp add: drop_map)
  qed
qed

lemma siphash_nocase_lower: "siphash_nocase inp k = siphash (map siptlw inp) k"
  by (cases "siphash_nocase_loop inp (sip_init k)")
    (simp add: siphash_def siphash_nocase_def siphash_nocase_loop_eq)

end
