(* ===== verification/Util.thy ===== *)
theory Util
  imports Prelude
begin

text \<open>
  The conversions between integers and decimal strings of \<^verbatim>\<open>util.c\<close>: \<^verbatim>\<open>digits10\<close>,
  \<^verbatim>\<open>ll2string\<close> (two digits at a time, backwards into a buffer) and the strict parser
  \<^verbatim>\<open>string2ll\<close>. They are inverse to each other, and the buffer is never overrun.
\<close>

section \<open>Printing\<close>

definition LLONG_MAX :: int where "LLONG_MAX = 9223372036854775807"
definition LLONG_MIN :: int where "LLONG_MIN = -9223372036854775808"
definition ULLONG_MAX :: nat where "ULLONG_MAX = 18446744073709551615"

function digits10 :: "nat \<Rightarrow> nat" where
  "digits10 v =
     (if v < 10 then 1
      else if v < 100 then 2
      else if v < 1000 then 3
      else if v < 1000000000000 then
        (if v < 100000000 then
           (if v < 1000000 then
              (if v < 10000 then 4 else 5 + (if v \<ge> 100000 then 1 else 0))
            else 7 + (if v \<ge> 10000000 then 1 else 0))
         else if v < 10000000000 then 9 + (if v \<ge> 1000000000 then 1 else 0)
         else 11 + (if v \<ge> 100000000000 then 1 else 0))
      else 12 + digits10 (v div 1000000000000))"
  by pat_completeness auto
termination
  by (relation "measure id") auto

declare digits10.simps [simp del]

definition sdigits10 :: "int \<Rightarrow> nat" where
  "sdigits10 v =
     (if v < 0 then
        let uv = (if v \<noteq> LLONG_MIN then nat (- v) else nat LLONG_MAX + 1)
        in digits10 uv + 1
      else digits10 (nat v))"

text \<open>The table of the two-digit numbers, \<open>''00'' \<dots> ''99''\<close>.\<close>

definition digits :: string where
  "digits =
     ''0001020304050607080910111213141516171819'' @
     ''2021222324252627282930313233343536373839'' @
     ''4041424344454647484950515253545556575859'' @
     ''6061626364656667686970717273747576777879'' @
     ''8081828384858687888990919293949596979899''"

text \<open>A store into the buffer; \<open>None\<close> is a write outside it.\<close>

definition put :: "byte list \<Rightarrow> int \<Rightarrow> byte \<Rightarrow> byte list option" where
  "put dst i c = (if 0 \<le> i \<and> nat i < length dst then Some (dst[nat i := c]) else None)"

function ll2string_loop :: "nat \<Rightarrow> int \<Rightarrow> byte list \<Rightarrow> (nat \<times> int \<times> byte list) option" where
  "ll2string_loop v nxt dst =
     (if v \<ge> 100 then
        let i = (v mod 100) * 2 in do {
          dst \<leftarrow> put dst nxt (ch (digits ! (i + 1)));
          dst \<leftarrow> put dst (nxt - 1) (ch (digits ! i));
          ll2string_loop (v div 100) (nxt - 2) dst }
      else Some (v, nxt, dst))"
  by pat_completeness auto
termination
  by (relation "measure (\<lambda>(v, _, _). v)") auto

declare ll2string_loop.simps [simp del]

text \<open>The result is the returned length and the buffer afterwards.\<close>

definition ll2string :: "byte list \<Rightarrow> nat \<Rightarrow> int \<Rightarrow> (nat \<times> byte list) option" where
  "ll2string dst dstlen svalue =
     (let (v, negative) =
            (if svalue < 0
             then (if svalue \<noteq> LLONG_MIN then nat (- svalue) else nat LLONG_MAX + 1, True)
             else (nat svalue, False));
          len = digits10 v + (if negative then 1 else 0)
      in if len \<ge> dstlen then Some (0, dst)
         else do {
           dst \<leftarrow> put dst (int len) 0;
           (v, nxt, dst) \<leftarrow> ll2string_loop v (int len - 1) dst;
           dst \<leftarrow> (if v < 10 then put dst nxt (ch CHR ''0'' + of_nat v)
                  else do {
                    dst \<leftarrow> put dst nxt (ch (digits ! (v * 2 + 1)));
                    put dst (nxt - 1) (ch (digits ! (v * 2))) });
           dst \<leftarrow> (if negative then put dst 0 (ch CHR ''-'') else Some dst);
           Some (len, dst) })"

section \<open>Parsing\<close>

definition isdigit :: "byte \<Rightarrow> bool" where
  "isdigit c \<longleftrightarrow> c \<ge> ch CHR ''0'' \<and> c \<le> ch CHR ''9''"

definition digit_val :: "byte \<Rightarrow> nat" where
  "digit_val c = unat (c - ch CHR ''0'')"

text \<open>\<open>None\<close> is the early return on overflow, otherwise the value and the unread bytes.\<close>

fun string2ll_loop :: "byte list \<Rightarrow> nat \<Rightarrow> (nat \<times> byte list) option" where
  "string2ll_loop [] v = Some (v, [])"
| "string2ll_loop (c # s) v =
     (if isdigit c then
        (if v > ULLONG_MAX div 10 then None
         else let v = v * 10 in
              if v > ULLONG_MAX - digit_val c then None
              else string2ll_loop s (v + digit_val c))
      else Some (v, c # s))"

definition string2ll :: "byte list \<Rightarrow> int option" where
  "string2ll s =
     (if s = [] then None
      else if length s = 1 \<and> s ! 0 = ch CHR ''0'' then Some 0
      else
        let negative = (s ! 0 = ch CHR ''-''); p = (if negative then tl s else s) in
        if p = [] then None
        else if hd p \<ge> ch CHR ''1'' \<and> hd p \<le> ch CHR ''9'' then do {
          (v, rest) \<leftarrow> string2ll_loop (tl p) (digit_val (hd p));
          (if rest \<noteq> [] then None
           else if negative then
             (if v > nat (- (LLONG_MIN + 1)) + 1 then None else Some (- int v))
           else if v > nat LLONG_MAX then None else Some (int v)) }
        else None)"

definition string2l :: "byte list \<Rightarrow> int option" where
  "string2l s = do {
     llval \<leftarrow> string2ll s;
     (if llval < LLONG_MIN \<or> llval > LLONG_MAX then None else Some llval) }"

section \<open>The decimal notation\<close>

fun dec :: "nat \<Rightarrow> byte list" where
  "dec n = (if n < 10 then [ch CHR ''0'' + of_nat n] else dec (n div 10) @ [ch CHR ''0'' + of_nat (n mod 10)])"

declare dec.simps [simp del]

definition dec_int :: "int \<Rightarrow> byte list" where
  "dec_int z = (if z < 0 then ch CHR ''-'' # dec (nat (- z)) else dec (nat z))"

lemma dec_small: "n < 10 \<Longrightarrow> dec n = [ch CHR ''0'' + of_nat n]"
  by (subst dec.simps) simp

lemma dec_step: "n \<ge> 10 \<Longrightarrow> dec n = dec (n div 10) @ [ch CHR ''0'' + of_nat (n mod 10)]"
  by (subst dec.simps) simp

lemma dec_snoc: "0 < v \<Longrightarrow> d < 10 \<Longrightarrow> dec (v * 10 + d) = dec v @ [ch CHR ''0'' + of_nat d]"
  using dec_step [of "v * 10 + d"] by simp

lemma dec_two: "n \<ge> 100 \<Longrightarrow>
    dec n = dec (n div 100) @ [ch CHR ''0'' + of_nat (n mod 100 div 10), ch CHR ''0'' + of_nat (n mod 10)]"
proof -
  assume n: "n \<ge> 100"
  have "n div 10 div 10 = n div 100" by (simp add: div_mult2_eq [symmetric])
  moreover have "n div 10 mod 10 = n mod 100 div 10" using mod_mult2_eq [of n 10 10] by simp
  ultimately show ?thesis using n dec_step [of n] dec_step [of "n div 10"] by simp
qed

lemma length_dec: "10 ^ k \<le> v \<Longrightarrow> v < 10 ^ Suc k \<Longrightarrow> length (dec v) = Suc k"
proof (induction k arbitrary: v)
  case 0
  then show ?case by (simp add: dec_small)
next
  case (Suc k)
  then have "10 ^ k \<le> v div 10" "v div 10 < 10 ^ Suc k" by auto
  moreover have "v \<ge> 10" using Suc.prems(1) by (auto intro: le_trans [rotated])
  ultimately show ?case using Suc.IH by (simp add: dec_step)
qed

lemma length_dec_le: "n < 10 ^ Suc k \<Longrightarrow> length (dec n) \<le> Suc k"
proof (induction k arbitrary: n)
  case (Suc k)
  then show ?case by (cases "n < 10") (auto simp: dec_small dec_step)
qed (simp add: dec_small)

lemma length_dec_div: "v \<ge> 10 ^ k \<Longrightarrow> length (dec v) = k + length (dec (v div 10 ^ k))"
proof (induction k arbitrary: v)
  case (Suc k)
  have "v \<ge> 10" using Suc.prems by (auto intro: le_trans [rotated])
  then have "length (dec v) = Suc (length (dec (v div 10)))" by (simp add: dec_step)
  moreover have "v div 10 \<ge> 10 ^ k" using Suc.prems by auto
  ultimately show ?case using Suc.IH [of "v div 10"] by (simp add: div_mult2_eq)
qed simp

lemma digits10_length: "digits10 v = length (dec v)"
proof (induction v rule: digits10.induct)
  case (1 v)
  show ?case
  proof (cases "v < 1000000000000")
    case True
    note len = length_dec [of 1 v] length_dec [of 2 v] length_dec [of 3 v] length_dec [of 4 v]
      length_dec [of 5 v] length_dec [of 6 v] length_dec [of 7 v] length_dec [of 8 v]
      length_dec [of 9 v] length_dec [of 10 v] length_dec [of 11 v]
    have "v < 10 \<Longrightarrow> length (dec v) = 1" by (simp add: dec_small)
    with len True show ?thesis by (subst digits10.simps) (simp add: not_less)
  next
    case False
    with 1 length_dec_div [of 12 v] show ?thesis by (subst digits10.simps) simp
  qed
qed

section \<open>Printing is the decimal notation\<close>

lemma digits_table:
  assumes "k < 100"
  shows "ch (digits ! (k * 2)) = ch CHR ''0'' + of_nat (k div 10)"
    "ch (digits ! (k * 2 + 1)) = ch CHR ''0'' + of_nat (k mod 10)"
proof -
  have "list_all (\<lambda>k. of_char (digits ! (k * 2)) = (48 + of_nat (k div 10) :: byte)
      \<and> of_char (digits ! (k * 2 + 1)) = (48 + of_nat (k mod 10) :: byte)) [0..<100]"
    by code_simp
  with assms show "ch (digits ! (k * 2)) = ch CHR ''0'' + of_nat (k div 10)"
    "ch (digits ! (k * 2 + 1)) = ch CHR ''0'' + of_nat (k mod 10)"
    by (auto simp: list_all_iff)
qed

lemma put_middle: "length pre = nat i \<Longrightarrow> 0 \<le> i \<Longrightarrow> put (pre @ x # post) i c = Some (pre @ c # post)"
  by (simp add: put_def list_update_append)

lemma split_two: "length xs = Suc (Suc n) \<Longrightarrow> \<exists>m x y. xs = m @ [x, y] \<and> length m = n"
proof (induction n arbitrary: xs)
  case (Suc n)
  then obtain a as where "xs = a # as" "length as = Suc (Suc n)" by (cases xs) auto
  with Suc.IH obtain m x y where "xs = (a # m) @ [x, y]" "length (a # m) = Suc n" by force
  then show ?case by blast
qed (auto simp: length_Suc_conv)

text \<open>The digits fill exactly the room in front of position \<open>nxt + 1\<close>.\<close>

lemma ll2string_write:
  assumes "length mid = length (dec v)" "int (length pre + length mid) = nxt + 1"
  shows "\<exists>v' nxt' dst'. ll2string_loop v nxt (pre @ mid @ post) = Some (v', nxt', dst')
    \<and> (if v' < 10 then put dst' nxt' (ch CHR ''0'' + of_nat v')
       else do {
         dst \<leftarrow> put dst' nxt' (ch (digits ! (v' * 2 + 1)));
         put dst (nxt' - 1) (ch (digits ! (v' * 2))) }) = Some (pre @ dec v @ post)"
  using assms
proof (induction v arbitrary: nxt mid post rule: less_induct)
  case (less v)
  show ?case
  proof (cases "v < 100")
    case True
    show ?thesis
    proof (cases "v < 10")
      case v: True
      then obtain x where "mid = [x]" using less.prems(1) by (auto simp: dec_small length_Suc_conv)
      then show ?thesis
        using v less.prems(2) by (subst ll2string_loop.simps) (simp add: dec_small put_middle)
    next
      case False
      then have d: "dec v = [ch CHR ''0'' + of_nat (v div 10), ch CHR ''0'' + of_nat (v mod 10)]"
        using True by (simp add: dec_step dec_small)
      then obtain x y where "mid = [x, y]" using less.prems(1) by (auto simp: length_Suc_conv)
      then show ?thesis
        using True False less.prems(2) d digits_table [OF True] put_middle [of "pre @ [x]" nxt y post]
        by (subst ll2string_loop.simps) (simp add: put_middle)
    qed
  next
    case False
    let ?k = "v mod 100"
    have d: "dec v = dec (v div 100) @ [ch CHR ''0'' + of_nat (?k div 10), ch CHR ''0'' + of_nat (?k mod 10)]"
      using False dec_two [of v] by (simp add: mod_mod_cancel)
    obtain m x y where mid: "mid = m @ [x, y]" "length m = length (dec (v div 100))"
      using split_two [of mid "length (dec (v div 100))"] less.prems(1) d by auto
    let ?p = "[ch (digits ! (?k * 2)), ch (digits ! (?k * 2 + 1))] @ post"
    have "put (pre @ mid @ post) nxt (ch (digits ! (?k * 2 + 1))) = Some (pre @ m @ [x, ch (digits ! (?k * 2 + 1))] @ post)"
      using mid less.prems(2) put_middle [of "pre @ m @ [x]" nxt y post] by simp
    moreover have "put (pre @ m @ [x, ch (digits ! (?k * 2 + 1))] @ post) (nxt - 1) (ch (digits ! (?k * 2))) = Some (pre @ m @ ?p)"
      using mid less.prems(2) put_middle [of "pre @ m" "nxt - 1" x] by simp
    ultimately have "ll2string_loop v nxt (pre @ mid @ post) = ll2string_loop (v div 100) (nxt - 2) (pre @ m @ ?p)"
      using False by (subst ll2string_loop.simps) (simp add: Let_def)
    moreover have "dec v @ post = dec (v div 100) @ ?p"
      using d digits_table [of ?k] by simp
    ultimately show ?thesis
      using less.IH [of "v div 100" m "nxt - 2" ?p] False mid less.prems(2) by simp
  qed
qed

lemma ll2string_spec:
  assumes "LLONG_MIN \<le> z" "z \<le> LLONG_MAX" "dstlen \<le> length dst"
  shows "ll2string dst dstlen z =
    (if length (dec_int z) < dstlen
     then Some (length (dec_int z), dec_int z @ 0 # drop (Suc (length (dec_int z))) dst)
     else Some (0, dst))"
proof -
  define v where "v = nat \<bar>z\<bar>"
  have v: "(if z < 0 then (if z \<noteq> LLONG_MIN then nat (- z) else nat LLONG_MAX + 1, True) else (nat z, False)) = (v, z < 0)"
    using assms by (auto simp: v_def LLONG_MIN_def LLONG_MAX_def)
  define k :: nat where "k = (if z < 0 then 1 else 0)"
  have len: "length (dec_int z) = k + digits10 v"
    by (simp add: dec_int_def digits10_length v_def k_def)
  show ?thesis
  proof (cases "length (dec_int z) < dstlen")
    case True
    let ?n = "length (dec_int z)" and ?post = "0 # drop (Suc (length (dec_int z))) dst"
    have n: "?n < length dst" using True assms(3) by simp
    define pre mid where "pre = take k dst" and "mid = take (length (dec v)) (drop k dst)"
    have "dst = pre @ mid @ dst ! ?n # drop (Suc ?n) dst"
      using id_take_nth_drop [OF n] take_add [of k "length (dec v)" dst] len
      by (simp add: pre_def mid_def digits10_length)
    moreover have lens: "length pre = k" "length mid = length (dec v)"
      using n len by (simp_all add: pre_def mid_def digits10_length)
    ultimately have first: "put dst (int ?n) 0 = Some (pre @ mid @ ?post)"
      using put_middle [of "pre @ mid" "int ?n" "dst ! ?n"] len digits10_length by (metis append_assoc length_append nat_int of_nat_0_le_iff)
    have "int (length pre + length mid) = int ?n - 1 + 1"
      using lens len by (simp add: digits10_length)
    from ll2string_write [OF lens(2) this, of ?post] obtain v' nxt' dst' where
      w: "ll2string_loop v (int ?n - 1) (pre @ mid @ ?post) = Some (v', nxt', dst')"
        "(if v' < 10 then put dst' nxt' (ch CHR ''0'' + of_nat v')
          else do {
            dst \<leftarrow> put dst' nxt' (ch (digits ! (v' * 2 + 1)));
            put dst (nxt' - 1) (ch (digits ! (v' * 2))) }) = Some (pre @ dec v @ ?post)"
      by blast
    have "(if z < 0 then put (pre @ dec v @ ?post) 0 (ch CHR ''-'') else Some (pre @ dec v @ ?post))
        = Some (dec_int z @ ?post)"
      using lens(1) by (cases pre) (auto simp: k_def v_def dec_int_def put_def split: if_splits)
    moreover have "digits10 v + (if z < 0 then 1 else 0) = ?n" using len by (simp add: k_def)
    ultimately show ?thesis
      using True first w unfolding ll2string_def Let_def v prod.case by simp
  next
    case False
    then show ?thesis using v len by (simp add: ll2string_def Let_def k_def)
  qed
qed

section \<open>Parsing accepts exactly the decimal notation\<close>

lemma digit_of:
  assumes "d < 10"
  shows "isdigit (ch CHR ''0'' + of_nat d)" "digit_val (ch CHR ''0'' + of_nat d) = d"
    "0 < d \<Longrightarrow> ch CHR ''0'' + of_nat d \<ge> ch CHR ''1'' \<and> ch CHR ''0'' + of_nat d \<le> ch CHR ''9''"
    "ch CHR ''0'' + of_nat d \<noteq> ch CHR ''-''" "0 < d \<Longrightarrow> ch CHR ''0'' + of_nat d \<noteq> ch CHR ''0''"
proof -
  have "d \<in> {0, 1, 2, 3, 4, 5, 6, 7, 8, 9}" using assms by auto
  then show "isdigit (ch CHR ''0'' + of_nat d)" "digit_val (ch CHR ''0'' + of_nat d) = d"
    "0 < d \<Longrightarrow> ch CHR ''0'' + of_nat d \<ge> ch CHR ''1'' \<and> ch CHR ''0'' + of_nat d \<le> ch CHR ''9''"
    "ch CHR ''0'' + of_nat d \<noteq> ch CHR ''-''" "0 < d \<Longrightarrow> ch CHR ''0'' + of_nat d \<noteq> ch CHR ''0''"
    by (auto simp: isdigit_def digit_val_def)
qed

lemma digit_is:
  assumes "isdigit c"
  shows "digit_val c < 10" "c = ch CHR ''0'' + of_nat (digit_val c)"
proof -
  have "48 \<le> unat c" "unat c \<le> 57" using assms by (auto simp: isdigit_def word_le_nat_alt)
  then have "digit_val c = unat c - 48" by (simp add: digit_val_def unat_sub word_le_nat_alt)
  with \<open>unat c \<le> 57\<close> show "digit_val c < 10" by simp
  show "c = ch CHR ''0'' + of_nat (digit_val c)" by (simp add: digit_val_def)
qed

text \<open>A run that consumes the whole string appends its digits to those read before.\<close>

lemma string2ll_loop_sound:
  "string2ll_loop s v = Some (w, []) \<Longrightarrow> 0 < v \<Longrightarrow> dec w = dec v @ s \<and> 0 < w"
proof (induction s v rule: string2ll_loop.induct)
  case (2 c s v)
  then have c: "isdigit c" and rec: "string2ll_loop s (v * 10 + digit_val c) = Some (w, [])"
    and "v \<le> ULLONG_MAX div 10" "v * 10 \<le> ULLONG_MAX - digit_val c"
    by (auto simp: Let_def split: if_splits)
  with 2 have "dec w = dec (v * 10 + digit_val c) @ s \<and> 0 < w" by (auto simp: not_less)
  then show ?case using dec_snoc [OF 2(3) digit_is(1) [OF c]] digit_is(2) [OF c] by simp
qed simp

text \<open>The value of a prefix grows, so the overflow tests pass when the whole number fits.\<close>

lemma string2ll_loop_dec:
  assumes "v \<le> ULLONG_MAX" "0 < v"
  shows "\<exists>d ds. dec v = (ch CHR ''0'' + of_nat d) # ds \<and> 0 < d \<and> d < 10
    \<and> (\<forall>t. string2ll_loop (ds @ t) d = string2ll_loop t v)"
  using assms
proof (induction v rule: dec.induct)
  case (1 v)
  show ?case
  proof (cases "v < 10")
    case True
    with 1 show ?thesis by (intro exI [of _ v] exI [of _ "[]"]) (simp add: dec_small)
  next
    case False
    then have "v div 10 \<le> ULLONG_MAX" "0 < v div 10" using 1(2) by auto
    from 1(1) [OF False this] obtain d ds where
      IH: "dec (v div 10) = (ch CHR ''0'' + of_nat d) # ds" "0 < d" "d < 10"
        "\<forall>t. string2ll_loop (ds @ t) d = string2ll_loop t (v div 10)" by blast
    let ?c = "ch CHR ''0'' + of_nat (v mod 10)"
    have "v div 10 \<le> ULLONG_MAX div 10" using 1(2) by (rule div_le_mono)
    moreover have "v div 10 * 10 \<le> ULLONG_MAX - v mod 10"
      using 1(2) div_mult_mod_eq [of v 10] by linarith
    ultimately have "string2ll_loop (?c # t) (v div 10) = string2ll_loop t v" for t
      using digit_of(1,2) [of "v mod 10"] by (simp add: Let_def not_less)
    then have "\<forall>t. string2ll_loop ((ds @ [?c]) @ t) d = string2ll_loop t v" using IH(4) by simp
    moreover have "dec v = (ch CHR ''0'' + of_nat d) # (ds @ [?c])" using False IH(1) by (simp add: dec_step)
    ultimately show ?thesis using IH(2,3) by blast
  qed
qed

lemma string2ll_sound:
  assumes "string2ll s = Some z"
  shows "s = dec_int z \<and> LLONG_MIN \<le> z \<and> z \<le> LLONG_MAX"
proof (cases "length s = 1 \<and> s ! 0 = ch CHR ''0''")
  case True
  with assms show ?thesis
    by (cases s) (auto simp: string2ll_def dec_int_def dec_small LLONG_MIN_def LLONG_MAX_def)
next
  case False
  let ?neg = "s ! 0 = ch CHR ''-''"
  define p where "p = (if ?neg then tl s else s)"
  from assms False obtain v where ne: "s \<noteq> []" "p \<noteq> []" "hd p \<ge> ch CHR ''1''" "hd p \<le> ch CHR ''9''"
    and run: "string2ll_loop (tl p) (digit_val (hd p)) = Some (v, [])"
    and z: "(if ?neg then if v > nat (- (LLONG_MIN + 1)) + 1 then None else Some (- int v)
             else if v > nat LLONG_MAX then None else Some (int v)) = Some z"
    by (auto simp: string2ll_def Let_def bind_Some_iff p_def split: if_splits)
  have d: "isdigit (hd p)" "0 < digit_val (hd p)"
  proof -
    show "isdigit (hd p)" using ne(3,4) by (auto simp: isdigit_def intro: order_trans [rotated])
    then show "0 < digit_val (hd p)" using ne(3) digit_is(2) [of "hd p"] by (cases "digit_val (hd p)") auto
  qed
  have "dec v = dec (digit_val (hd p)) @ tl p" "0 < v"
    using string2ll_loop_sound [OF run d(2)] by auto
  then have "dec v = p"
    using digit_is [OF d(1)] ne(2) by (cases p) (simp_all add: dec_small)
  moreover have "s = (if ?neg then [ch CHR ''-''] else []) @ p" using ne(1) by (cases s) (auto simp: p_def)
  ultimately show ?thesis
    using z \<open>0 < v\<close> by (auto simp: dec_int_def LLONG_MIN_def LLONG_MAX_def split: if_splits)
qed

lemma string2ll_complete:
  assumes "LLONG_MIN \<le> z" "z \<le> LLONG_MAX"
  shows "string2ll (dec_int z) = Some z"
proof (cases "z = 0")
  case True
  then show ?thesis by (simp add: string2ll_def dec_int_def dec_small)
next
  case False
  define v where "v = nat \<bar>z\<bar>"
  have v: "v \<le> ULLONG_MAX" "0 < v"
    using assms False by (auto simp: v_def ULLONG_MAX_def LLONG_MIN_def LLONG_MAX_def)
  from string2ll_loop_dec [OF this] obtain d ds where
    d: "dec v = (ch CHR ''0'' + of_nat d) # ds" "0 < d" "d < 10" "string2ll_loop ds d = Some (v, [])"
    by (metis append_Nil2 string2ll_loop.simps(1))
  note dig = digit_of [OF d(3)] d(2)
  have "ch CHR ''0'' + of_nat d \<noteq> ch CHR ''-''" "ch CHR ''0'' + of_nat d \<noteq> ch CHR ''0''"
    using dig by auto
  with d dig assms show ?thesis
    by (auto simp: string2ll_def dec_int_def Let_def v_def LLONG_MIN_def LLONG_MAX_def)
qed

end
