(* ===== verification/Strobj.thy ===== *)
theory Strobj
  imports Util
begin

text \<open>
  String objects of \<^verbatim>\<open>object.c\<close>: a string is held raw (an SDS string with spare room),
  embedded in the object, or as a 64-bit integer. The encodings are invisible: every
  operation depends on, and keeps, the bytes the object stands for. The LRU clock field of
  an object is not modelled.
\<close>

section \<open>Objects\<close>

datatype str_ptr = RawPtr "byte list" nat | EmbPtr "byte list" | IntPtr u64

record strobj =
  so_ptr :: str_ptr
  refcount :: int

definition OBJ_SHARED_REFCOUNT :: int where "OBJ_SHARED_REFCOUNT = 2147483647"
definition OBJ_SHARED_INTEGERS :: int where "OBJ_SHARED_INTEGERS = 10000"
definition OBJ_ENCODING_EMBSTR_SIZE_LIMIT :: nat where "OBJ_ENCODING_EMBSTR_SIZE_LIMIT = 44"

fun sdsEncodedObject :: "strobj \<Rightarrow> bool" where
  "sdsEncodedObject o1 = (case so_ptr o1 of IntPtr _ \<Rightarrow> False | _ \<Rightarrow> True)"

text \<open>\<open>None\<close> is a failed assertion or a panic.\<close>

definition makeObjectShared :: "strobj \<Rightarrow> strobj option" where
  "makeObjectShared o1 = (if refcount o1 = 1 then Some (o1\<lparr>refcount := OBJ_SHARED_REFCOUNT\<rparr>) else None)"

definition createRawStringObject :: "byte list \<Rightarrow> strobj" where
  "createRawStringObject s = \<lparr>so_ptr = RawPtr s 0, refcount = 1\<rparr>"

definition createEmbeddedStringObject :: "byte list \<Rightarrow> strobj" where
  "createEmbeddedStringObject s = \<lparr>so_ptr = EmbPtr s, refcount = 1\<rparr>"

definition createStringObject :: "byte list \<Rightarrow> strobj" where
  "createStringObject s =
     (if length s \<le> OBJ_ENCODING_EMBSTR_SIZE_LIMIT then createEmbeddedStringObject s
      else createRawStringObject s)"

text \<open>
  The shared integer objects: \<open>shared.integers[value]\<close>. The configuration enters as
  \<open>policy_ok\<close>: no memory limit, or a policy that permits shared integers.
\<close>

definition shared_integer :: "u64 \<Rightarrow> strobj" where
  "shared_integer v = \<lparr>so_ptr = IntPtr v, refcount = OBJ_SHARED_REFCOUNT\<rparr>"

definition incrRefCount :: "strobj \<Rightarrow> strobj" where
  "incrRefCount o1 = (if refcount o1 \<noteq> OBJ_SHARED_REFCOUNT then o1\<lparr>refcount := refcount o1 + 1\<rparr> else o1)"

text \<open>\<open>Some None\<close>: the object was freed.\<close>

definition decrRefCount :: "strobj \<Rightarrow> strobj option option" where
  "decrRefCount o1 =
     (if refcount o1 = 1 then Some None
      else if refcount o1 \<le> 0 then None
      else if refcount o1 \<noteq> OBJ_SHARED_REFCOUNT then Some (Some (o1\<lparr>refcount := refcount o1 - 1\<rparr>))
      else Some (Some o1))"

definition resetRefCount :: "strobj \<Rightarrow> strobj" where
  "resetRefCount o1 = o1\<lparr>refcount := 0\<rparr>"

definition createStringObjectFromLongLongWithOptions :: "bool \<Rightarrow> u64 \<Rightarrow> bool \<Rightarrow> strobj" where
  "createStringObjectFromLongLongWithOptions policy_ok v valueobj =
     (let valueobj = (if policy_ok then False else valueobj) in
      if sint v \<ge> 0 \<and> sint v < OBJ_SHARED_INTEGERS \<and> \<not> valueobj
      then incrRefCount (shared_integer v)
      else \<lparr>so_ptr = IntPtr v, refcount = 1\<rparr>)"

definition createStringObjectFromLongLong :: "bool \<Rightarrow> u64 \<Rightarrow> strobj" where
  "createStringObjectFromLongLong policy_ok v = createStringObjectFromLongLongWithOptions policy_ok v False"

definition createStringObjectFromLongLongForValue :: "bool \<Rightarrow> u64 \<Rightarrow> strobj" where
  "createStringObjectFromLongLongForValue policy_ok v = createStringObjectFromLongLongWithOptions policy_ok v True"

definition dupStringObject :: "strobj \<Rightarrow> strobj" where
  "dupStringObject o1 = (case so_ptr o1 of
     RawPtr s _ \<Rightarrow> createRawStringObject s
   | EmbPtr s \<Rightarrow> createEmbeddedStringObject s
   | IntPtr v \<Rightarrow> \<lparr>so_ptr = IntPtr v, refcount = 1\<rparr>)"

section \<open>Encoding and decoding\<close>

definition isSdsRepresentableAsLongLong :: "byte list \<Rightarrow> int option" where
  "isSdsRepresentableAsLongLong s = string2ll s"

definition isObjectRepresentableAsLongLong :: "strobj \<Rightarrow> int option" where
  "isObjectRepresentableAsLongLong o1 = (case so_ptr o1 of
     IntPtr v \<Rightarrow> Some (sint v)
   | RawPtr s _ \<Rightarrow> isSdsRepresentableAsLongLong s
   | EmbPtr s \<Rightarrow> isSdsRepresentableAsLongLong s)"

definition trimStringObjectIfNeeded :: "strobj \<Rightarrow> strobj" where
  "trimStringObjectIfNeeded o1 = (case so_ptr o1 of
     RawPtr s avail \<Rightarrow> if avail > length s div 10 then o1\<lparr>so_ptr := RawPtr s 0\<rparr> else o1
   | _ \<Rightarrow> o1)"

text \<open>
  The result object, and what became of the argument if the result is another object: the
  outcome of \<^verbatim>\<open>decrRefCount\<close> on it.
\<close>

datatype encode_result = SameObject strobj | NewObject strobj "strobj option option"

definition tryObjectEncoding :: "bool \<Rightarrow> strobj \<Rightarrow> encode_result" where
  "tryObjectEncoding policy_ok o1 = (case so_ptr o1 of
     IntPtr _ \<Rightarrow> SameObject o1
   | ptr \<Rightarrow>
       let s = (case ptr of RawPtr s _ \<Rightarrow> s | EmbPtr s \<Rightarrow> s | IntPtr _ \<Rightarrow> []) in
       if refcount o1 > 1 then SameObject o1
       else case (if length s \<le> 20 then string2l s else None) of
         Some v \<Rightarrow>
           if policy_ok \<and> v \<ge> 0 \<and> v < OBJ_SHARED_INTEGERS
           then NewObject (incrRefCount (shared_integer (of_int v))) (decrRefCount o1)
           else (case ptr of
                   EmbPtr _ \<Rightarrow> NewObject (createStringObjectFromLongLongForValue policy_ok (of_int v)) (decrRefCount o1)
                 | _ \<Rightarrow> SameObject (o1\<lparr>so_ptr := IntPtr (of_int v)\<rparr>))
       | None \<Rightarrow>
           if length s \<le> OBJ_ENCODING_EMBSTR_SIZE_LIMIT
           then (case ptr of
                   EmbPtr _ \<Rightarrow> SameObject o1
                 | _ \<Rightarrow> NewObject (createEmbeddedStringObject s) (decrRefCount o1))
           else SameObject (trimStringObjectIfNeeded o1))"

definition result_object :: "encode_result \<Rightarrow> strobj" where
  "result_object r = (case r of SameObject o1 \<Rightarrow> o1 | NewObject o1 _ \<Rightarrow> o1)"

text \<open>The C string in a buffer, up to the terminator; \<^verbatim>\<open>ll2string\<close> into a buffer of the given size.\<close>

definition cstring :: "byte list \<Rightarrow> byte list" where
  "cstring b = takeWhile (\<lambda>c. c \<noteq> 0) b"

definition ll2buf :: "nat \<Rightarrow> u64 \<Rightarrow> (nat \<times> byte list) option" where
  "ll2buf n v = ll2string (replicate n 0) n (sint v)"

definition getDecodedObject :: "strobj \<Rightarrow> strobj option" where
  "getDecodedObject o1 = (case so_ptr o1 of
     IntPtr v \<Rightarrow> do { (_, buf) \<leftarrow> ll2buf 32 v; Some (createStringObject (cstring buf)) }
   | _ \<Rightarrow> Some (incrRefCount o1))"

section \<open>Comparing\<close>

text \<open>\<^verbatim>\<open>memcmp\<close>: the difference of the first bytes that differ.\<close>

fun memcmp :: "byte list \<Rightarrow> byte list \<Rightarrow> nat \<Rightarrow> int" where
  "memcmp (a # as) (b # bs) (Suc n) = (if a = b then memcmp as bs n else int (unat a) - int (unat b))"
| "memcmp _ _ _ = 0"

text \<open>The bytes and the length used for a comparison, integers printed into a buffer of 128.\<close>

definition cmp_string :: "strobj \<Rightarrow> (byte list \<times> nat) option" where
  "cmp_string o1 = (case so_ptr o1 of
     RawPtr s _ \<Rightarrow> Some (s, length s)
   | EmbPtr s \<Rightarrow> Some (s, length s)
   | IntPtr v \<Rightarrow> do { (len, buf) \<leftarrow> ll2buf 128 v; Some (buf, len) })"

text \<open>
  The binary comparison; \<open>alias\<close> tells whether the two arguments are the same object. The
  length difference is returned as an \<^verbatim>\<open>int\<close>, so it is cut to 32 bits.
\<close>

definition compareStringObjects :: "bool \<Rightarrow> strobj \<Rightarrow> strobj \<Rightarrow> int option" where
  "compareStringObjects alias a b =
     (if alias then Some 0
      else do {
        (astr, alen) \<leftarrow> cmp_string a;
        (bstr, blen) \<leftarrow> cmp_string b;
        let minlen = (if alen < blen then alen else blen);
        let cmp = memcmp astr bstr minlen;
        Some (if cmp = 0 then sint (of_nat alen - of_nat blen :: 32 word) else cmp) })"

definition equalStringObjects :: "bool \<Rightarrow> strobj \<Rightarrow> strobj \<Rightarrow> bool option" where
  "equalStringObjects alias a b = (case (so_ptr a, so_ptr b) of
     (IntPtr v, IntPtr w) \<Rightarrow> Some (v = w)
   | _ \<Rightarrow> do { c \<leftarrow> compareStringObjects alias a b; Some (c = 0) })"

definition stringObjectLen :: "strobj \<Rightarrow> nat" where
  "stringObjectLen o1 = (case so_ptr o1 of
     RawPtr s _ \<Rightarrow> length s | EmbPtr s \<Rightarrow> length s | IntPtr v \<Rightarrow> sdigits10 (sint v))"

section \<open>Integers from objects\<close>

definition getLongLongFromObject :: "strobj option \<Rightarrow> int option" where
  "getLongLongFromObject oo = (case oo of
     None \<Rightarrow> Some 0
   | Some o1 \<Rightarrow> (case so_ptr o1 of
       RawPtr s _ \<Rightarrow> string2ll s | EmbPtr s \<Rightarrow> string2ll s | IntPtr v \<Rightarrow> Some (sint v)))"

text \<open>The error message sent to the client, or the value.\<close>

definition getLongLongFromObjectOrReply :: "strobj option \<Rightarrow> string option \<Rightarrow> string + int" where
  "getLongLongFromObjectOrReply oo msg = (case getLongLongFromObject oo of
     None \<Rightarrow> Inl (case msg of Some m \<Rightarrow> m | None \<Rightarrow> ''value is not an integer or out of range'')
   | Some v \<Rightarrow> Inr v)"

definition getLongFromObjectOrReply :: "strobj option \<Rightarrow> string option \<Rightarrow> string + int" where
  "getLongFromObjectOrReply oo msg = (case getLongLongFromObjectOrReply oo msg of
     Inl e \<Rightarrow> Inl e
   | Inr v \<Rightarrow> if v < LLONG_MIN \<or> v > LLONG_MAX
       then Inl (case msg of Some m \<Rightarrow> m | None \<Rightarrow> ''value is out of range'') else Inr v)"

section \<open>The bytes of an object\<close>

definition obj_bytes :: "strobj \<Rightarrow> byte list" where
  "obj_bytes o1 = (case so_ptr o1 of RawPtr s _ \<Rightarrow> s | EmbPtr s \<Rightarrow> s | IntPtr v \<Rightarrow> dec_int (sint v))"

lemma sint_u64_range: "LLONG_MIN \<le> sint (v :: u64)" "sint (v :: u64) \<le> LLONG_MAX"
  using sint_ge [of v] sint_lt [of v] by (auto simp: LLONG_MIN_def LLONG_MAX_def)

lemma sint_of_int_u64: "LLONG_MIN \<le> z \<Longrightarrow> z \<le> LLONG_MAX \<Longrightarrow> sint (of_int z :: u64) = z"
  by (simp add: LLONG_MIN_def LLONG_MAX_def signed_of_int signed_take_bit_int_eq_self)

lemma dec_nonzero: "c \<in> set (dec n) \<Longrightarrow> isdigit c"
proof (induction n rule: dec.induct)
  case (1 n)
  then show ?case using digit_of(1) [of n] digit_of(1) [of "n mod 10"]
    by (cases "n < 10") (auto simp: dec_small dec_step)
qed

lemma dec_int_nonzero: "c \<in> set (dec_int z) \<Longrightarrow> c \<noteq> 0"
  by (auto simp: dec_int_def isdigit_def dest: dec_nonzero split: if_splits)

lemma length_dec_int: "LLONG_MIN \<le> z \<Longrightarrow> z \<le> LLONG_MAX \<Longrightarrow> length (dec_int z) \<le> 20"
proof -
  assume "LLONG_MIN \<le> z" "z \<le> LLONG_MAX"
  then have "nat \<bar>z\<bar> < 10 ^ Suc 18" by (simp add: LLONG_MIN_def LLONG_MAX_def nat_less_iff)
  from length_dec_le [OF this] show ?thesis by (cases "z < 0") (simp_all add: dec_int_def)
qed

lemma ll2buf_spec:
  assumes "21 \<le> n"
  shows "ll2buf n v = Some (length (dec_int (sint v)), dec_int (sint v) @ 0 # replicate (n - Suc (length (dec_int (sint v)))) 0)"
  using assms length_dec_int [OF sint_u64_range, of v] ll2string_spec [OF sint_u64_range, of n "replicate n 0" v]
  by (simp add: ll2buf_def)

lemma cstring_dec: "cstring (dec_int z @ 0 # rest) = dec_int z"
  using dec_int_nonzero [of _ z] by (simp add: cstring_def takeWhile_append)

text \<open>Decoding yields an object that is not integer-encoded, with the same bytes.\<close>

lemma getDecodedObject_bytes:
  "\<exists>o2. getDecodedObject o1 = Some o2 \<and> sdsEncodedObject o2 \<and> obj_bytes o2 = obj_bytes o1"
  by (cases "so_ptr o1")
    (auto simp: getDecodedObject_def obj_bytes_def incrRefCount_def ll2buf_spec cstring_dec createStringObject_def
      createEmbeddedStringObject_def createRawStringObject_def)

lemma tryObjectEncoding_bytes: "obj_bytes (result_object (tryObjectEncoding policy_ok o1)) = obj_bytes o1"
proof -
  have enc: "sint (of_int v :: u64) = v" "dec_int v = s" if "string2l s = Some v" for s v
  proof -
    have "string2ll s = Some v" using that by (auto simp: string2l_def bind_Some_iff split: if_splits)
    then have "s = dec_int v" "LLONG_MIN \<le> v" "v \<le> LLONG_MAX" using string2ll_sound by auto
    then show "sint (of_int v :: u64) = v" "dec_int v = s" by (simp_all add: sint_of_int_u64)
  qed
  show ?thesis
    by (cases "so_ptr o1")
      (auto simp: tryObjectEncoding_def result_object_def obj_bytes_def shared_integer_def incrRefCount_def
        createStringObjectFromLongLongForValue_def createStringObjectFromLongLongWithOptions_def Let_def
        createEmbeddedStringObject_def trimStringObjectIfNeeded_def enc split: option.splits if_splits)
qed

text \<open>A short decimal integer is always stored as an integer, unless the object is shared.\<close>

lemma tryObjectEncoding_int:
  assumes "obj_bytes o1 = dec_int z" "LLONG_MIN \<le> z" "z \<le> LLONG_MAX" "refcount o1 \<le> 1"
  shows "so_ptr (result_object (tryObjectEncoding policy_ok o1)) = IntPtr (of_int z)"
proof -
  have v: "string2l (dec_int z) = Some z" "length (dec_int z) \<le> 20"
    using assms string2ll_complete length_dec_int by (auto simp: string2l_def)
  show ?thesis
  proof (cases "so_ptr o1")
    case (IntPtr w)
    then have "dec_int (sint w) = dec_int z" using assms(1) by (simp add: obj_bytes_def)
    then have "sint w = z"
      using string2ll_complete [OF assms(2,3)] string2ll_complete [OF sint_u64_range, of w] by simp
    then show ?thesis using IntPtr by (auto simp: tryObjectEncoding_def result_object_def)
  qed (use v assms in \<open>auto simp: tryObjectEncoding_def result_object_def obj_bytes_def shared_integer_def
        incrRefCount_def createStringObjectFromLongLongForValue_def
        createStringObjectFromLongLongWithOptions_def Let_def\<close>)
qed

lemma dec_int_inj: "dec_int (sint (v :: u64)) = dec_int (sint w) \<longleftrightarrow> v = w"
  using string2ll_complete [OF sint_u64_range, of v] string2ll_complete [OF sint_u64_range, of w]
  by (metis option.inject signed_word_eqI)

section \<open>Comparison is on bytes\<close>

lemma memcmp_append: "n \<le> length a \<Longrightarrow> n \<le> length b \<Longrightarrow> memcmp (a @ x) (b @ y) n = memcmp a b n"
  by (induction a b n rule: memcmp.induct) auto

lemma memcmp_zero: "n \<le> length a \<Longrightarrow> n \<le> length b \<Longrightarrow> memcmp a b n = 0 \<longleftrightarrow> take n a = take n b"
  by (induction a b n rule: memcmp.induct) (auto simp: unsigned_word_eqI)

definition bytes_cmp :: "byte list \<Rightarrow> byte list \<Rightarrow> int" where
  "bytes_cmp s t =
     (let c = memcmp s t (min (length s) (length t)) in if c = 0 then int (length s) - int (length t) else c)"

lemma bytes_cmp_zero: "bytes_cmp s t = 0 \<longleftrightarrow> s = t"
  by (auto simp: bytes_cmp_def Let_def memcmp_zero split: if_splits)

lemma cmp_string_spec: "\<exists>rest. cmp_string o1 = Some (obj_bytes o1 @ rest, length (obj_bytes o1))"
  by (cases "so_ptr o1") (auto simp: cmp_string_def obj_bytes_def ll2buf_spec)

lemma compareStringObjects_bytes:
  assumes "length (obj_bytes a) < 2 ^ 31" "length (obj_bytes b) < 2 ^ 31"
  shows "compareStringObjects False a b = Some (bytes_cmp (obj_bytes a) (obj_bytes b))"
proof -
  obtain x y where xy: "cmp_string a = Some (obj_bytes a @ x, length (obj_bytes a))"
    "cmp_string b = Some (obj_bytes b @ y, length (obj_bytes b))"
    using cmp_string_spec by metis
  have "sint (of_nat m - of_nat n :: 32 word) = int m - int n" if "m < 2 ^ 31" "n < 2 ^ 31" for m n
  proof -
    have w: "(of_nat m - of_nat n :: 32 word) = of_int (int m - int n)" by simp
    show ?thesis unfolding w signed_of_int using that by (simp add: signed_take_bit_int_eq_self)
  qed
  with assms xy show ?thesis
    by (auto simp: compareStringObjects_def bytes_cmp_def Let_def memcmp_append min_def)
qed

lemma equalStringObjects_bytes:
  assumes "length (obj_bytes a) < 2 ^ 31" "length (obj_bytes b) < 2 ^ 31"
  shows "equalStringObjects False a b = Some (obj_bytes a = obj_bytes b)"
  using compareStringObjects_bytes [OF assms]
  by (auto simp: equalStringObjects_def bytes_cmp_zero obj_bytes_def dec_int_inj split: str_ptr.splits)

lemma stringObjectLen_bytes: "stringObjectLen o1 = length (obj_bytes o1)"
  using sint_u64_range
  by (auto simp: stringObjectLen_def obj_bytes_def sdigits10_def digits10_length dec_int_def LLONG_MIN_def
      LLONG_MAX_def split: str_ptr.splits)

lemma getLongLongFromObject_bytes: "getLongLongFromObject (Some o1) = string2ll (obj_bytes o1)"
  by (cases "so_ptr o1")
    (simp_all add: getLongLongFromObject_def obj_bytes_def string2ll_complete sint_u64_range)

end
