(* ===== verification/Server_Dict.thy ===== *)
theory Server_Dict
  imports Dict_Sample Dict_Maint Siphash Strobj
begin

text \<open>
  The dictionary types of \<^verbatim>\<open>server.c\<close> (hash function, comparison and destructors for
  SDS keys, string-object keys and case-insensitive keys) and the cron's policy for resizing
  and rehashing. The interpretations show that these types satisfy what the hash table asks
  of them, so the lemmas of the table hold for the server's dictionaries. The destructors
  record what they free in the private data, a log that is not used by the C code.
\<close>

section \<open>Hash functions\<close>

definition dictGenHashFunction :: "byte list \<Rightarrow> byte list \<Rightarrow> u64" where
  "dictGenHashFunction seed key = siphash key seed"

definition dictGenCaseHashFunction :: "byte list \<Rightarrow> byte list \<Rightarrow> u64" where
  "dictGenCaseHashFunction seed buf = siphash_nocase buf seed"

section \<open>Keys\<close>

datatype free_event = SdsFree "byte list" | DecrRef strobj | ZFree nat | ListRelease nat

definition dictVanillaFree :: "free_event list \<Rightarrow> nat \<Rightarrow> free_event list" where
  "dictVanillaFree log val = log @ [ZFree val]"

definition dictListDestructor :: "free_event list \<Rightarrow> nat \<Rightarrow> free_event list" where
  "dictListDestructor log val = log @ [ListRelease val]"

definition dictSdsKeyCompare :: "'p \<Rightarrow> byte list \<Rightarrow> byte list \<Rightarrow> bool" where
  "dictSdsKeyCompare priv key1 key2 =
     (let l1 = length key1; l2 = length key2 in
      if l1 \<noteq> l2 then False else memcmp key1 key2 l1 = 0)"

text \<open>\<^verbatim>\<open>strcasecmp\<close> in the C locale: up to the terminator, upper case folded.\<close>

fun strcasecmp_eq :: "byte list \<Rightarrow> byte list \<Rightarrow> bool" where
  "strcasecmp_eq s t = (map siptlw (cstring s) = map siptlw (cstring t))"

definition dictSdsKeyCaseCompare :: "'p \<Rightarrow> byte list \<Rightarrow> byte list \<Rightarrow> bool" where
  "dictSdsKeyCaseCompare priv key1 key2 = strcasecmp_eq key1 key2"

definition dictObjectDestructor :: "free_event list \<Rightarrow> strobj option \<Rightarrow> free_event list" where
  "dictObjectDestructor log val = (case val of None \<Rightarrow> log | Some o1 \<Rightarrow> log @ [DecrRef o1])"

definition dictSdsDestructor :: "free_event list \<Rightarrow> byte list \<Rightarrow> free_event list" where
  "dictSdsDestructor log val = log @ [SdsFree val]"

text \<open>Objects as keys of these tables are never integer-encoded.\<close>

definition sds_of :: "strobj \<Rightarrow> byte list" where
  "sds_of o1 = (case so_ptr o1 of RawPtr s _ \<Rightarrow> s | EmbPtr s \<Rightarrow> s | IntPtr _ \<Rightarrow> [])"

definition dictObjKeyCompare :: "'p \<Rightarrow> strobj \<Rightarrow> strobj \<Rightarrow> bool" where
  "dictObjKeyCompare priv key1 key2 = dictSdsKeyCompare priv (sds_of key1) (sds_of key2)"

definition dictObjHash :: "byte list \<Rightarrow> strobj \<Rightarrow> u64" where
  "dictObjHash seed key = dictGenHashFunction seed (sds_of key)"

definition dictSdsHash :: "byte list \<Rightarrow> byte list \<Rightarrow> u64" where
  "dictSdsHash seed key = dictGenHashFunction seed key"

definition dictSdsCaseHash :: "byte list \<Rightarrow> byte list \<Rightarrow> u64" where
  "dictSdsCaseHash seed key = dictGenCaseHashFunction seed key"

definition dictEncObjKeyCompare :: "'p \<Rightarrow> strobj \<Rightarrow> strobj \<Rightarrow> bool" where
  "dictEncObjKeyCompare priv key1 key2 = (case (so_ptr key1, so_ptr key2) of
     (IntPtr v, IntPtr w) \<Rightarrow> v = w
   | _ \<Rightarrow> (case (getDecodedObject key1, getDecodedObject key2) of
           (Some o1, Some o2) \<Rightarrow> dictSdsKeyCompare priv (sds_of o1) (sds_of o2)
         | _ \<Rightarrow> False))"

definition dictEncObjHash :: "byte list \<Rightarrow> strobj \<Rightarrow> u64" where
  "dictEncObjHash seed key = (case so_ptr key of
     IntPtr v \<Rightarrow> (case ll2buf 32 v of
         Some (len, buf) \<Rightarrow> dictGenHashFunction seed (take len buf) | None \<Rightarrow> 0)
   | _ \<Rightarrow> dictGenHashFunction seed (sds_of key))"

section \<open>The dictionary types\<close>

definition objectKeyPointerValueDictType :: "byte list \<Rightarrow> (strobj, 'v, free_event list) dictType" where
  "objectKeyPointerValueDictType seed =
     \<lparr>hashFunction = dictEncObjHash seed, keyDup = None, valDup = None, keyCompare = Some dictEncObjKeyCompare,
      keyDestructor = Some (\<lambda>log k. dictObjectDestructor log (Some k)), valDestructor = None\<rparr>"

definition objectKeyHeapPointerValueDictType :: "byte list \<Rightarrow> (strobj, nat, free_event list) dictType" where
  "objectKeyHeapPointerValueDictType seed =
     \<lparr>hashFunction = dictEncObjHash seed, keyDup = None, valDup = None, keyCompare = Some dictEncObjKeyCompare,
      keyDestructor = Some (\<lambda>log k. dictObjectDestructor log (Some k)), valDestructor = Some dictVanillaFree\<rparr>"

definition setDictType :: "byte list \<Rightarrow> (byte list, 'v, free_event list) dictType" where
  "setDictType seed =
     \<lparr>hashFunction = dictSdsHash seed, keyDup = None, valDup = None, keyCompare = Some dictSdsKeyCompare,
      keyDestructor = Some dictSdsDestructor, valDestructor = None\<rparr>"

definition zsetDictType :: "byte list \<Rightarrow> (byte list, 'v, free_event list) dictType" where
  "zsetDictType seed =
     \<lparr>hashFunction = dictSdsHash seed, keyDup = None, valDup = None, keyCompare = Some dictSdsKeyCompare,
      keyDestructor = None, valDestructor = None\<rparr>"

definition dbDictType :: "byte list \<Rightarrow> (byte list, strobj option, free_event list) dictType" where
  "dbDictType seed =
     \<lparr>hashFunction = dictSdsHash seed, keyDup = None, valDup = None, keyCompare = Some dictSdsKeyCompare,
      keyDestructor = Some dictSdsDestructor, valDestructor = Some dictObjectDestructor\<rparr>"

definition keyptrDictType :: "byte list \<Rightarrow> (byte list, 'v, free_event list) dictType" where
  "keyptrDictType seed =
     \<lparr>hashFunction = dictSdsHash seed, keyDup = None, valDup = None, keyCompare = Some dictSdsKeyCompare,
      keyDestructor = None, valDestructor = None\<rparr>"

definition hashDictType :: "byte list \<Rightarrow> (byte list, byte list, free_event list) dictType" where
  "hashDictType seed =
     \<lparr>hashFunction = dictSdsHash seed, keyDup = None, valDup = None, keyCompare = Some dictSdsKeyCompare,
      keyDestructor = Some dictSdsDestructor, valDestructor = Some dictSdsDestructor\<rparr>"

definition commandTableDictType :: "byte list \<Rightarrow> (byte list, 'v, free_event list) dictType" where
  "commandTableDictType seed =
     \<lparr>hashFunction = dictSdsCaseHash seed, keyDup = None, valDup = None, keyCompare = Some dictSdsKeyCaseCompare,
      keyDestructor = Some dictSdsDestructor, valDestructor = None\<rparr>"

definition keylistDictType :: "byte list \<Rightarrow> (strobj, nat, free_event list) dictType" where
  "keylistDictType seed =
     \<lparr>hashFunction = dictObjHash seed, keyDup = None, valDup = None, keyCompare = Some dictObjKeyCompare,
      keyDestructor = Some (\<lambda>log k. dictObjectDestructor log (Some k)), valDestructor = Some dictListDestructor\<rparr>"

section \<open>Resizing policy\<close>

definition HASHTABLE_MIN_FILL :: nat where "HASHTABLE_MIN_FILL = 10"

definition htNeedsResize :: "('k, 'v, 'p) dict \<Rightarrow> bool" where
  "htNeedsResize d =
     (let sz = dictSlots d; used = dictSize d in
      sz > DICT_HT_INITIAL_SIZE \<and> used * 100 div sz < HASHTABLE_MIN_FILL)"

definition tryResizeHashTables ::
  "bool \<Rightarrow> ('k, 'v, 'p) dict \<times> ('k2, 'v2, 'p2) dict \<Rightarrow> ('k, 'v, 'p) dict \<times> ('k2, 'v2, 'p2) dict" where
  "tryResizeHashTables can_resize = (\<lambda>(keys, expires).
     (if htNeedsResize keys then snd (dictResize can_resize keys) else keys,
      if htNeedsResize expires then snd (dictResize can_resize expires) else expires))"

definition incrementallyRehash ::
  "nat \<Rightarrow> (nat \<Rightarrow> int) \<Rightarrow> ('k, 'v, 'p) dict \<times> ('k2, 'v2, 'p2) dict
     \<Rightarrow> (bool \<times> ('k, 'v, 'p) dict \<times> ('k2, 'v2, 'p2) dict) option" where
  "incrementallyRehash fuel clock = (\<lambda>(keys, expires).
     if dictIsRehashing keys then do {
       (_, keys') \<leftarrow> dictRehashMilliseconds fuel clock keys 1; Some (True, keys', expires) }
     else if dictIsRehashing expires then do {
       (_, expires') \<leftarrow> dictRehashMilliseconds fuel clock expires 1; Some (True, keys, expires') }
     else Some (False, keys, expires))"

text \<open>The new value of \<^verbatim>\<open>dict_can_resize\<close>.\<close>

definition updateDictResizePolicy :: "int \<Rightarrow> int \<Rightarrow> bool" where
  "updateDictResizePolicy rdb_child_pid aof_child_pid = (rdb_child_pid = -1 \<and> aof_child_pid = -1)"

definition hasActiveChildProcess :: "int \<Rightarrow> int \<Rightarrow> bool" where
  "hasActiveChildProcess rdb_child_pid aof_child_pid = (rdb_child_pid \<noteq> -1 \<or> aof_child_pid \<noteq> -1)"

section \<open>The types satisfy the contract of the table\<close>

lemma dictSdsKeyCompare_eq [simp]: "dictSdsKeyCompare p k1 k2 \<longleftrightarrow> k1 = k2"
  by (auto simp: dictSdsKeyCompare_def Let_def memcmp_zero)

lemma sds_keys_contract:
  assumes "hashFunction T = dictSdsHash seed" "keyCompare T = Some dictSdsKeyCompare" "keyDup T = None"
  shows "dict_keys T (=)"
  by unfold_locales (auto simp: assms)

lemma sds_of_decoded: "sdsEncodedObject o1 \<Longrightarrow> sds_of o1 = obj_bytes o1"
  by (auto simp: sds_of_def obj_bytes_def split: str_ptr.splits)

lemma dictEncObjKeyCompare_bytes [simp]: "dictEncObjKeyCompare p k1 k2 \<longleftrightarrow> obj_bytes k1 = obj_bytes k2"
proof -
  obtain o1 o2 where o: "getDecodedObject k1 = Some o1" "sdsEncodedObject o1" "obj_bytes o1 = obj_bytes k1"
    "getDecodedObject k2 = Some o2" "sdsEncodedObject o2" "obj_bytes o2 = obj_bytes k2"
    using getDecodedObject_bytes by metis
  then show ?thesis
    by (cases "so_ptr k1"; cases "so_ptr k2")
      (simp_all add: dictEncObjKeyCompare_def sds_of_decoded, simp add: obj_bytes_def dec_int_inj)
qed

lemma dictEncObjHash_bytes: "dictEncObjHash seed k = siphash (obj_bytes k) seed"
  by (cases "so_ptr k")
    (simp_all add: dictEncObjHash_def dictGenHashFunction_def sds_of_def obj_bytes_def ll2buf_spec)

lemma enc_keys_contract:
  assumes "hashFunction T = dictEncObjHash seed" "keyCompare T = Some dictEncObjKeyCompare" "keyDup T = None"
  shows "dict_keys T (\<lambda>k1 k2. obj_bytes k1 = obj_bytes k2)"
  by unfold_locales (auto simp: assms dictEncObjHash_bytes)

interpretation db_keys: dict_keys "dbDictType seed" "(=)" for seed
  by (rule sds_keys_contract) (simp_all add: dbDictType_def)

interpretation expire_keys: dict_keys "keyptrDictType seed" "(=)" for seed
  by (rule sds_keys_contract) (simp_all add: keyptrDictType_def)

interpretation set_keys: dict_keys "setDictType seed" "(=)" for seed
  by (rule sds_keys_contract) (simp_all add: setDictType_def)

interpretation zset_keys: dict_keys "zsetDictType seed" "(=)" for seed
  by (rule sds_keys_contract) (simp_all add: zsetDictType_def)

interpretation hash_keys: dict_keys "hashDictType seed" "(=)" for seed
  by (rule sds_keys_contract) (simp_all add: hashDictType_def)

interpretation object_keys: dict_keys "objectKeyPointerValueDictType seed" "\<lambda>k1 k2. obj_bytes k1 = obj_bytes k2" for seed
  by (rule enc_keys_contract) (simp_all add: objectKeyPointerValueDictType_def)

interpretation watched_keys: dict_keys "keylistDictType seed" "\<lambda>k1 k2. sds_of k1 = sds_of k2" for seed
  by unfold_locales (auto simp: keylistDictType_def dictObjKeyCompare_def dictObjHash_def)

text \<open>For keys without a zero byte the case-insensitive type is consistent, too.\<close>

lemma case_keys_hash:
  assumes "0 \<notin> set k1" "0 \<notin> set k2" "dictSdsKeyCaseCompare p k1 k2"
  shows "dictSdsCaseHash seed k1 = dictSdsCaseHash seed k2"
proof -
  have "cstring k1 = k1" "cstring k2 = k2"
    using assms(1,2) by (auto simp: cstring_def takeWhile_eq_all_conv)
  with assms(3) show ?thesis
    by (simp add: dictSdsKeyCaseCompare_def dictSdsCaseHash_def dictGenCaseHashFunction_def siphash_nocase_lower)
qed

end
