(* ===== verification/Dict_Refine.thy ===== *)
theory Dict_Refine
  imports Server_Dict
begin

text \<open>
  The dictionary as an abstract data type: any sequence of operations, with resizing enabled
  or not at each of them and with rehashing steps anywhere, returns what the same sequence
  returns on a finite map.
\<close>

section \<open>Sequences of operations\<close>

datatype ('k, 'v) dict_op =
    OpAdd bool 'k 'v | OpReplace bool 'k 'v | OpDelete 'k | OpUnlink 'k | OpFetch 'k
  | OpRehash nat | OpResize bool | OpEmpty

datatype 'v dict_result = Flag bool | Value "'v option" | Done

definition dict_step ::
  "'v \<Rightarrow> ('k, 'v) dict_op \<Rightarrow> ('k, 'v, 'p) dict \<Rightarrow> ('v dict_result \<times> ('k, 'v, 'p) dict) option" where
  "dict_step undef op d = (case op of
     OpAdd can_resize k v \<Rightarrow> map_option (apfst Flag) (dictAdd can_resize undef d k v)
   | OpReplace can_resize k v \<Rightarrow> map_option (apfst Flag) (dictReplace can_resize undef d k v)
   | OpDelete k \<Rightarrow> map_option (apfst Flag) (dictDelete d k)
   | OpUnlink k \<Rightarrow> map_option (apfst (\<lambda>he. Value (map_option de_val he))) (dictUnlink d k)
   | OpFetch k \<Rightarrow> map_option (apfst Value) (dictFetchValue d k)
   | OpRehash n \<Rightarrow> map_option (\<lambda>(more, d'). (Done, d')) (dictRehash n d)
   | OpResize can_resize \<Rightarrow> Some (Done, snd (dictResize can_resize d))
   | OpEmpty \<Rightarrow> map_option (Pair Done) (dictEmpty d None))"

fun dict_run ::
  "'v \<Rightarrow> ('k, 'v) dict_op list \<Rightarrow> ('k, 'v, 'p) dict \<Rightarrow> ('v dict_result list \<times> ('k, 'v, 'p) dict) option" where
  "dict_run undef [] d = Some ([], d)"
| "dict_run undef (op # ops) d = do {
     (r, d1) \<leftarrow> dict_step undef op d;
     (rs, d2) \<leftarrow> dict_run undef ops d1;
     Some (r # rs, d2) }"

text \<open>The specification: a map with key equality \<open>same\<close>.\<close>

definition map_step ::
  "('k \<Rightarrow> 'k \<Rightarrow> bool) \<Rightarrow> ('k, 'v) dict_op \<Rightarrow> ('k \<Rightarrow> 'v option) \<Rightarrow> 'v dict_result \<times> ('k \<Rightarrow> 'v option)" where
  "map_step same op m = (case op of
     OpAdd _ k v \<Rightarrow> if m k = None then (Flag True, upd same m k (Some v)) else (Flag False, m)
   | OpReplace _ k v \<Rightarrow> (Flag (m k = None), upd same m k (Some v))
   | OpDelete k \<Rightarrow> (Flag (m k \<noteq> None), upd same m k None)
   | OpUnlink k \<Rightarrow> (Value (m k), upd same m k None)
   | OpFetch k \<Rightarrow> (Value (m k), m)
   | OpRehash _ \<Rightarrow> (Done, m)
   | OpResize _ \<Rightarrow> (Done, m)
   | OpEmpty \<Rightarrow> (Done, \<lambda>_. None))"

fun map_run ::
  "('k \<Rightarrow> 'k \<Rightarrow> bool) \<Rightarrow> ('k, 'v) dict_op list \<Rightarrow> ('k \<Rightarrow> 'v option) \<Rightarrow> 'v dict_result list \<times> ('k \<Rightarrow> 'v option)" where
  "map_run same [] m = ([], m)"
| "map_run same (op # ops) m =
     (let (r, m1) = map_step same op m; (rs, m2) = map_run same ops m1 in (r # rs, m2))"

section \<open>Refinement\<close>

text \<open>Rehashing and resizing keep the content, so they keep the map and the size.\<close>

lemma same_content_size:
  "dict_inv same d \<Longrightarrow> dict_inv same d' \<Longrightarrow> same_content d d' \<Longrightarrow> dictSize d' = dictSize d"
  by (auto simp: dict_inv_used same_content_def dest: mset_eq_length)

lemma dictResize_inv:
  assumes "dict_inv same d"
  shows "dict_inv same (snd (dictResize can_resize d))" "same_content d (snd (dictResize can_resize d))"
  using assms dictExpand_inv [OF assms] by (auto simp: dictResize_def Let_def)

context dict_keys
begin

lemma dict_step_refines:
  assumes inv: "dict_inv same d" and T: "d_type d = T" and small: "dictSize d < 2 ^ 62" and dup: "valDup T = None"
  shows "\<exists>d'. dict_step undef op d = Some (fst (map_step same op (dict_abs same d)), d') \<and> dict_inv same d'
    \<and> d_type d' = T \<and> dict_abs same d' = snd (map_step same op (dict_abs same d)) \<and> dictSize d' \<le> Suc (dictSize d)"
proof -
  have dv: "dup_val d v = v" for v using dup T by (simp add: dup_val_def)
  have keep: "d_type d' = T" "dict_abs same d' = dict_abs same d" "dictSize d' = dictSize d"
    if "dict_inv same d'" "same_content d d'" for d'
    using that T same_content_abs [OF inv that(2)] same_content_size [OF inv that] by (auto simp: same_content_def)
  show ?thesis
  proof (cases op)
    case (OpAdd c k v)
    from dictAdd_map [OF inv T small, of c undef k v] obtain ok d' where
      "dictAdd c undef d k v = Some (ok, d')" "dict_inv same d'" "d_type d' = T"
      "ok \<longleftrightarrow> dict_abs same d k = None" "dictSize d' = dictSize d + (if ok then 1 else 0)"
      "dict_abs same d' = (if ok then upd same (dict_abs same d) k (Some v) else dict_abs same d)"
      using dv by auto
    with OpAdd show ?thesis by (intro exI [of _ d']) (auto simp: dict_step_def map_step_def)
  next
    case (OpReplace c k v)
    from dictReplace_map [OF inv T small, of c undef k v] obtain added d' where
      "dictReplace c undef d k v = Some (added, d')" "dict_inv same d'" "d_type d' = T"
      "added \<longleftrightarrow> dict_abs same d k = None" "dictSize d' = dictSize d + (if added then 1 else 0)"
      "dict_abs same d' = upd same (dict_abs same d) k (Some v)"
      using dv by auto
    with OpReplace show ?thesis by (intro exI [of _ d']) (auto simp: dict_step_def map_step_def)
  next
    case (OpDelete k)
    from dictGenericDelete_map [OF inv T, of k False] obtain he d' where
      "dictGenericDelete d k False = Some (he, d')" "dict_inv same d'" "d_type d' = T"
      "dict_abs same d k = map_option de_val he" "dict_abs same d' = upd same (dict_abs same d) k None"
      "dictSize d' \<le> Suc (dictSize d)" by fastforce
    with OpDelete show ?thesis
      by (intro exI [of _ d'], cases he) (auto simp: dict_step_def map_step_def dictDelete_def)
  next
    case (OpUnlink k)
    from dictGenericDelete_map [OF inv T, of k True] obtain he d' where
      "dictGenericDelete d k True = Some (he, d')" "dict_inv same d'" "d_type d' = T"
      "dict_abs same d k = map_option de_val he" "dict_abs same d' = upd same (dict_abs same d) k None"
      "dictSize d' \<le> Suc (dictSize d)" by fastforce
    with OpUnlink show ?thesis
      by (intro exI [of _ d'], cases he) (auto simp: dict_step_def map_step_def dictUnlink_def)
  next
    case (OpFetch k)
    from dictFetchValue_map [OF inv T, of k] obtain d' where
      d': "dictFetchValue d k = Some (dict_abs same d k, d')" "dict_inv same d'" "same_content d d'" by blast
    with OpFetch keep [OF d'(2,3)] show ?thesis
      by (intro exI [of _ d']) (auto simp: dict_step_def map_step_def)
  next
    case (OpRehash n)
    from dictRehash_keeps [OF inv, of n] obtain more d' where
      d': "dictRehash n d = Some (more, d')" "dict_inv same d'" "same_content d d'" by blast
    with OpRehash keep [OF d'(2,3)] show ?thesis
      by (intro exI [of _ d']) (auto simp: dict_step_def map_step_def)
  next
    case (OpResize c)
    with dictResize_inv [OF inv, of c] keep [OF dictResize_inv [OF inv, of c]] show ?thesis
      by (auto simp: dict_step_def map_step_def)
  next
    case OpEmpty
    from dictEmpty_spec [OF inv, of None] obtain d' where
      "dictEmpty d None = Some d'" "dict_inv same d'" "dict_entries d' = []" "dictSize d' = 0" "d_type d' = T"
      using T by blast
    with OpEmpty show ?thesis
      by (intro exI [of _ d']) (auto simp: dict_step_def map_step_def dict_abs_def)
  qed
qed

lemma dict_run_refines:
  assumes "dict_inv same d" "d_type d = T" "dictSize d + length ops < 2 ^ 62" "valDup T = None"
  shows "\<exists>d'. dict_run undef ops d = Some (fst (map_run same ops (dict_abs same d)), d') \<and> dict_inv same d'
    \<and> dict_abs same d' = snd (map_run same ops (dict_abs same d))"
  using assms
proof (induction ops arbitrary: d)
  case (Cons op ops)
  from dict_step_refines [OF Cons.prems(1,2) _ Cons.prems(4), of undef op] Cons.prems(3) obtain d1 where
    1: "dict_step undef op d = Some (fst (map_step same op (dict_abs same d)), d1)" "dict_inv same d1" "d_type d1 = T"
      "dict_abs same d1 = snd (map_step same op (dict_abs same d))" "dictSize d1 \<le> Suc (dictSize d)"
    by auto
  moreover from 1(5) Cons.prems(3) have "dictSize d1 + length ops < 2 ^ 62" by simp
  ultimately show ?case
    using Cons.IH [of d1] Cons.prems(4) by (auto simp: Let_def split: prod.splits)
qed simp

end

lemma dictCreate_inv [simp]:
  "dict_inv same (dictCreate T p)" "dict_abs same (dictCreate T p) = (\<lambda>_. None)" "d_type (dictCreate T p) = T"
  "dictSize (dictCreate T p) = 0"
  by (auto simp: dictCreate_def dictInit_def dict_inv_def dict_entries_def dictIsRehashing_def dict_abs_def
      dictSize_def fun_eq_iff)



section \<open>Scanning, iterating, sampling and releasing\<close>

text \<open>A small dictionary in the middle of a rehashing, for the examples below.\<close>

definition sample_type :: "(nat, nat, nat list) dictType" where
  "sample_type = \<lparr>hashFunction = of_nat, keyDup = None, valDup = None, keyCompare = None,
     keyDestructor = Some (\<lambda>log k. log @ [k]), valDestructor = None\<rparr>"

definition sample_dict :: "(nat, nat, nat list) dict" where
  "sample_dict = \<lparr>d_type = sample_type, privdata = [],
     ht0 = \<lparr>ht_table = [[], [\<lparr>de_key = 5, de_val = 50\<rparr>, \<lparr>de_key = 1, de_val = 10\<rparr>], [], []],
            ht_size = 4, ht_sizemask = 3, ht_used = 2\<rparr>,
     ht1 = \<lparr>ht_table = [[], [], [], [], [\<lparr>de_key = 4, de_val = 40\<rparr>], [], [], []],
            ht_size = 8, ht_sizemask = 7, ht_used = 1\<rparr>,
     rehashidx = 1, iterators = 0\<rparr>"

lemma sample_dict_live:
  "ht_live of_nat (ht0 sample_dict)" "ht_live of_nat (ht1 sample_dict)"
proof -
  have "\<forall>i<4. \<forall>e\<in>set (ht_table (ht0 sample_dict) ! i). ht_idx (ht0 sample_dict) (of_nat (de_key e)) = i"
    by (auto simp: sample_dict_def ht_idx_def less_Suc_eq numeral_eq_Suc)
  then show "ht_live of_nat (ht0 sample_dict)"
    unfolding ht_live_def by (intro bexI [of _ 2]) (simp_all add: sample_dict_def ht_entries_def mask_eq_exp_minus_1)
  have "\<forall>i \<in> {0, 1, 2, 3, 4, 5, 6, 7}. \<forall>e\<in>set (ht_table (ht1 sample_dict) ! i).
      ht_idx (ht1 sample_dict) (of_nat (de_key e)) = i"
    by (simp add: sample_dict_def ht_idx_def)
  moreover have "i \<in> {0, 1, 2, 3, 4, 5, 6, 7}" if "i < 8" for i :: nat using that by auto
  ultimately have "\<forall>i<8. \<forall>e\<in>set (ht_table (ht1 sample_dict) ! i).
      ht_idx (ht1 sample_dict) (of_nat (de_key e)) = i" by blast
  then show "ht_live of_nat (ht1 sample_dict)"
    unfolding ht_live_def by (intro bexI [of _ 3]) (simp_all add: sample_dict_def ht_entries_def mask_eq_exp_minus_1)
qed

lemma sample_dict_inv: "dict_inv (=) sample_dict"
  using sample_dict_live
  by (auto simp: dict_inv_def rehash_inv_def dictIsRehashing_def uniq_keys_def dict_entries_def ht_entries_def
      sample_dict_def sample_type_def)

text \<open>C3: a complete \<^verbatim>\<open>SCAN\<close> of the key space (a sequence of \<^verbatim>\<open>dictScan\<close> calls from cursor 0
  until the cursor is 0 again) reports every key that is in the dictionary at each of the
  calls, with one of its values, whatever is inserted, deleted, resized or rehashed between the calls:
  \<open>ds\<close> are the successive states of the dictionary.\<close>

theorem dictScan_complete:
  assumes "ds \<noteq> []" "\<forall>d \<in> set ds. dict_inv (=) d \<and> d_type d = dbDictType seed \<and> dict_abs (=) d k \<noteq> None"
    and "scan_run bucketfn ds 0 = Some (0, es)"
  shows "\<exists>e. EmitEntry e \<in> set es \<and> de_key e = k \<and> (\<exists>d \<in> set ds. dict_abs (=) d k = Some (de_val e))"
  using db_keys.scan_run_finds [OF assms(2,3)] assms(1) by auto

theorem dictScan_complete_witness:
  "\<exists>ds es. ds \<noteq> []
     \<and> (\<forall>d \<in> set ds. dict_inv (=) d \<and> d_type d = dbDictType [1] \<and> dict_abs (=) d [7] \<noteq> None)
     \<and> scan_run False ds 0 = Some (0, es)
     \<and> (\<exists>e. EmitEntry e \<in> set es \<and> de_key e = [7] \<and> (\<exists>d \<in> set ds. dict_abs (=) d [7] = Some (de_val e)))"
proof -
  from db_keys.dictAdd_map [of "dictCreate (dbDictType [1]) []" "[1]" True None "[7]" None] obtain d where
    d: "dict_inv (=) d" "d_type d = dbDictType [1]" "dict_abs (=) d [7] \<noteq> None" "dictSize d \<noteq> 0"
    by (auto simp: upd_def)
  then obtain j where "scan_bits d j" using scan_bits_exists by blast
  from scan_run_static_complete [OF d(1,4) this, of False] obtain es where
    "scan_run False (replicate (2 ^ j) d) 0 = Some (0, es)" by blast
  with dictScan_complete [of "replicate (2 ^ j) d" "[1]" "[7]" False es] d show ?thesis
    by (intro exI [of _ "replicate (2 ^ j) d"] exI [of _ es]) simp
qed

text \<open>C13: when nothing changes, the scan returns to cursor 0 after one call per bucket of the
  smaller table, and it reports exactly the entries of the dictionary.\<close>

theorem dictScan_terminates:
  assumes "dict_inv (=) d" "dictSize d \<noteq> 0"
  shows "\<exists>n es. n \<le> ht_size (ht0 d) \<and> scan_run bucketfn (replicate n d) 0 = Some (0, es)
    \<and> {e. EmitEntry e \<in> set es} = set (dict_entries d)"
proof -
  obtain j where j: "scan_bits d j" using scan_bits_exists assms by blast
  then have "2 ^ j \<le> ht_size (ht0 d)" by (auto simp: scan_bits_def split: if_splits)
  then show ?thesis using scan_run_static_complete [OF assms j, of bucketfn] by blast
qed

theorem dictScan_terminates_witness:
  "dict_inv (=) sample_dict \<and> dictSize sample_dict \<noteq> 0
   \<and> (\<exists>n es. n \<le> 4 \<and> scan_run True (replicate n sample_dict) 0 = Some (0, es)
        \<and> {e. EmitEntry e \<in> set es} = {\<lparr>de_key = 5, de_val = 50\<rparr>, \<lparr>de_key = 1, de_val = 10\<rparr>, \<lparr>de_key = 4, de_val = 40\<rparr>})"
proof -
  have ne: "dictSize sample_dict \<noteq> 0" by (simp add: dictSize_def sample_dict_def)
  have "set (dict_entries sample_dict) = {\<lparr>de_key = 5, de_val = 50\<rparr>, \<lparr>de_key = 1, de_val = 10\<rparr>, \<lparr>de_key = 4, de_val = 40\<rparr>}"
    "ht_size (ht0 sample_dict) = 4"
    by (auto simp: dict_entries_def ht_entries_def sample_dict_def)
  with dictScan_terminates [OF sample_dict_inv ne, of True] sample_dict_inv ne show ?thesis by simp
qed

text \<open>C16: the loop \<^verbatim>\<open>while ((de = dictNext(di)) != NULL)\<close>, with a safe or an unsafe iterator on a
  dictionary that does not change, ends and visits every entry of both tables exactly once.\<close>

theorem dictNext_visits_all:
  assumes "dict_inv same d" "1 + ht_size (ht0 d) + ht_size (ht1 d) < fuel" "dictSize d < n"
    "it \<in> {dictGetIterator, dictGetSafeIterator}"
  shows "\<exists>it' m. iterate n fuel fp it d = Some (dict_entries d, it', d\<lparr>iterators := m\<rparr>)"
  by (rule iterate_all [OF assms])

theorem dictNext_visits_all_witness:
  "\<exists>it' m. iterate 4 14 (\<lambda>_. 0) dictGetSafeIterator sample_dict
     = Some (dict_entries sample_dict, it', sample_dict\<lparr>iterators := m\<rparr>)"
  by (rule dictNext_visits_all [OF sample_dict_inv])
    (simp_all add: sample_dict_def dictSize_def)

text \<open>C17: \<^verbatim>\<open>dictRelease\<close> calls the destructors once for the key and the value of every entry, and
  for nothing else, also when it is called in the middle of a rehashing.\<close>

theorem dictRelease_frees_once:
  assumes "dict_inv same d"
  shows "dictRelease d = Some (fold (free_effect (d_type d)) (dict_entries d) (privdata d))"
  by (rule dictRelease_spec [OF assms])

theorem dictRelease_frees_once_witness: "dictRelease sample_dict = Some [5, 1, 4]"
  using dictRelease_frees_once [OF sample_dict_inv]
  by (simp add: dict_entries_def ht_entries_def sample_dict_def free_effect_def sample_type_def Let_def)

text \<open>C22: whatever \<^verbatim>\<open>random()\<close> returns, \<^verbatim>\<open>dictGetSomeKeys\<close> stays inside both tables, returns at most
  the number of entries asked for, all of them entries of the dictionary, and leaves the
  content of the dictionary unchanged.\<close>

theorem dictGetSomeKeys_sound:
  assumes "dict_inv (=) d" "d_type d = dbDictType seed"
  shows "\<exists>es n' d'. dictGetSomeKeys rnd n d cnt = Some (es, n', d') \<and> length es \<le> cnt \<and> length es \<le> dictSize d
    \<and> set es \<subseteq> set (dict_entries d) \<and> dict_inv (=) d' \<and> same_content d d'"
  by (rule db_keys.dictGetSomeKeys_entries [OF assms])

theorem dictGetSomeKeys_sound_witness:
  "\<exists>d. dict_inv (=) d \<and> d_type d = dbDictType [1] \<and> dictSize d = 1
     \<and> (\<exists>es n' d'. dictGetSomeKeys (\<lambda>n. n) 0 d 5 = Some (es, n', d') \<and> length es \<le> 1)"
proof -
  from db_keys.dictAdd_map [of "dictCreate (dbDictType [1]) []" "[1]" True None "[7]" None] obtain d where
    d: "dict_inv (=) d" "d_type d = dbDictType [1]" "dictSize d = 1"
    by (auto simp: upd_def)
  with dictGetSomeKeys_sound [OF d(1,2), of "\<lambda>n. n" 0 5] show ?thesis by auto
qed

text \<open>C23: the rehashing of the server's cron ends even if the clock stands still: with fuel for one
  round per bucket, \<^verbatim>\<open>dictRehashMilliseconds\<close> returns, and the dictionary keeps its content.\<close>

theorem dictRehashMilliseconds_terminates:
  assumes "dict_inv (=) d" "ht_size (ht0 d) + 1 < fuel"
  shows "\<exists>r d'. dictRehashMilliseconds fuel clock d ms = Some (r, d') \<and> dict_inv (=) d' \<and> same_content d d'"
proof -
  have "-1 \<le> rehashidx d"
    using assms(1) by (auto simp: dict_inv_def rehash_inv_def dictIsRehashing_def split: if_splits)
  then have "nat (int (ht_size (ht0 d)) - rehashidx d) < fuel" using assms(2) by linarith
  from rehash_ms_loop_total [OF assms(1) this] show ?thesis by (simp add: dictRehashMilliseconds_def)
qed

theorem dictRehashMilliseconds_terminates_witness:
  "\<exists>r d'. dictRehashMilliseconds 6 (\<lambda>_. 0) sample_dict 1 = Some (r, d') \<and> same_content sample_dict d'"
  using dictRehashMilliseconds_terminates [OF sample_dict_inv, of 6 "\<lambda>_. 0" 1] by (auto simp: sample_dict_def)

end
