(* ===== verification/Slowlog.thy ===== *)
theory Slowlog
  imports Adlist_Refine Server_Dict
begin

text \<open>
  The slow log of \<^verbatim>\<open>slowlog.c\<close>, kept in an \<^verbatim>\<open>adlist\<close>: newest entry first, trimmed from the
  tail. What the log needs from the list is stated by the locale \<open>log_store\<close>; the adlist
  model is an instance of it.
\<close>

section \<open>Entries\<close>

definition SLOWLOG_ENTRY_MAX_ARGC :: nat where "SLOWLOG_ENTRY_MAX_ARGC = 32"
definition SLOWLOG_ENTRY_MAX_STRING :: nat where "SLOWLOG_ENTRY_MAX_STRING = 128"

record slowlogEntry =
  se_argv :: "strobj list"
  se_id :: int
  se_duration :: int
  se_time :: int
  se_cname :: "byte list"
  se_peerid :: "byte list"

text \<open>The object for one logged argument. Appending doubles the room of an SDS string.\<close>

definition slowlog_arg :: "strobj \<Rightarrow> strobj" where
  "slowlog_arg a =
     (let s = sds_of a in
      if sdsEncodedObject a \<and> length s > SLOWLOG_ENTRY_MAX_STRING then
        let t = take SLOWLOG_ENTRY_MAX_STRING s @ bytes_of ''... ('' @
                  dec (length s - SLOWLOG_ENTRY_MAX_STRING) @ bytes_of '' more bytes)''
        in \<lparr>so_ptr = RawPtr t (length t), refcount = 1\<rparr>
      else if refcount a = OBJ_SHARED_REFCOUNT then a
      else dupStringObject a)"

definition more_arguments :: "nat \<Rightarrow> strobj" where
  "more_arguments n =
     (let t = bytes_of ''... ('' @ dec n @ bytes_of '' more arguments)''
      in \<lparr>so_ptr = RawPtr t (length t), refcount = 1\<rparr>)"

definition slowlogCreateEntry ::
  "byte list \<Rightarrow> byte list option \<Rightarrow> int \<Rightarrow> int \<Rightarrow> strobj list \<Rightarrow> int \<Rightarrow> slowlogEntry" where
  "slowlogCreateEntry peerid name now eid argv duration =
     (let argc = length argv;
          slargc = (if argc > SLOWLOG_ENTRY_MAX_ARGC then SLOWLOG_ENTRY_MAX_ARGC else argc)
      in \<lparr>se_argv = map (\<lambda>j. if slargc \<noteq> argc \<and> j = slargc - 1 then more_arguments (argc - slargc + 1)
                              else slowlog_arg (argv ! j)) [0..<slargc],
          se_id = eid, se_duration = duration, se_time = now,
          se_cname = (case name of Some n \<Rightarrow> n | None \<Rightarrow> []), se_peerid = peerid\<rparr>)"

text \<open>What freeing an entry does to its arguments: \<open>None\<close> is the panic of \<^verbatim>\<open>decrRefCount\<close>.\<close>

definition slowlogFreeEntry :: "slowlogEntry \<Rightarrow> strobj option list option" where
  "slowlogFreeEntry se = those (map decrRefCount (se_argv se))"

section \<open>The log\<close>

record slowlog_srv =
  sl_list :: "slowlogEntry adlist"
  sl_mem :: "slowlogEntry store"
  sl_entry_id :: int

definition slowlogInit :: "slowlogEntry store \<Rightarrow> slowlog_srv" where
  "slowlogInit m = \<lparr>sl_list = listCreate\<lparr>free_method := True\<rparr>, sl_mem = m, sl_entry_id = 0\<rparr>"

text \<open>The two list operations of the log; a list and its store together are the state.\<close>

definition log_push ::
  "'v allocator \<Rightarrow> 'v \<Rightarrow> 'v adlist \<times> 'v store \<Rightarrow> ('v adlist \<times> 'v store) option" where
  "log_push zm v = (\<lambda>(l, m). do {
     (r, m') \<leftarrow> listAddNodeHead zm l v m;
     Some (case r of Some l' \<Rightarrow> l' | None \<Rightarrow> l, m') })"

definition log_drop :: "'v adlist \<times> 'v store \<Rightarrow> ('v adlist \<times> 'v store) option" where
  "log_drop = (\<lambda>(l, m). listDelNode l (tail l) m)"

text \<open>\<^verbatim>\<open>while (listLength(log) > max) listDelNode(log, listLast(log))\<close>, with fuel.\<close>

fun trim_loop :: "('s \<Rightarrow> nat) \<Rightarrow> ('s \<Rightarrow> 's option) \<Rightarrow> nat \<Rightarrow> nat \<Rightarrow> 's \<Rightarrow> 's option" where
  "trim_loop size_of drop1 0 mx s = None"
| "trim_loop size_of drop1 (Suc fuel) mx s =
     (if size_of s > mx then do { s' \<leftarrow> drop1 s; trim_loop size_of drop1 fuel mx s' } else Some s)"

definition log_len :: "'v adlist \<times> 'v store \<Rightarrow> nat" where
  "log_len s = len (fst s)"

record slowlog_config =
  slowlog_log_slower_than :: int
  slowlog_max_len :: nat

definition slowlogPushEntryIfNeeded ::
  "slowlogEntry allocator \<Rightarrow> slowlog_config \<Rightarrow> byte list \<Rightarrow> byte list option \<Rightarrow> int \<Rightarrow> strobj list \<Rightarrow> int
     \<Rightarrow> slowlog_srv \<Rightarrow> slowlog_srv option" where
  "slowlogPushEntryIfNeeded zm cfg peerid name now argv duration srv =
     (if slowlog_log_slower_than cfg < 0 then Some srv
      else do {
        (s, eid) \<leftarrow>
          (if duration \<ge> slowlog_log_slower_than cfg then do {
             s \<leftarrow> log_push zm (slowlogCreateEntry peerid name now (sl_entry_id srv) argv duration) (sl_list srv, sl_mem srv);
             Some (s, sl_entry_id srv + 1) }
           else Some ((sl_list srv, sl_mem srv), sl_entry_id srv));
        (l, m) \<leftarrow> trim_loop log_len log_drop (Suc (log_len s)) (slowlog_max_len cfg) s;
        Some (srv\<lparr>sl_list := l, sl_mem := m, sl_entry_id := eid\<rparr>) })"

definition slowlogReset :: "slowlog_srv \<Rightarrow> slowlog_srv option" where
  "slowlogReset srv = do {
     (l, m) \<leftarrow> trim_loop log_len log_drop (Suc (len (sl_list srv))) 0 (sl_list srv, sl_mem srv);
     Some (srv\<lparr>sl_list := l, sl_mem := m\<rparr>) }"

text \<open>The loop of \<^verbatim>\<open>SLOWLOG GET\<close>; a negative count never reaches zero.\<close>

fun slowlog_get :: "nat \<Rightarrow> int \<Rightarrow> listIter \<Rightarrow> 'v store \<Rightarrow> 'v list option" where
  "slowlog_get 0 cnt li m = None"
| "slowlog_get (Suc fuel) cnt li m =
     (if cnt = 0 then Some []
      else do {
        (ln, li') \<leftarrow> listNext li m;
        (case ln of
           None \<Rightarrow> Some []
         | Some a \<Rightarrow> do {
             nd \<leftarrow> cells m a;
             rest \<leftarrow> slowlog_get fuel (cnt - 1) li' m;
             Some (node_value nd # rest) }) })"

datatype slowlog_reply =
  SlHelp | SlOk | SlLen nat | SlEntries "slowlogEntry list" | SlError string | SlSyntaxError

definition slowlogCommand :: "strobj list \<Rightarrow> slowlog_srv \<Rightarrow> (slowlog_reply \<times> slowlog_srv) option" where
  "slowlogCommand argv srv =
     (let argc = length argv; sub = sds_of (argv ! 1) in
      if argc = 2 \<and> strcasecmp_eq sub (bytes_of ''help'') then Some (SlHelp, srv)
      else if argc = 2 \<and> strcasecmp_eq sub (bytes_of ''reset'') then do {
        srv' \<leftarrow> slowlogReset srv; Some (SlOk, srv') }
      else if argc = 2 \<and> strcasecmp_eq sub (bytes_of ''len'') then Some (SlLen (len (sl_list srv)), srv)
      else if (argc = 2 \<or> argc = 3) \<and> strcasecmp_eq sub (bytes_of ''get'') then
        (case (if argc = 3 then getLongFromObjectOrReply (Some (argv ! 2)) None else Inr 10) of
           Inl e \<Rightarrow> Some (SlError e, srv)
         | Inr cnt \<Rightarrow> do {
             es \<leftarrow> slowlog_get (Suc (len (sl_list srv))) cnt (listRewind (sl_list srv)) (sl_mem srv);
             Some (SlEntries es, srv) })
      else Some (SlSyntaxError, srv))"

section \<open>What the log needs of its list\<close>

text \<open>
  \<open>content s vs\<close>: the state holds the values \<open>vs\<close>, newest first.
\<close>

locale log_store =
  fixes push :: "'v \<Rightarrow> 's \<Rightarrow> 's option" and drop1 :: "'s \<Rightarrow> 's option" and size_of :: "'s \<Rightarrow> nat"
    and content :: "'s \<Rightarrow> 'v list \<Rightarrow> bool"
  assumes push_content: "content s vs \<Longrightarrow> \<exists>s'. push v s = Some s' \<and> content s' (v # vs)"
    and drop_content: "content s (vs @ [v]) \<Longrightarrow> \<exists>s'. drop1 s = Some s' \<and> content s' vs"
    and size_content: "content s vs \<Longrightarrow> size_of s = length vs"
begin

lemma trim_content:
  assumes "content s vs" "length vs < fuel"
  shows "\<exists>s'. trim_loop size_of drop1 fuel mx s = Some s' \<and> content s' (take mx vs)"
  using assms
proof (induction fuel arbitrary: s vs)
  case (Suc fuel)
  show ?case
  proof (cases "length vs > mx")
    case True
    then obtain ws v where vs: "vs = ws @ [v]" by (cases vs rule: rev_cases) auto
    with drop_content Suc.prems(1) obtain s' where s': "drop1 s = Some s'" "content s' ws" by blast
    have "length ws < fuel" using Suc.prems(2) vs by simp
    from Suc.IH [OF s'(2) this] show ?thesis
      using True s'(1) vs size_content [OF Suc.prems(1)] by auto
  qed (use Suc.prems size_content in auto)
qed simp

lemma push_trim_content:
  assumes "content s vs"
  shows "\<exists>s' s''. push v s = Some s' \<and> size_of s' = Suc (length vs)
    \<and> trim_loop size_of drop1 (Suc (size_of s')) mx s' = Some s'' \<and> content s'' (take mx (v # vs))"
proof -
  from push_content [OF assms] obtain s' where s': "push v s = Some s'" "content s' (v # vs)" by blast
  from trim_content [OF s'(2), of "Suc (size_of s')" mx] s' size_content [OF s'(2)] show ?thesis by auto
qed

end

interpretation adlist_log: log_store "log_push first_free" log_drop log_len holds
proof
  fix s :: "'v adlist \<times> 'v store" and vs v
  obtain l m where s: "s = (l, m)" by (cases s)
  show "holds s vs \<Longrightarrow> \<exists>s'. log_push first_free v s = Some s' \<and> holds s' (v # vs)"
    using list_step_refines [of s vs "LAddHead v"] s by (simp add: list_step_def log_push_def)
  show "holds s vs \<Longrightarrow> log_len s = length vs"
    by (auto simp: holds_def log_len_def list_rep_def)
  assume c: "holds s (vs @ [v])"
  then obtain ns where ns: "list_rep m l ns" "map snd ns = vs @ [v]" using s by (auto simp: holds_def)
  have "listIndex l (- 1) m = Some (tail l)" by (simp add: listIndex_def)
  moreover have "tail l \<noteq> None" using ns dlseg_last_None [of "cells m" None "head l" ns None]
    by (cases "tail l") (auto simp: list_rep_def)
  ultimately have "list_step first_free (LDel (- 1)) s = log_drop s"
    using s by (auto simp: list_step_def log_drop_def)
  moreover have "spec_step (LDel (- 1)) (vs @ [v]) = vs" by (simp add: norm_index_def)
  ultimately show "\<exists>s'. log_drop s = Some s' \<and> holds s' vs"
    using list_step_refines [OF c, of "LDel (- 1)"] by simp
qed

section \<open>The log holds the most recent slow commands\<close>

record slow_cmd =
  sc_config :: slowlog_config
  sc_peerid :: "byte list"
  sc_name :: "byte list option"
  sc_now :: int
  sc_argv :: "strobj list"
  sc_duration :: int

fun slowlog_run :: "slowlogEntry allocator \<Rightarrow> slow_cmd list \<Rightarrow> slowlog_srv \<Rightarrow> slowlog_srv option" where
  "slowlog_run zm [] srv = Some srv"
| "slowlog_run zm (c # cs) srv = do {
     srv' \<leftarrow> slowlogPushEntryIfNeeded zm (sc_config c) (sc_peerid c) (sc_name c) (sc_now c) (sc_argv c) (sc_duration c) srv;
     slowlog_run zm cs srv' }"

text \<open>The specification: a bounded list, newest first, with consecutive identifiers.\<close>

definition spec_push :: "slow_cmd \<Rightarrow> slowlogEntry list \<times> int \<Rightarrow> slowlogEntry list \<times> int" where
  "spec_push c = (\<lambda>(log, eid).
     if slowlog_log_slower_than (sc_config c) < 0 then (log, eid)
     else if sc_duration c \<ge> slowlog_log_slower_than (sc_config c)
     then (take (slowlog_max_len (sc_config c))
             (slowlogCreateEntry (sc_peerid c) (sc_name c) (sc_now c) eid (sc_argv c) (sc_duration c) # log), eid + 1)
     else (take (slowlog_max_len (sc_config c)) log, eid))"

definition srv_holds :: "slowlog_srv \<Rightarrow> slowlogEntry list \<times> int \<Rightarrow> bool" where
  "srv_holds srv spec \<longleftrightarrow> holds (sl_list srv, sl_mem srv) (fst spec) \<and> sl_entry_id srv = snd spec"

lemma slowlogPush_spec:
  assumes "srv_holds srv spec"
  shows "\<exists>srv'. slowlogPushEntryIfNeeded first_free (sc_config c) (sc_peerid c) (sc_name c) (sc_now c) (sc_argv c)
      (sc_duration c) srv = Some srv' \<and> srv_holds srv' (spec_push c spec)"
proof -
  obtain log eid where spec: "spec = (log, eid)" by (cases spec)
  have log: "holds (sl_list srv, sl_mem srv) log" "sl_entry_id srv = eid"
    using assms spec by (auto simp: srv_holds_def)
  let ?e = "slowlogCreateEntry (sc_peerid c) (sc_name c) (sc_now c) eid (sc_argv c) (sc_duration c)"
  let ?mx = "slowlog_max_len (sc_config c)"
  consider (off) "slowlog_log_slower_than (sc_config c) < 0"
    | (slow) "0 \<le> slowlog_log_slower_than (sc_config c)" "sc_duration c \<ge> slowlog_log_slower_than (sc_config c)"
    | (fast) "0 \<le> slowlog_log_slower_than (sc_config c)" "sc_duration c < slowlog_log_slower_than (sc_config c)"
    by linarith
  then show ?thesis
  proof cases
    case off
    then show ?thesis using assms spec by (auto simp: slowlogPushEntryIfNeeded_def spec_push_def)
  next
    case slow
    from adlist_log.push_trim_content [OF log(1), of ?e ?mx] obtain s1 l m where
      "log_push first_free ?e (sl_list srv, sl_mem srv) = Some s1" "log_len s1 = Suc (length log)"
      "trim_loop log_len log_drop (Suc (log_len s1)) ?mx s1 = Some (l, m)" "holds (l, m) (take ?mx (?e # log))"
      by (metis surj_pair)
    with slow log(2) spec show ?thesis
      by (auto simp: slowlogPushEntryIfNeeded_def spec_push_def srv_holds_def simp del: trim_loop.simps)
  next
    case fast
    have "length log < Suc (log_len (sl_list srv, sl_mem srv))"
      using adlist_log.size_content [OF log(1)] by simp
    from adlist_log.trim_content [OF log(1) this, of ?mx] obtain l m where
      "trim_loop log_len log_drop (Suc (log_len (sl_list srv, sl_mem srv))) ?mx (sl_list srv, sl_mem srv) = Some (l, m)"
      "holds (l, m) (take ?mx log)" by (metis surj_pair)
    with fast log(2) spec show ?thesis
      by (auto simp: slowlogPushEntryIfNeeded_def spec_push_def srv_holds_def simp del: trim_loop.simps)
  qed
qed

lemma slowlog_run_spec:
  "srv_holds srv spec \<Longrightarrow> \<exists>srv'. slowlog_run first_free cs srv = Some srv' \<and> srv_holds srv' (fold spec_push cs spec)"
proof (induction cs arbitrary: srv spec)
  case (Cons c cs)
  from slowlogPush_spec [OF Cons.prems, of c] obtain srv1 where
    1: "slowlogPushEntryIfNeeded first_free (sc_config c) (sc_peerid c) (sc_name c) (sc_now c) (sc_argv c)
      (sc_duration c) srv = Some srv1" "srv_holds srv1 (spec_push c spec)" by blast
  from Cons.IH [OF 1(2)] 1(1) show ?case by simp
qed simp

lemma slowlog_get_dlseg:
  assumes "dlseg (cells m) p x ns l None" "length ns < fuel"
  shows "slowlog_get fuel cnt \<lparr>iter_next = x, iter_dir = AL_START_HEAD\<rparr> m
    = Some (if cnt < 0 then map snd ns else take (nat cnt) (map snd ns))"
  using assms
proof (induction ns arbitrary: p x cnt fuel)
  case Nil
  then show ?case by (cases fuel) (auto simp: listNext_def)
next
  case (Cons n ns)
  obtain a v where n: "n = (a, v)" by (cases n)
  obtain g where g: "fuel = Suc g" "length ns < g" using Cons.prems(2) by (cases fuel) auto
  from Cons.prems(1) n obtain y where y: "x = Some a"
    "cells m a = Some \<lparr>node_prev = p, node_next = y, node_value = v\<rparr>" "dlseg (cells m) (Some a) y ns l None"
    by (auto simp: dlseg_Cons simp del: dlseg.simps)
  from Cons.IH [OF y(3) g(2), of "cnt - 1"] show ?case
    using g(1) y n by (auto simp: listNext_def AL_START_HEAD_def nat_diff_distrib' take_Cons' split: if_splits)
qed

lemma slowlog_get_content:
  assumes "holds (l, m) vs"
  shows "slowlog_get (Suc (len l)) cnt (listRewind l) m = Some (if cnt < 0 then vs else take (nat cnt) vs)"
proof -
  from assms obtain ns where "list_rep m l ns" "map snd ns = vs" by (auto simp: holds_def)
  then show ?thesis
    using slowlog_get_dlseg [of m None "head l" ns "tail l" "Suc (len l)" cnt]
    by (simp add: list_rep_def listRewind_def)
qed

text \<open>C12: after any sequence of commands, with any changes of the configuration in between, the
  slow log holds exactly the most recent slow commands, newest first, with consecutive
  identifiers and at most \<^verbatim>\<open>slowlog-max-len\<close> of them; \<^verbatim>\<open>SLOWLOG GET\<close>, \<^verbatim>\<open>SLOWLOG GET n\<close> and
  \<^verbatim>\<open>SLOWLOG LEN\<close> report that list.\<close>

theorem slowlog_reports_recent:
  "\<exists>srv. slowlog_run first_free cs (slowlogInit \<lparr>cells = Map.empty, freed = []\<rparr>) = Some srv
    \<and> slowlogCommand [cmd, createStringObject (bytes_of ''GET'')] srv
        = Some (SlEntries (take 10 (fst (fold spec_push cs ([], 0)))), srv)
    \<and> slowlogCommand [cmd, createStringObject (bytes_of ''get''), createStringObjectFromLongLong True n] srv
        = Some (SlEntries (if sint n < 0 then fst (fold spec_push cs ([], 0))
                           else take (nat (sint n)) (fst (fold spec_push cs ([], 0)))), srv)
    \<and> slowlogCommand [cmd, createStringObject (bytes_of ''len'')] srv
        = Some (SlLen (length (fst (fold spec_push cs ([], 0)))), srv)"
proof -
  let ?log = "fst (fold spec_push cs ([], 0))"
  have "srv_holds (slowlogInit \<lparr>cells = Map.empty, freed = []\<rparr>) ([], 0)"
    by (auto simp: srv_holds_def slowlogInit_def holds_def list_rep_def listCreate_def)
  from slowlog_run_spec [OF this, of cs] obtain srv where
    run: "slowlog_run first_free cs (slowlogInit \<lparr>cells = Map.empty, freed = []\<rparr>) = Some srv"
    and "srv_holds srv (fold spec_push cs ([], 0))" by blast
  then have log: "holds (sl_list srv, sl_mem srv) ?log" by (auto simp: srv_holds_def)
  note get = slowlog_get_content [OF log]
  have "len (sl_list srv) = length ?log"
    using adlist_log.size_content [OF log] by (simp add: log_len_def)
  moreover have "getLongFromObjectOrReply (Some (createStringObjectFromLongLong True n)) None = Inr (sint n)"
    using sint_u64_range [of n]
    by (simp add: getLongFromObjectOrReply_def getLongLongFromObjectOrReply_def getLongLongFromObject_def
        createStringObjectFromLongLong_def createStringObjectFromLongLongWithOptions_def incrRefCount_def shared_integer_def)
  ultimately show ?thesis
    using run get [of 10] get [of "sint n"]
    by (simp add: slowlogCommand_def sds_of_def createStringObject_def createEmbeddedStringObject_def
        OBJ_ENCODING_EMBSTR_SIZE_LIMIT_def cstring_def siptlw_def del: slowlog_get.simps)
qed

text \<open>C24: a log entry is bounded whatever the command was: at most 32 arguments, and each of them
  at most 165 bytes long.\<close>

theorem slowlogCreateEntry_bounded:
  assumes "\<forall>a \<in> set argv. length (obj_bytes a) < 2 ^ 64" "length argv < 2 ^ 31"
  shows "length (se_argv (slowlogCreateEntry peerid name now eid argv duration)) \<le> 32
    \<and> (\<forall>a \<in> set (se_argv (slowlogCreateEntry peerid name now eid argv duration)). length (obj_bytes a) \<le> 165)"
proof -
  have arg: "length (obj_bytes (slowlog_arg a)) \<le> 165" if "a \<in> set argv" for a
    using that assms(1) length_dec_le [of "length (sds_of a) - 128" 19] length_dec_int [OF sint_u64_range]
    by (cases "so_ptr a")
      (force simp: slowlog_arg_def obj_bytes_def sds_of_def dupStringObject_def createRawStringObject_def
        createEmbeddedStringObject_def SLOWLOG_ENTRY_MAX_STRING_def Let_def intro: order_trans)+
  have "length (obj_bytes (more_arguments n)) \<le> 165" if "n < 2 ^ 31" for n
    using that length_dec_le [of n 9] by (simp add: more_arguments_def obj_bytes_def Let_def)
  with arg assms(2) show ?thesis
    by (auto simp: slowlogCreateEntry_def SLOWLOG_ENTRY_MAX_ARGC_def Let_def)
qed

theorem slowlogCreateEntry_bounded_witness:
  "length (se_argv (slowlogCreateEntry [] None 0 0 (replicate 40 (createRawStringObject (replicate 200 65))) 5)) \<le> 32"
  using slowlogCreateEntry_bounded [of "replicate 40 (createRawStringObject (replicate 200 65))" "[]" None 0 0 5]
  by (simp add: createRawStringObject_def obj_bytes_def)

end
