(* ===== verification/Bytes.thy ===== *)
theory Bytes
  imports Prelude
begin

text \<open>
  Integers in byte buffers. The encoded data structures of Redis (integer sets, ziplists,
  listpacks, the RDB format) store integers of one to eight bytes; here are the little- and
  big-endian codecs on byte lists, signed and unsigned, and reads and writes at an offset of a
  buffer, where an access out of range is \<open>None\<close>.
\<close>

section \<open>Codecs\<close>

fun le_enc :: "nat \<Rightarrow> nat \<Rightarrow> byte list" where
  "le_enc 0 x = []"
| "le_enc (Suc n) x = of_nat x # le_enc n (x div 256)"

fun le_dec :: "byte list \<Rightarrow> nat" where
  "le_dec [] = 0"
| "le_dec (b # bs) = unat b + 256 * le_dec bs"

definition be_enc :: "nat \<Rightarrow> nat \<Rightarrow> byte list" where
  "be_enc n x = rev (le_enc n x)"

definition be_dec :: "byte list \<Rightarrow> nat" where
  "be_dec bs = le_dec (rev bs)"

text \<open>Two's complement in \<open>w\<close> bytes.\<close>

definition to_unsigned :: "nat \<Rightarrow> int \<Rightarrow> nat" where
  "to_unsigned w z = nat (z mod 256 ^ w)"

definition to_signed :: "nat \<Rightarrow> nat \<Rightarrow> int" where
  "to_signed w x = (if 2 * x \<ge> 256 ^ w then int x - 256 ^ w else int x)"

definition fits :: "nat \<Rightarrow> int \<Rightarrow> bool" where
  "fits w z \<longleftrightarrow> - (256 ^ w) \<le> 2 * z \<and> 2 * z < 256 ^ w"

definition sle_enc :: "nat \<Rightarrow> int \<Rightarrow> byte list" where
  "sle_enc w z = le_enc w (to_unsigned w z)"

definition sle_dec :: "byte list \<Rightarrow> int" where
  "sle_dec bs = to_signed (length bs) (le_dec bs)"

section \<open>Buffers\<close>

definition read_at :: "byte list \<Rightarrow> nat \<Rightarrow> nat \<Rightarrow> byte list option" where
  "read_at buf off n = (if off + n \<le> length buf then Some (take n (drop off buf)) else None)"

definition write_at :: "byte list \<Rightarrow> nat \<Rightarrow> byte list \<Rightarrow> byte list option" where
  "write_at buf off bs =
     (if off + length bs \<le> length buf then Some (take off buf @ bs @ drop (off + length bs) buf) else None)"

text \<open>\<^verbatim>\<open>memmove\<close> inside one buffer; and \<^verbatim>\<open>realloc\<close>, which keeps a prefix and leaves new bytes
  undefined: they are whatever \<open>junk\<close> holds at their offset.\<close>

definition memmove :: "byte list \<Rightarrow> nat \<Rightarrow> nat \<Rightarrow> nat \<Rightarrow> byte list option" where
  "memmove buf dst src n = do { bs \<leftarrow> read_at buf src n; write_at buf dst bs }"

definition realloc :: "(nat \<Rightarrow> byte) \<Rightarrow> byte list \<Rightarrow> nat \<Rightarrow> byte list" where
  "realloc junk buf n = take n buf @ map junk [length buf ..< n]"

section \<open>Round trips\<close>

lemma length_le_enc [simp]: "length (le_enc n x) = n"
  by (induction n arbitrary: x) auto

lemma le_dec_less: "le_dec bs < 256 ^ length bs"
proof (induction bs)
  case (Cons b bs)
  have "unat b < 256" using unsigned_less [of b] by simp
  with Cons show ?case by simp
qed simp

lemma le_dec_enc_mod: "le_dec (le_enc n x) = x mod 256 ^ n"
proof (induction n arbitrary: x)
  case (Suc n)
  have "unat (of_nat x :: byte) = x mod 256" by (simp add: unat_of_nat)
  then show ?case using Suc by (simp add: mod_mult2_eq)
qed simp

lemma le_dec_enc [simp]: "x < 256 ^ n \<Longrightarrow> le_dec (le_enc n x) = x"
  by (simp add: le_dec_enc_mod)

lemma le_enc_dec: "length bs = n \<Longrightarrow> le_enc n (le_dec bs) = bs"
proof (induction bs arbitrary: n)
  case (Cons b bs)
  have "unat b < 256" using unsigned_less [of b] by simp
  moreover have z: "(256 :: byte) = 0" by (rule unsigned_word_eqI) simp
  have "of_nat (unat b + 256 * le_dec bs) = b"
    unfolding of_nat_add of_nat_mult of_nat_numeral z by simp
  ultimately show ?case using Cons by auto
qed simp

lemma be_dec_enc [simp]: "x < 256 ^ n \<Longrightarrow> be_dec (be_enc n x) = x"
  by (simp add: be_dec_def be_enc_def)

lemma length_be_enc [simp]: "length (be_enc n x) = n"
  by (simp add: be_enc_def)

lemma be_enc_dec: "length bs = n \<Longrightarrow> be_enc n (be_dec bs) = bs"
  using le_enc_dec [of "rev bs" n] by (simp add: be_enc_def be_dec_def)

lemma to_unsigned_less [simp]: "to_unsigned w z < 256 ^ w"
proof -
  have "z mod 256 ^ w < 256 ^ w" by simp
  then show ?thesis unfolding to_unsigned_def by (subst nat_less_iff) auto
qed

lemma to_signed_iff:
  "to_signed w x = (if 256 ^ w \<le> 2 * int x then int x - 256 ^ w else int x)"
proof -
  have "256 ^ w \<le> 2 * x \<longleftrightarrow> int (256 ^ w) \<le> int (2 * x)" by (rule of_nat_le_iff [symmetric])
  then show ?thesis by (simp add: to_signed_def)
qed

lemma to_signed_unsigned:
  assumes "fits w z"
  shows "to_signed w (to_unsigned w z) = z"
proof (cases "z < 0")
  case True
  have "z mod 256 ^ w = (z + 256 ^ w) mod 256 ^ w" by simp
  also have "\<dots> = z + 256 ^ w" using True assms unfolding fits_def by (intro mod_pos_pos_trivial) linarith+
  finally have u: "int (to_unsigned w z) = z + 256 ^ w"
    using assms True unfolding to_unsigned_def fits_def by (subst nat_0_le) auto
  have "256 ^ w \<le> 2 * int (to_unsigned w z)" using u assms by (simp add: fits_def)
  with u show ?thesis by (simp add: to_signed_iff)
next
  case False
  then have "z mod 256 ^ w = z" using assms by (intro mod_pos_pos_trivial) (auto simp: fits_def)
  then have u: "int (to_unsigned w z) = z" using False by (simp add: to_unsigned_def)
  have "\<not> 256 ^ w \<le> 2 * int (to_unsigned w z)" using u assms by (simp add: fits_def)
  with u show ?thesis by (simp add: to_signed_iff)
qed

lemma sle_dec_enc [simp]: "fits w z \<Longrightarrow> sle_dec (sle_enc w z) = z"
  by (simp add: sle_dec_def sle_enc_def to_signed_unsigned)

lemma length_sle_enc [simp]: "length (sle_enc w z) = w"
  by (simp add: sle_enc_def)

lemma to_signed_fits:
  assumes "x < 256 ^ w"
  shows "fits w (to_signed w x)"
proof -
  have "int x < int (256 ^ w)" using assms by (simp only: of_nat_less_iff)
  moreover obtain P where P: "P = (256 :: int) ^ w" "0 \<le> P" by simp
  ultimately have "int x < P" by simp
  with P(2) show ?thesis
    unfolding to_signed_iff fits_def P(1) [symmetric] by auto
qed

lemma sle_dec_fits: "fits (length bs) (sle_dec bs)"
  unfolding sle_dec_def by (rule to_signed_fits [OF le_dec_less])

lemma fits_mono:
  assumes "fits v z" "v \<le> w"
  shows "fits w z"
proof -
  have "256 ^ v \<le> (256 :: int) ^ w" using assms(2) by (simp add: power_increasing)
  with assms(1) show ?thesis unfolding fits_def by linarith
qed

section \<open>Reading after writing\<close>

lemma write_at_length: "write_at buf off bs = Some buf' \<Longrightarrow> length buf' = length buf"
  by (auto simp: write_at_def split: if_splits)

lemma read_write_same: "write_at buf off bs = Some buf' \<Longrightarrow> n = length bs \<Longrightarrow> read_at buf' off n = Some bs"
  by (auto simp: write_at_def read_at_def split: if_splits)

lemma read_write_other:
  assumes "write_at buf off bs = Some buf'" "o2 + n \<le> off \<or> off + length bs \<le> o2"
  shows "read_at buf' o2 n = read_at buf o2 n"
proof (cases "o2 + n \<le> length buf")
  case True
  have b: "buf' = take off buf @ bs @ drop (off + length bs) buf" "off + length bs \<le> length buf"
    using assms(1) by (auto simp: write_at_def split: if_splits)
  have "take n (drop o2 buf') = take n (drop o2 buf)"
  proof (rule nth_equalityI)
    fix i
    assume "i < length (take n (drop o2 buf'))"
    then show "take n (drop o2 buf') ! i = take n (drop o2 buf) ! i"
      using assms(2) b True by (auto simp: nth_append)
  qed (use True in \<open>simp add: write_at_length [OF assms(1)]\<close>)
  with True b show ?thesis by (simp add: read_at_def)
next
  case False
  with write_at_length [OF assms(1)] show ?thesis by (simp add: read_at_def)
qed

lemma length_realloc [simp]: "length (realloc junk buf n) = n"
  by (simp add: realloc_def)

lemma read_append [simp]:
  "off + n \<le> length xs \<Longrightarrow> read_at (xs @ ys) off n = read_at xs off n"
  "off = length xs \<Longrightarrow> n = length ys \<Longrightarrow> read_at (xs @ ys @ zs) off n = Some ys"
  "off = length xs \<Longrightarrow> n = length ys \<Longrightarrow> read_at (xs @ ys) off n = Some ys"
  by (auto simp: read_at_def)

lemma write_append:
  "off = length xs \<Longrightarrow> length bs = length ys \<Longrightarrow> write_at (xs @ ys @ zs) off bs = Some (xs @ bs @ zs)"
  by (auto simp: write_at_def)

end
