(* ===== verification/Set_Store.thy ===== *)
theory Set_Store
  imports Prelude
begin

text \<open>
  The interface of a set of elements that is stored in some representation: adding, removing and
  looking up an element, each telling whether the element was there. The integer set, the hash
  table with set keys and the set object of \<^verbatim>\<open>t_set.c\<close>, which switches between the two, provide it.
  What a sequence of operations does is proved once, from the interface.
\<close>

datatype 'a set_op = SetAdd 'a | SetRemove 'a | SetFind 'a

fun op_elem :: "'a set_op \<Rightarrow> 'a" where
  "op_elem (SetAdd x) = x" | "op_elem (SetRemove x) = x" | "op_elem (SetFind x) = x"

fun set_run ::
  "('s \<Rightarrow> 'a \<Rightarrow> ('s \<times> bool) option) \<Rightarrow> ('s \<Rightarrow> 'a \<Rightarrow> ('s \<times> bool) option) \<Rightarrow> ('s \<Rightarrow> 'a \<Rightarrow> ('s \<times> bool) option)
     \<Rightarrow> 'a set_op list \<Rightarrow> 's \<Rightarrow> (bool list \<times> 's) option" where
  "set_run add rem look [] s = Some ([], s)"
| "set_run add rem look (op # ops) s = do {
     (s1, r) \<leftarrow> (case op of SetAdd x \<Rightarrow> add s x | SetRemove x \<Rightarrow> rem s x | SetFind x \<Rightarrow> look s x);
     (rs, s2) \<leftarrow> set_run add rem look ops s1;
     Some (r # rs, s2) }"

text \<open>The same sequence on a mathematical set.\<close>

fun spec_run :: "'a set_op list \<Rightarrow> 'a set \<Rightarrow> bool list \<times> 'a set" where
  "spec_run [] A = ([], A)"
| "spec_run (op # ops) A =
     (let (r, B) = (case op of SetAdd x \<Rightarrow> (x \<notin> A, insert x A) | SetRemove x \<Rightarrow> (x \<in> A, A - {x})
                              | SetFind x \<Rightarrow> (x \<in> A, A));
          (rs, C) = spec_run ops B
      in (r # rs, C))"

locale set_store =
  fixes univ :: "'a set" and inv :: "'s \<Rightarrow> bool" and members :: "'s \<Rightarrow> 'a set" and bound :: nat
    and add rem look :: "'s \<Rightarrow> 'a \<Rightarrow> ('s \<times> bool) option"
  assumes members_finite: "inv s \<Longrightarrow> finite (members s)"
    and add_ok: "inv s \<Longrightarrow> x \<in> univ \<Longrightarrow> card (members s) < bound \<Longrightarrow>
      \<exists>s'. add s x = Some (s', x \<notin> members s) \<and> inv s' \<and> members s' = insert x (members s)"
    and rem_ok: "inv s \<Longrightarrow> x \<in> univ \<Longrightarrow>
      \<exists>s'. rem s x = Some (s', x \<in> members s) \<and> inv s' \<and> members s' = members s - {x}"
    and look_ok: "inv s \<Longrightarrow> x \<in> univ \<Longrightarrow>
      \<exists>s'. look s x = Some (s', x \<in> members s) \<and> inv s' \<and> members s' = members s"
begin

lemma run_refines:
  "inv s \<Longrightarrow> \<forall>op \<in> set ops. op_elem op \<in> univ \<Longrightarrow> card (members s) + length ops \<le> bound \<Longrightarrow>
    \<exists>s'. set_run add rem look ops s = Some (fst (spec_run ops (members s)), s') \<and> inv s'
      \<and> members s' = snd (spec_run ops (members s))"
proof (induction ops arbitrary: s)
  case (Cons op ops)
  let ?B = "case op of SetAdd x \<Rightarrow> insert x (members s) | SetRemove x \<Rightarrow> members s - {x} | SetFind x \<Rightarrow> members s"
  let ?r = "case op of SetAdd x \<Rightarrow> x \<notin> members s | SetRemove x \<Rightarrow> x \<in> members s | SetFind x \<Rightarrow> x \<in> members s"
  have u: "op_elem op \<in> univ" "card (members s) < bound" using Cons.prems(2,3) by simp_all
  obtain s1 where s1: "(case op of SetAdd x \<Rightarrow> add s x | SetRemove x \<Rightarrow> rem s x | SetFind x \<Rightarrow> look s x) = Some (s1, ?r)"
    "inv s1" "members s1 = ?B"
  proof (cases op)
    case (SetAdd x)
    with add_ok [OF Cons.prems(1), of x] u that show ?thesis by auto
  next
    case (SetRemove x)
    with rem_ok [OF Cons.prems(1), of x] u that show ?thesis by auto
  next
    case (SetFind x)
    with look_ok [OF Cons.prems(1), of x] u that show ?thesis by auto
  qed
  have "card (members s1) \<le> Suc (card (members s))"
    using members_finite [OF Cons.prems(1)] s1(3)
    by (cases op) (auto simp: card_insert_if intro: le_SucI card_mono)
  then have "card (members s1) + length ops \<le> bound" using Cons.prems(3) by simp
  with Cons.IH [OF s1(2)] Cons.prems(2) obtain s2 where
    "set_run add rem look ops s1 = Some (fst (spec_run ops ?B), s2)" "inv s2" "members s2 = snd (spec_run ops ?B)"
    using s1(3) by auto
  moreover have "spec_run (op # ops) (members s) = (?r # fst (spec_run ops ?B), snd (spec_run ops ?B))"
    by (cases op) (simp_all add: Let_def case_prod_beta)
  ultimately show ?case using s1(1) by simp
qed simp

end

end
