(* ===== verification/Intset.thy ===== *)
theory Intset
  imports Bytes Set_Store
begin

text \<open>
  The integer set of \<^verbatim>\<open>intset.c\<close>: a blob of \<open>length\<close> little-endian integers of 2, 4 or 8 bytes
  each, kept sorted. The contents are the bytes of the blob, so that growing the blob, moving its
  tail and upgrading the width in place are modelled as the overlapping writes they are. An access
  outside the blob is \<open>None\<close>. Shown here: every operation keeps the blob well formed and acts on
  the sorted list of its members as sorted insertion, removal and lookup do.
\<close>

section \<open>State and operations\<close>

definition INTSET_ENC_INT16 :: nat where "INTSET_ENC_INT16 = 2"
definition INTSET_ENC_INT32 :: nat where "INTSET_ENC_INT32 = 4"
definition INTSET_ENC_INT64 :: nat where "INTSET_ENC_INT64 = 8"

lemmas intset_encs = INTSET_ENC_INT16_def INTSET_ENC_INT32_def INTSET_ENC_INT64_def

record intset =
  is_encoding :: nat
  is_length :: nat
  is_contents :: "byte list"

definition intsetValueEncoding :: "int \<Rightarrow> nat" where
  "intsetValueEncoding v =
     (if v < - (2 ^ 31) \<or> v > 2 ^ 31 - 1 then INTSET_ENC_INT64
      else if v < - (2 ^ 15) \<or> v > 2 ^ 15 - 1 then INTSET_ENC_INT32
      else INTSET_ENC_INT16)"

definition intsetGetEncoded :: "intset \<Rightarrow> int \<Rightarrow> nat \<Rightarrow> int option" where
  "intsetGetEncoded is pos enc =
     (if pos < 0 then None
      else if enc = INTSET_ENC_INT64 then map_option sle_dec (read_at (is_contents is) (nat pos * 8) 8)
      else if enc = INTSET_ENC_INT32 then map_option sle_dec (read_at (is_contents is) (nat pos * 4) 4)
      else map_option sle_dec (read_at (is_contents is) (nat pos * 2) 2))"

definition intset_Get :: "intset \<Rightarrow> int \<Rightarrow> int option" where
  "intset_Get is pos = intsetGetEncoded is pos (is_encoding is)"

text \<open>The store converts the 64-bit value to the element's type, which keeps its low bytes.\<close>

definition intset_Set :: "intset \<Rightarrow> int \<Rightarrow> int \<Rightarrow> intset option" where
  "intset_Set is pos val =
     (if pos < 0 then None
      else do {
        buf \<leftarrow> (if is_encoding is = INTSET_ENC_INT64 then write_at (is_contents is) (nat pos * 8) (sle_enc 8 val)
                else if is_encoding is = INTSET_ENC_INT32 then write_at (is_contents is) (nat pos * 4) (sle_enc 4 val)
                else write_at (is_contents is) (nat pos * 2) (sle_enc 2 val));
        Some (is\<lparr>is_contents := buf\<rparr>) })"

definition intsetNew :: intset where
  "intsetNew = \<lparr>is_encoding = INTSET_ENC_INT16, is_length = 0, is_contents = []\<rparr>"

definition intsetResize :: "(nat \<Rightarrow> byte) \<Rightarrow> intset \<Rightarrow> nat \<Rightarrow> intset" where
  "intsetResize junk is len =
     is\<lparr>is_contents := realloc junk (is_contents is) (len * is_encoding is mod 2 ^ 32)\<rparr>"

text \<open>
  The search loop on C \<^verbatim>\<open>int\<close>s: \<open>mid\<close> is computed in unsigned arithmetic and converted back. The
  loop returns the final \<open>min\<close>, \<open>mid\<close> and \<open>cur\<close>.
\<close>

partial_function (option) intset_bsearch ::
  "intset \<Rightarrow> int \<Rightarrow> int \<Rightarrow> int \<Rightarrow> int \<Rightarrow> int \<Rightarrow> (int \<times> int \<times> int) option" where
  "intset_bsearch is val mn mx mid cur =
     (if mx \<ge> mn then
        let mid = to_signed 4 ((to_unsigned 4 mn + to_unsigned 4 mx) mod 2 ^ 32 div 2) in
        do {
          cur \<leftarrow> intset_Get is mid;
          (if val > cur then intset_bsearch is val (mid + 1) mx mid cur
           else if val < cur then intset_bsearch is val mn (mid - 1) mid cur
           else Some (mn, mid, cur)) }
      else Some (mn, mid, cur))"

definition intsetSearch :: "intset \<Rightarrow> int \<Rightarrow> (bool \<times> nat) option" where
  "intsetSearch is val =
     (let mx = to_signed 4 ((is_length is + 2 ^ 32 - 1) mod 2 ^ 32) in
      if is_length is = 0 then Some (False, 0)
      else do {
        hi \<leftarrow> intset_Get is mx;
        (if val > hi then Some (False, is_length is)
         else do {
           lo \<leftarrow> intset_Get is 0;
           (if val < lo then Some (False, 0)
            else do {
              (mn, mid, cur) \<leftarrow> intset_bsearch is val 0 mx (-1) (-1);
              Some (if val = cur then (True, to_unsigned 4 mid) else (False, to_unsigned 4 mn)) }) }) })"

text \<open>\<^verbatim>\<open>while (length--) _intsetSet(is, length+prepend, _intsetGetEncoded(is, length, curenc))\<close>.\<close>

fun upgrade_loop :: "intset \<Rightarrow> nat \<Rightarrow> nat \<Rightarrow> nat \<Rightarrow> intset option" where
  "upgrade_loop is curenc prepend 0 = Some is"
| "upgrade_loop is curenc prepend (Suc len) = do {
     v \<leftarrow> intsetGetEncoded is (int len) curenc;
     is \<leftarrow> intset_Set is (int len + int prepend) v;
     upgrade_loop is curenc prepend len }"

definition intsetUpgradeAndAdd :: "(nat \<Rightarrow> byte) \<Rightarrow> intset \<Rightarrow> int \<Rightarrow> intset option" where
  "intsetUpgradeAndAdd junk is val =
     (let curenc = is_encoding is;
          newenc = intsetValueEncoding val;
          len = is_length is;
          prepend = (if val < 0 then 1 else 0);
          is = is\<lparr>is_encoding := newenc\<rparr>;
          is = intsetResize junk is ((is_length is + 1) mod 2 ^ 32)
      in do {
        is \<leftarrow> upgrade_loop is curenc prepend len;
        is \<leftarrow> (if prepend \<noteq> 0 then intset_Set is 0 val else intset_Set is (int (is_length is)) val);
        Some (is\<lparr>is_length := (is_length is + 1) mod 2 ^ 32\<rparr>) })"

definition intsetMoveTail :: "intset \<Rightarrow> nat \<Rightarrow> nat \<Rightarrow> intset option" where
  "intsetMoveTail is from to =
     (let n = (is_length is + 2 ^ 32 - from) mod 2 ^ 32;
          sz = (if is_encoding is = INTSET_ENC_INT64 then 8
                else if is_encoding is = INTSET_ENC_INT32 then 4 else 2)
      in do {
        buf \<leftarrow> memmove (is_contents is) (to * sz) (from * sz) (n * sz mod 2 ^ 32);
        Some (is\<lparr>is_contents := buf\<rparr>) })"

definition intsetAdd :: "(nat \<Rightarrow> byte) \<Rightarrow> intset \<Rightarrow> int \<Rightarrow> (intset \<times> bool) option" where
  "intsetAdd junk is val =
     (if intsetValueEncoding val > is_encoding is then do {
        is \<leftarrow> intsetUpgradeAndAdd junk is val;
        Some (is, True) }
      else do {
        (found, pos) \<leftarrow> intsetSearch is val;
        (if found then Some (is, False)
         else do {
           let is = intsetResize junk is ((is_length is + 1) mod 2 ^ 32);
           is \<leftarrow> (if pos < is_length is then intsetMoveTail is pos (pos + 1) else Some is);
           is \<leftarrow> intset_Set is (int pos) val;
           Some (is\<lparr>is_length := (is_length is + 1) mod 2 ^ 32\<rparr>, True) }) })"

definition intsetRemove :: "(nat \<Rightarrow> byte) \<Rightarrow> intset \<Rightarrow> int \<Rightarrow> (intset \<times> bool) option" where
  "intsetRemove junk is val =
     (if intsetValueEncoding val \<le> is_encoding is then do {
        (found, pos) \<leftarrow> intsetSearch is val;
        (if found then do {
           let len = is_length is;
           is \<leftarrow> (if pos < len - 1 then intsetMoveTail is (pos + 1) pos else Some is);
           Some ((intsetResize junk is (len - 1))\<lparr>is_length := len - 1\<rparr>, True) }
         else Some (is, False)) }
      else Some (is, False))"

definition intsetFind :: "intset \<Rightarrow> int \<Rightarrow> bool option" where
  "intsetFind is val =
     (if intsetValueEncoding val \<le> is_encoding is then map_option fst (intsetSearch is val)
      else Some False)"

text \<open>\<open>r\<close> is the value \<^verbatim>\<open>rand()\<close> returns; an empty set divides by zero.\<close>

definition intsetRandom :: "nat \<Rightarrow> intset \<Rightarrow> int option" where
  "intsetRandom r is = (if is_length is = 0 then None else intset_Get is (int (r mod is_length is)))"

text \<open>\<open>Some None\<close> is the return value 0, \<open>Some (Some v)\<close> the return value 1 with \<open>*value = v\<close>.\<close>

definition intsetGet :: "intset \<Rightarrow> nat \<Rightarrow> int option option" where
  "intsetGet is pos =
     (if pos < is_length is then map_option Some (intset_Get is (to_signed 4 pos)) else Some None)"

definition intsetLen :: "intset \<Rightarrow> nat" where
  "intsetLen is = is_length is"

definition intsetBlobLen :: "intset \<Rightarrow> nat" where
  "intsetBlobLen is = 8 + is_length is * is_encoding is mod 2 ^ 32"

section \<open>What a blob represents\<close>

definition ints_enc :: "nat \<Rightarrow> int list \<Rightarrow> byte list" where
  "ints_enc w vs = concat (map (sle_enc w) vs)"

definition intset_rep :: "intset \<Rightarrow> int list \<Rightarrow> bool" where
  "intset_rep is vs \<longleftrightarrow>
     is_encoding is \<in> {INTSET_ENC_INT16, INTSET_ENC_INT32, INTSET_ENC_INT64} \<and>
     is_length is = length vs \<and> is_contents is = ints_enc (is_encoding is) vs \<and>
     list_all (fits (is_encoding is)) vs \<and> sorted vs \<and> distinct vs \<and> length vs < 2 ^ 29"

definition intset_elems :: "intset \<Rightarrow> int list" where
  "intset_elems is =
     map (\<lambda>i. sle_dec (take (is_encoding is) (drop (i * is_encoding is) (is_contents is)))) [0 ..< is_length is]"

definition intset_ok :: "intset \<Rightarrow> bool" where
  "intset_ok is \<longleftrightarrow> intset_rep is (intset_elems is)"

lemma ints_enc_simps [simp]:
  "ints_enc w [] = []" "ints_enc w (v # vs) = sle_enc w v @ ints_enc w vs"
  "ints_enc w (us @ vs) = ints_enc w us @ ints_enc w vs"
  by (simp_all add: ints_enc_def)

lemma length_ints_enc [simp]: "length (ints_enc w vs) = length vs * w"
  by (induction vs) simp_all

lemma ints_enc_split: "i < length vs \<Longrightarrow>
    ints_enc w vs = ints_enc w (take i vs) @ sle_enc w (vs ! i) @ ints_enc w (drop (Suc i) vs)"
  by (subst id_take_nth_drop [of i vs]) simp_all

lemma read_ints_enc: "i < length vs \<Longrightarrow> read_at (ints_enc w vs) (i * w) w = Some (sle_enc w (vs ! i))"
  unfolding ints_enc_split [of i vs w] by (rule read_append(2)) simp_all

lemma read_ints_prefix:
  "i < length vs \<Longrightarrow> take (length vs * w) buf = ints_enc w vs \<Longrightarrow> length vs * w \<le> length buf
    \<Longrightarrow> read_at buf (i * w) w = Some (sle_enc w (vs ! i))"
proof -
  assume *: "i < length vs" "take (length vs * w) buf = ints_enc w vs" "length vs * w \<le> length buf"
  have "Suc i * w \<le> length vs * w" using *(1) by (intro mult_le_mono1) simp
  then have "read_at (take (length vs * w) buf @ drop (length vs * w) buf) (i * w) w
      = Some (sle_enc w (vs ! i))"
    using * by (subst read_append) (simp_all add: read_ints_enc)
  then show ?thesis by simp
qed

lemma encs_cases:
  assumes "w \<in> {INTSET_ENC_INT16, INTSET_ENC_INT32, INTSET_ENC_INT64}"
  obtains "w = 2" | "w = 4" | "w = 8"
  using assms by (auto simp: intset_encs)

lemma intsetGetEncoded_width:
  "w \<in> {INTSET_ENC_INT16, INTSET_ENC_INT32, INTSET_ENC_INT64} \<Longrightarrow>
    intsetGetEncoded is (int i) w = map_option sle_dec (read_at (is_contents is) (i * w) w)"
  by (erule encs_cases) (simp_all add: intsetGetEncoded_def intset_encs)

lemma intset_Set_width:
  "is_encoding is \<in> {INTSET_ENC_INT16, INTSET_ENC_INT32, INTSET_ENC_INT64} \<Longrightarrow>
    intset_Set is (int i) v =
      map_option (\<lambda>buf. is\<lparr>is_contents := buf\<rparr>)
        (write_at (is_contents is) (i * is_encoding is) (sle_enc (is_encoding is) v))"
  by (erule encs_cases) (simp_all add: intset_Set_def intset_encs map_option_case split: option.split)

lemma intset_rep_elems: "intset_rep is vs \<Longrightarrow> intset_elems is = vs"
proof -
  assume r: "intset_rep is vs"
  let ?w = "is_encoding is"
  have "sle_dec (take ?w (drop (i * ?w) (is_contents is))) = vs ! i" if "i < length vs" for i
    using read_ints_enc [OF that, of ?w] r that
    by (auto simp: intset_rep_def read_at_def list_all_length split: if_splits)
  with r show ?thesis by (auto simp: intset_elems_def intset_rep_def intro: nth_equalityI)
qed

lemma intset_ok_iff: "intset_ok is \<longleftrightarrow> (\<exists>vs. intset_rep is vs)"
  by (auto simp: intset_ok_def dest: intset_rep_elems)

lemma intset_Get_rep:
  assumes "intset_rep is vs" "i < length vs"
  shows "intset_Get is (int i) = Some (vs ! i)"
  using assms unfolding intset_Get_def
  by (subst intsetGetEncoded_width)
    (auto simp: intset_rep_def read_ints_enc list_all_length)

lemma intsetValueEncoding_fits:
  "w \<in> {INTSET_ENC_INT16, INTSET_ENC_INT32, INTSET_ENC_INT64} \<Longrightarrow> fits 8 v \<Longrightarrow>
    intsetValueEncoding v \<le> w \<longleftrightarrow> fits w v"
  by (erule encs_cases) (auto simp: intsetValueEncoding_def intset_encs fits_def)

lemma intsetValueEncoding_ok:
  "intsetValueEncoding v \<in> {INTSET_ENC_INT16, INTSET_ENC_INT32, INTSET_ENC_INT64}"
  "fits 8 v \<Longrightarrow> fits (intsetValueEncoding v) v"
  by (auto simp: intsetValueEncoding_def intset_encs fits_def)

lemma intsetNew_rep: "intset_rep intsetNew []"
  by (simp add: intset_rep_def intsetNew_def)

section \<open>Searching\<close>

definition search_pos :: "int list \<Rightarrow> int \<Rightarrow> nat" where
  "search_pos vs v = length (takeWhile (\<lambda>x. x < v) vs)"

lemma search_pos_le: "search_pos vs v \<le> length vs"
  by (simp add: search_pos_def length_takeWhile_le)

lemma search_pos_eqI:
  assumes "n \<le> length vs" "\<And>i. i < n \<Longrightarrow> vs ! i < v" "n < length vs \<Longrightarrow> \<not> vs ! n < v"
  shows "search_pos vs v = n"
proof (cases "n < length vs")
  case True
  have "takeWhile (\<lambda>x. x < v) vs = take n vs"
    using assms True by (intro takeWhile_eq_take_P_nth) auto
  with True show ?thesis by (simp add: search_pos_def)
next
  case False
  then have t: "takeWhile (\<lambda>x. x < v) vs = vs"
    using assms by (auto simp: takeWhile_eq_all_conv in_set_conv_nth)
  from False assms(1) show ?thesis unfolding search_pos_def t by simp
qed

lemma unsigned_int [simp]: "0 \<le> i \<Longrightarrow> i < 2 ^ 31 \<Longrightarrow> to_unsigned 4 i = nat i"
  by (simp add: to_unsigned_def)

lemma signed_nat [simp]: "n < 2 ^ 31 \<Longrightarrow> to_signed 4 n = int n"
  by (simp add: to_signed_def)

lemma mid_between:
  assumes "0 \<le> mn" "mn \<le> mx" "mx < 2 ^ 31"
  obtains m where "to_signed 4 ((to_unsigned 4 mn + to_unsigned 4 mx) mod 2 ^ 32 div 2) = int m"
    "mn \<le> int m" "int m \<le> mx"
proof
  let ?m = "(nat mn + nat mx) div 2"
  have "(nat mn + nat mx) mod 2 ^ 32 = nat mn + nat mx" using assms by (intro mod_less) simp
  moreover have "to_unsigned 4 mn = nat mn" "to_unsigned 4 mx = nat mx" using assms by auto
  moreover have "?m < 2 ^ 31" using assms by (intro less_mult_imp_div_less) simp
  ultimately show "to_signed 4 ((to_unsigned 4 mn + to_unsigned 4 mx) mod 2 ^ 32 div 2) = int ?m"
    by simp
  show "mn \<le> int ?m" "int ?m \<le> mx" using assms by linarith+
qed

lemma intset_bsearch_rep:
  assumes r: "intset_rep is vs"
    and inv: "0 \<le> mn" "mx < int (length vs)" "mn \<le> mx + 1" "mn \<le> mx \<or> cur \<noteq> v"
      "\<And>i. int i < mn \<Longrightarrow> vs ! i < v" "\<And>i. i < length vs \<Longrightarrow> mx < int i \<Longrightarrow> v < vs ! i"
  shows "\<exists>mn' mid' cur'. intset_bsearch is v mn mx mid cur = Some (mn', mid', cur') \<and>
    (if cur' = v then \<exists>m < length vs. mid' = int m \<and> vs ! m = v
     else \<exists>m \<le> length vs. mn' = int m \<and> (\<forall>i < m. vs ! i < v) \<and> (\<forall>i < length vs. m \<le> i \<longrightarrow> v < vs ! i))"
  using inv
proof (induction "nat (mx - mn + 1)" arbitrary: mn mx mid cur rule: less_induct)
  case less
  show ?case
  proof (cases "mn \<le> mx")
    case True
    have "mx < 2 ^ 31" using r less.prems(2) by (simp add: intset_rep_def)
    then obtain m where m: "to_signed 4 ((to_unsigned 4 mn + to_unsigned 4 mx) mod 2 ^ 32 div 2) = int m"
      "mn \<le> int m" "int m \<le> mx"
      using mid_between [OF less.prems(1) True] by blast
    then have ml: "m < length vs" using less.prems(2) by linarith
    then have g: "intset_Get is (int m) = Some (vs ! m)" using r by (rule intset_Get_rep [rotated])
    have srt: "i \<le> j \<Longrightarrow> j < length vs \<Longrightarrow> vs ! i \<le> vs ! j" for i j
      using r by (simp add: intset_rep_def sorted_nth_mono)
    consider "vs ! m < v" | "v < vs ! m" | "vs ! m = v" by linarith
    then show ?thesis
    proof cases
      case 1
      have "intset_bsearch is v mn mx mid cur = intset_bsearch is v (int m + 1) mx (int m) (vs ! m)"
        using True 1 m(1) g by (subst intset_bsearch.simps) (simp add: Let_def)
      moreover have "vs ! i < v" if "int i < int m + 1" for i
        using srt [of i m] 1 ml that by simp
      ultimately show ?thesis
        using less.hyps [of mx "int m + 1" "vs ! m" "int m"] less.prems 1 m(2,3) by simp
    next
      case 2
      have "intset_bsearch is v mn mx mid cur = intset_bsearch is v mn (int m - 1) (int m) (vs ! m)"
        using True 2 m(1) g by (subst intset_bsearch.simps) (simp add: Let_def)
      moreover have "v < vs ! i" if "i < length vs" "int m - 1 < int i" for i
        using srt [of m i] 2 that by simp
      ultimately show ?thesis
        using less.hyps [of "int m - 1" mn "vs ! m" "int m"] less.prems 2 m(2,3) by simp
    next
      case 3
      then have "intset_bsearch is v mn mx mid cur = Some (mn, int m, v)"
        using True m(1) g by (subst intset_bsearch.simps) (simp add: Let_def)
      with 3 ml show ?thesis by auto
    qed
  next
    case False
    then have "intset_bsearch is v mn mx mid cur = Some (mn, mid, cur)"
      by (subst intset_bsearch.simps) simp
    moreover have "mn = int (nat mn)" "nat mn \<le> length vs" using less.prems(1-3) by simp_all
    moreover have "\<forall>i < nat mn. vs ! i < v" using less.prems(5) by simp
    moreover have "\<forall>i < length vs. nat mn \<le> i \<longrightarrow> v < vs ! i"
      using less.prems(1,6) False by (simp add: nat_le_iff)
    ultimately show ?thesis using less.prems(4) False by (simp, blast)
  qed
qed

lemma intsetSearch_rep:
  assumes r: "intset_rep is vs"
  shows "intsetSearch is v = Some (v \<in> set vs, search_pos vs v)"
proof (cases "vs = []")
  case True
  with r show ?thesis by (simp add: intsetSearch_def intset_rep_def search_pos_def)
next
  case False
  let ?n = "length vs"
  have n: "0 < ?n" "is_length is = ?n" "?n < 2 ^ 29" using r False by (auto simp: intset_rep_def)
  have srt: "i \<le> j \<Longrightarrow> j < ?n \<Longrightarrow> vs ! i \<le> vs ! j" for i j
    using r by (simp add: intset_rep_def sorted_nth_mono)
  have "(?n + 2 ^ 32 - 1) mod 2 ^ 32 = ?n - 1"
    using n by (simp add: mod_if)
  then have mx: "to_signed 4 ((?n + 2 ^ 32 - 1) mod 2 ^ 32) = int (?n - 1)" using n by simp
  have hi: "intset_Get is (int (?n - 1)) = Some (vs ! (?n - 1))" and lo: "intset_Get is 0 = Some (vs ! 0)"
    by (rule intset_Get_rep [OF r]) (use n intset_Get_rep [OF r, of 0] in simp_all)
  have ev: "intsetSearch is v =
      (if vs ! (?n - 1) < v then Some (False, ?n) else if v < vs ! 0 then Some (False, 0)
       else do { (mn, mid, cur) \<leftarrow> intset_bsearch is v 0 (int (?n - 1)) (-1) (-1);
                 Some (if v = cur then (True, to_unsigned 4 mid) else (False, to_unsigned 4 mn)) })"
    unfolding intsetSearch_def Let_def n(2) unfolding mx hi lo Option.bind.simps using n(1) by simp
  consider "vs ! (?n - 1) < v" | "v \<le> vs ! (?n - 1)" "v < vs ! 0" | "v \<le> vs ! (?n - 1)" "vs ! 0 \<le> v"
    by linarith
  then show ?thesis
  proof cases
    case 1
    have less: "vs ! i < v" if "i < ?n" for i using srt [of i "?n - 1"] 1 that by force
    then have "search_pos vs v = ?n" by (intro search_pos_eqI) auto
    moreover have "v \<notin> set vs" using less by (auto simp: in_set_conv_nth)
    ultimately show ?thesis using 1 n unfolding ev by simp
  next
    case 2
    have gr: "v < vs ! i" if "i < ?n" for i using srt [of 0 i] 2 that by simp
    have "\<not> vs ! 0 < v" using 2(2) by linarith
    then have "search_pos vs v = 0" by (intro search_pos_eqI) simp_all
    moreover have "v \<notin> set vs" using gr by (auto simp: in_set_conv_nth)
    ultimately show ?thesis using 2 n unfolding ev by simp
  next
    case 3
    from intset_bsearch_rep [OF r, of 0 "int (?n - 1)" "-1" v "-1"] n
    obtain mn' mid' cur' where b: "intset_bsearch is v 0 (int (?n - 1)) (-1) (-1) = Some (mn', mid', cur')"
      and res: "if cur' = v then \<exists>m < ?n. mid' = int m \<and> vs ! m = v
        else \<exists>m \<le> ?n. mn' = int m \<and> (\<forall>i < m. vs ! i < v) \<and> (\<forall>i < ?n. m \<le> i \<longrightarrow> v < vs ! i)"
      by auto
    show ?thesis
    proof (cases "cur' = v")
      case True
      with res obtain m where m: "m < ?n" "mid' = int m" "vs ! m = v" by auto
      have "vs ! i < v" if "i < m" for i
        using srt [of i m] m that r nth_eq_iff_index_eq [of vs i m]
        by (auto simp: intset_rep_def order_less_le)
      then have "search_pos vs v = m" using m by (intro search_pos_eqI) auto
      moreover have "v \<in> set vs" using m by (metis nth_mem)
      ultimately show ?thesis using 3 n m b True unfolding ev by simp
    next
      case False
      with res obtain m where m: "m \<le> ?n" "mn' = int m" "\<forall>i < m. vs ! i < v"
        "\<forall>i < ?n. m \<le> i \<longrightarrow> v < vs ! i" by auto
      then have "search_pos vs v = m" by (intro search_pos_eqI) (auto simp: not_less less_imp_le)
      moreover have "v \<notin> set vs"
        using m(3,4) by (metis in_set_conv_nth less_irrefl not_le_imp_less)
      ultimately show ?thesis using 3 n m b False unfolding ev by simp
    qed
  qed
qed

lemma intsetFind_rep:
  assumes "intset_rep is vs" "fits 8 v"
  shows "intsetFind is v = Some (v \<in> set vs)"
proof -
  have "v \<notin> set vs" if "\<not> intsetValueEncoding v \<le> is_encoding is"
    using that assms intsetValueEncoding_fits [of "is_encoding is" v]
    by (auto simp: intset_rep_def list_all_iff)
  then show ?thesis using intsetSearch_rep [OF assms(1)] by (auto simp: intsetFind_def)
qed

lemma intsetGet_rep:
  "intset_rep is vs \<Longrightarrow> intsetGet is i = Some (if i < length vs then Some (vs ! i) else None)"
  by (auto simp: intsetGet_def intset_Get_rep intset_rep_def)

lemma intsetRandom_rep:
  "intset_rep is vs \<Longrightarrow> vs \<noteq> [] \<Longrightarrow> \<exists>v \<in> set vs. intsetRandom r is = Some v"
  by (auto simp: intsetRandom_def intset_Get_rep intset_rep_def)

section \<open>Insertion and removal on sorted lists\<close>

lemma insort_search:
  assumes "sorted vs"
  shows "insort v vs = take (search_pos vs v) vs @ v # drop (search_pos vs v) vs"
  using assms
proof (induction vs)
  case (Cons x vs)
  show ?case
  proof (cases "x < v")
    case True
    with Cons show ?thesis by (simp add: search_pos_def)
  next
    case False
    then show ?thesis by (simp add: search_pos_def)
  qed
qed (simp add: search_pos_def)

lemma remove1_search:
  assumes "sorted vs" "v \<in> set vs"
  shows "remove1 v vs = take (search_pos vs v) vs @ drop (Suc (search_pos vs v)) vs"
    and "search_pos vs v < length vs"
  using assms by (induction vs) (auto simp: search_pos_def)

section \<open>Adding and removing\<close>

lemma open_gap:
  assumes "length K = w"
  obtains K' where "length K' = w"
    "memmove (U @ T @ K) (length U + w) (length U) (length T) = Some (U @ K' @ T)"
proof
  show "memmove (U @ T @ K) (length U + w) (length U) (length T) = Some (U @ take w (T @ K) @ T)"
    using assms by (simp add: memmove_def write_at_def)
qed (use assms in simp)

lemma close_gap:
  assumes "length X = w"
  obtains K where "memmove (U @ X @ T) (length U) (length U + w) (length T) = Some (U @ T @ K)"
proof -
  have "read_at ((U @ X) @ T) (length U + w) (length T) = Some T"
    using assms by (intro read_append(3)) simp_all
  then have "memmove (U @ X @ T) (length U) (length U + w) (length T)
      = Some (U @ T @ drop (length U + length T) (U @ X @ T))"
    using assms by (simp add: memmove_def write_at_def)
  then show ?thesis by (rule that)
qed

lemma intsetMoveTail_width:
  assumes "is_encoding is \<in> {INTSET_ENC_INT16, INTSET_ENC_INT32, INTSET_ENC_INT64}"
    and "k \<le> is_length is" "is_length is < 2 ^ 29"
  shows "intsetMoveTail is k j = map_option (\<lambda>buf. is\<lparr>is_contents := buf\<rparr>)
    (memmove (is_contents is) (j * is_encoding is) (k * is_encoding is) ((is_length is - k) * is_encoding is))"
proof -
  have "(is_length is + 2 ^ 32 - k) mod 2 ^ 32 = is_length is - k"
    using assms(2,3) by (simp add: mod_if)
  moreover have "(is_length is - k) * is_encoding is mod 2 ^ 32 = (is_length is - k) * is_encoding is"
    using assms(1,3) by (intro mod_less) (auto simp: intset_encs)
  ultimately show ?thesis
    using assms(1)
    by (elim encs_cases) (simp_all add: intsetMoveTail_def Let_def intset_encs map_option_case split: option.split)
qed

lemma resize_bound:
  assumes "w \<in> {INTSET_ENC_INT16, INTSET_ENC_INT32, INTSET_ENC_INT64}" "n < (2 :: nat) ^ 29"
  shows "n * w mod 2 ^ 32 = n * w"
  using assms by (intro mod_less) (auto simp: intset_encs)

lemma realloc_grow: "length buf \<le> n \<Longrightarrow> \<exists>K. length K = n - length buf \<and> realloc junk buf n = buf @ K"
  by (auto simp: realloc_def)

lemma realloc_shrink: "length xs = n \<Longrightarrow> realloc junk (xs @ ys) n = xs"
  by (auto simp: realloc_def)

lemma intsetResize_fields [simp]:
  "is_length (intsetResize junk is n) = is_length is" "is_encoding (intsetResize junk is n) = is_encoding is"
  "(intsetResize junk is n)\<lparr>is_contents := buf\<rparr> = is\<lparr>is_contents := buf\<rparr>"
  by (simp_all add: intsetResize_def)

lemma intsetAdd_same_width:
  assumes r: "intset_rep is vs" and v: "fits (is_encoding is) v" "fits 8 v" "length vs + 1 < 2 ^ 29"
  shows "\<exists>is'. intsetAdd junk is v = Some (is', v \<notin> set vs) \<and>
    intset_rep is' (if v \<in> set vs then vs else insort v vs)"
proof (cases "v \<in> set vs")
  case True
  have "intsetValueEncoding v \<le> is_encoding is"
    using r v intsetValueEncoding_fits by (auto simp: intset_rep_def)
  with True r show ?thesis by (simp add: intsetAdd_def intsetSearch_rep [OF r])
next
  case False
  let ?w = "is_encoding is" and ?p = "search_pos vs v"
  have w: "?w \<in> {INTSET_ENC_INT16, INTSET_ENC_INT32, INTSET_ENC_INT64}" and n: "is_length is = length vs"
    and c: "is_contents is = ints_enc ?w vs" and s: "sorted vs" "distinct vs" "list_all (fits ?w) vs"
    using r by (auto simp: intset_rep_def)
  have le: "intsetValueEncoding v \<le> ?w" using w v intsetValueEncoding_fits by blast
  let ?U = "ints_enc ?w (take ?p vs)" and ?T = "ints_enc ?w (drop ?p vs)"
  have UT: "ints_enc ?w vs = ?U @ ?T" by (simp flip: ints_enc_simps(3))
  have lU: "length ?U = ?p * ?w" using search_pos_le [of vs v] by simp
  let ?is1 = "intsetResize junk is ((is_length is + 1) mod 2 ^ 32)"
  have m: "(length vs + 1) mod 2 ^ 32 = length vs + 1" using v(3) by simp
  obtain K where K0: "length K = ?w" "realloc junk (ints_enc ?w vs) ((length vs + 1) * ?w) = ints_enc ?w vs @ K"
    using realloc_grow [of "ints_enc ?w vs" "(length vs + 1) * ?w" junk] by auto
  then have "is_contents ?is1 = ints_enc ?w vs @ K"
    using resize_bound [OF w v(3)] m by (simp add: intsetResize_def n c)
  then have K: "length K = ?w" "is_contents ?is1 = ?U @ ?T @ K" using K0(1) unfolding UT by simp_all
  obtain K' where K': "length K' = ?w"
    "(if ?p < length vs then intsetMoveTail ?is1 ?p (?p + 1) else Some ?is1)
       = Some (?is1\<lparr>is_contents := ?U @ K' @ ?T\<rparr>)"
  proof (cases "?p < length vs")
    case True
    obtain K' where "length K' = ?w" and "memmove (?U @ ?T @ K) (length ?U + ?w) (length ?U) (length ?T)
        = Some (?U @ K' @ ?T)"
      using open_gap [OF K(1)] by blast
    moreover have "length ?U + ?w = (?p + 1) * ?w" "length ?T = (length vs - ?p) * ?w" using lU by simp_all
    ultimately show ?thesis
      using that [of K'] True w n v(3) K(2) lU
      by (simp add: intsetMoveTail_width intsetResize_def add.commute)
  next
    case False
    then have "?T = []" by simp
    with False K show ?thesis by (intro that [of K]) (simp_all add: intsetResize_def)
  qed
  have "write_at (?U @ K' @ ?T) (?p * ?w) (sle_enc ?w v) = Some (?U @ sle_enc ?w v @ ?T)"
    by (rule write_append) (use lU [symmetric] K'(1) in simp_all)
  then have "intset_Set (?is1\<lparr>is_contents := ?U @ K' @ ?T\<rparr>) (int ?p) v
      = Some (?is1\<lparr>is_contents := ?U @ sle_enc ?w v @ ?T\<rparr>)"
    using w by (simp add: intset_Set_width intsetResize_def)
  moreover have "intsetAdd junk is v = do {
      is' \<leftarrow> (if ?p < length vs then intsetMoveTail ?is1 ?p (?p + 1) else Some ?is1);
      is' \<leftarrow> intset_Set is' (int ?p) v;
      Some (is'\<lparr>is_length := (is_length is' + 1) mod 2 ^ 32\<rparr>, True) }"
    using le False by (simp add: intsetAdd_def intsetSearch_rep [OF r] Let_def n)
  ultimately have a: "intsetAdd junk is v
      = Some (is\<lparr>is_contents := ints_enc ?w (insort v vs), is_length := length vs + 1\<rparr>, True)"
    unfolding K'(2) using n m insort_search [OF s(1), of v] by simp
  show ?thesis
    using a False r v s w
    by (simp add: intset_rep_def sorted_insort distinct_insort set_insort_key list_all_iff)
qed

lemma intsetRemove_rep:
  assumes r: "intset_rep is vs" and v: "fits 8 v"
  shows "\<exists>is'. intsetRemove junk is v = Some (is', v \<in> set vs) \<and> intset_rep is' (remove1 v vs)"
proof (cases "v \<in> set vs")
  case False
  with r show ?thesis by (auto simp: intsetRemove_def intsetSearch_rep [OF r] remove1_idem)
next
  case True
  let ?w = "is_encoding is" and ?p = "search_pos vs v"
  have w: "?w \<in> {INTSET_ENC_INT16, INTSET_ENC_INT32, INTSET_ENC_INT64}" and n: "is_length is = length vs" "length vs < 2 ^ 29"
    and c: "is_contents is = ints_enc ?w vs" and s: "sorted vs" "distinct vs" "list_all (fits ?w) vs"
    using r by (auto simp: intset_rep_def)
  have le: "intsetValueEncoding v \<le> ?w" using w v True s(3) intsetValueEncoding_fits by (auto simp: list_all_iff)
  have p: "?p < length vs" "remove1 v vs = take ?p vs @ drop (Suc ?p) vs" using remove1_search [OF s(1) True] by simp_all
  let ?U = "ints_enc ?w (take ?p vs)" and ?T = "ints_enc ?w (drop (Suc ?p) vs)" and ?X = "sle_enc ?w (vs ! ?p)"
  have UXT: "ints_enc ?w vs = ?U @ ?X @ ?T" by (rule ints_enc_split [OF p(1)])
  have lU: "length ?U = ?p * ?w" using p by simp
  obtain K where K: "(if ?p < length vs - 1 then intsetMoveTail is (?p + 1) ?p else Some is)
      = Some (is\<lparr>is_contents := ?U @ ?T @ K\<rparr>)"
  proof (cases "?p < length vs - 1")
    case True
    obtain K where "memmove (?U @ ?X @ ?T) (length ?U) (length ?U + ?w) (length ?T) = Some (?U @ ?T @ K)"
      by (rule close_gap [where X = ?X and w = ?w and U = ?U and T = ?T]) simp
    moreover have "length ?U + ?w = (?p + 1) * ?w" "length ?T = (length vs - (?p + 1)) * ?w" using lU by simp_all
    ultimately show ?thesis
      using that [of K] True w n lU UXT c by (simp add: intsetMoveTail_width add.commute)
  next
    case False
    then have "?T = []" by simp
    with False UXT c show ?thesis by (intro that [of ?X]) simp
  qed
  have "realloc junk (?U @ ?T @ K) ((length vs - 1) * ?w mod 2 ^ 32) = ints_enc ?w (remove1 v vs)"
  proof -
    have "length (?U @ ?T) = (length vs - 1) * ?w" using p lU by (simp flip: add_mult_distrib)
    moreover have "(length vs - 1) * ?w mod 2 ^ 32 = (length vs - 1) * ?w" using n by (intro resize_bound [OF w]) simp
    ultimately have "realloc junk ((?U @ ?T) @ K) ((length vs - 1) * ?w mod 2 ^ 32) = ?U @ ?T"
      by (intro realloc_shrink) simp
    then show ?thesis unfolding p(2) by simp
  qed
  then have a: "intsetRemove junk is v
      = Some (is\<lparr>is_contents := ints_enc ?w (remove1 v vs), is_length := length vs - 1\<rparr>, True)"
    using le True K n by (simp add: intsetRemove_def intsetSearch_rep [OF r] intsetResize_def)
  have "list_all (fits ?w) (remove1 v vs)" using s(3) notin_set_remove1 by (auto simp: list_all_iff)
  then show ?thesis
    using a True r by (auto simp: intset_rep_def sorted_remove1 length_remove1)
qed

section \<open>Upgrading in place\<close>

text \<open>
  The loop goes from the last element to the first. Before it moves element \<open>n - 1\<close>, the first \<open>n\<close>
  elements are still readable at the old width and the others stand at their new place, behind
  \<open>(n + prepend)\<close> elements of the new width.
\<close>

lemma upgrade_loop_rep:
  assumes w: "cw \<in> {INTSET_ENC_INT16, INTSET_ENC_INT32, INTSET_ENC_INT64}"
      "is_encoding is \<in> {INTSET_ENC_INT16, INTSET_ENC_INT32, INTSET_ENC_INT64}" "cw \<le> is_encoding is"
    and n: "n \<le> length vs" "list_all (fits cw) vs"
    and pre: "take (n * cw) (is_contents is) = ints_enc cw (take n vs)"
    and post: "drop ((n + p) * is_encoding is) (is_contents is) = ints_enc (is_encoding is) (drop n vs) @ K"
    and len: "(n + p) * is_encoding is \<le> length (is_contents is)"
  shows "\<exists>buf. upgrade_loop is cw p n = Some (is\<lparr>is_contents := buf\<rparr>) \<and>
    length buf = length (is_contents is) \<and>
    drop (p * is_encoding is) buf = ints_enc (is_encoding is) vs @ K"
  using n(1) w(2,3) pre post len
proof (induction n arbitrary: "is")
  case 0
  then show ?case by (intro exI [of _ "is_contents is"]) simp
next
  case (Suc n)
  let ?w = "is_encoding is" and ?buf = "is_contents is" and ?v = "vs ! n"
  have fit: "fits cw ?v" using n(2) Suc.prems(1) by (simp add: list_all_length)
  have "Suc n * cw \<le> Suc n * ?w" using Suc.prems(3) by (rule mult_le_mono2)
  also have "\<dots> \<le> (Suc n + p) * ?w" by (rule mult_le_mono1) simp
  also have "\<dots> \<le> length ?buf" by (rule Suc.prems(6))
  finally have "read_at ?buf (n * cw) cw = Some (sle_enc cw (take (Suc n) vs ! n))"
    using Suc.prems(1,4) by (intro read_ints_prefix) simp_all
  then have get: "intsetGetEncoded is (int n) cw = Some ?v"
    using w(1) fit by (simp add: intsetGetEncoded_width)
  let ?off = "(n + p) * ?w"
  have off: "?off + ?w = (Suc n + p) * ?w" by simp
  have lb: "?off + ?w \<le> length ?buf" unfolding off by (rule Suc.prems(6))
  define buf' where "buf' = take ?off ?buf @ sle_enc ?w ?v @ drop (?off + ?w) ?buf"
  have "write_at ?buf ?off (sle_enc ?w ?v) = Some buf'" using lb by (simp add: write_at_def buf'_def)
  then have set: "intset_Set is (int n + int p) ?v = Some (is\<lparr>is_contents := buf'\<rparr>)"
    using Suc.prems(2) intset_Set_width [of "is" "n + p" ?v] by simp
  have lb': "length buf' = length ?buf" using lb by (simp add: buf'_def)
  have pre': "take (n * cw) buf' = ints_enc cw (take n vs)"
  proof -
    have "n * cw \<le> ?off" using Suc.prems(3) by (simp add: mult_le_mono)
    then have "take (n * cw) buf' = take (n * cw) ?buf" using lb by (simp add: buf'_def min_absorb1)
    also have "\<dots> = take (n * cw) (take (Suc n * cw) ?buf)" by (simp add: min_absorb1)
    also have "\<dots> = ints_enc cw (take n vs)"
      unfolding Suc.prems(4) using Suc.prems(1) by (simp add: take_Suc_conv_app_nth)
    finally show ?thesis .
  qed
  have post': "drop ?off buf' = ints_enc ?w (drop n vs) @ K"
  proof -
    have "drop ?off buf' = sle_enc ?w ?v @ drop (?off + ?w) ?buf" using lb by (simp add: buf'_def)
    also have "drop (?off + ?w) ?buf = ints_enc ?w (drop (Suc n) vs) @ K" unfolding off by (rule Suc.prems(5))
    also have "drop n vs = ?v # drop (Suc n) vs" using Suc.prems(1) by (simp add: Cons_nth_drop_Suc)
    ultimately show ?thesis by simp
  qed
  have "\<exists>buf. upgrade_loop (is\<lparr>is_contents := buf'\<rparr>) cw p n = Some (is\<lparr>is_contents := buf\<rparr>) \<and>
      length buf = length ?buf \<and> drop (p * ?w) buf = ints_enc ?w vs @ K"
    using Suc.IH [of "is\<lparr>is_contents := buf'\<rparr>"] Suc.prems(1-3) pre' post' lb lb' by simp
  then show ?case using get set by simp
qed

lemma fits_outside:
  assumes "v \<in> set vs" "list_all (fits w) vs" "\<not> fits w x"
  shows "if x < 0 then x < v else v < x"
  using assms by (auto simp: list_all_iff fits_def)

lemma insort_min: "(\<And>y. y \<in> set ys \<Longrightarrow> x < y) \<Longrightarrow> insort x ys = x # (ys :: int list)"
  by (cases ys) (auto simp: less_imp_le)

lemma insort_max: "(\<And>y. y \<in> set ys \<Longrightarrow> y < x) \<Longrightarrow> insort x ys = ys @ [x :: int]"
  by (induction ys) (auto simp flip: not_less)

lemma intsetUpgradeAndAdd_rep:
  assumes r: "intset_rep is vs" and v: "\<not> fits (is_encoding is) v" "fits 8 v" "length vs + 1 < 2 ^ 29"
  shows "\<exists>is'. intsetUpgradeAndAdd junk is v = Some is' \<and> intset_rep is' (insort v vs)"
proof -
  let ?cw = "is_encoding is" and ?w = "intsetValueEncoding v" and ?p = "if v < 0 then 1 else 0 :: nat"
  have cw: "?cw \<in> {INTSET_ENC_INT16, INTSET_ENC_INT32, INTSET_ENC_INT64}" and n: "is_length is = length vs"
    and c: "is_contents is = ints_enc ?cw vs" and s: "sorted vs" "distinct vs" "list_all (fits ?cw) vs"
    using r by (auto simp: intset_rep_def)
  note w = intsetValueEncoding_ok(1) [of v]
  have le: "?cw \<le> ?w" using intsetValueEncoding_fits [OF cw v(2)] v(1) by simp
  have lew: "length vs * ?cw \<le> (length vs + 1) * ?w" using le by (intro mult_le_mono) simp_all
  let ?is1 = "intsetResize junk (is\<lparr>is_encoding := ?w\<rparr>) ((length vs + 1) mod 2 ^ 32)"
  have m: "(length vs + 1) mod 2 ^ 32 = length vs + 1" using v(3) by simp
  have rs: "is_contents ?is1 = realloc junk (ints_enc ?cw vs) ((length vs + 1) * ?w)"
    using resize_bound [OF w v(3)] m c by (simp add: intsetResize_def)
  define K where "K = drop ((length vs + ?p) * ?w) (is_contents ?is1)"
  have "\<exists>buf. upgrade_loop ?is1 ?cw ?p (length vs) = Some (?is1\<lparr>is_contents := buf\<rparr>) \<and>
      length buf = length (is_contents ?is1) \<and> drop (?p * is_encoding ?is1) buf = ints_enc (is_encoding ?is1) vs @ K"
  proof (rule upgrade_loop_rep [OF cw])
    show "take (length vs * ?cw) (is_contents ?is1) = ints_enc ?cw (take (length vs) vs)"
      unfolding rs using lew by (simp add: realloc_def)
    show "(length vs + ?p) * is_encoding ?is1 \<le> length (is_contents ?is1)"
      unfolding rs by (cases "v < 0") simp_all
  qed (use w le s in \<open>simp_all add: K_def\<close>)
  then obtain buf where buf: "upgrade_loop ?is1 ?cw ?p (length vs) = Some (is\<lparr>is_encoding := ?w, is_contents := buf\<rparr>)"
    "length buf = (length vs + 1) * ?w" "drop (?p * ?w) buf = ints_enc ?w vs @ K"
    unfolding rs by auto
  have lK: "length K = (1 - ?p) * ?w"
    unfolding K_def rs by (simp flip: diff_mult_distrib)
  have wr: "write_at buf ((if v < 0 then 0 else length vs) * ?w) (sle_enc ?w v) = Some (ints_enc ?w (insort v vs))"
  proof (cases "v < 0")
    case True
    then have "insort v vs = v # vs" using fits_outside [OF _ s(3) v(1)] by (intro insort_min) simp
    with True buf lK show ?thesis by (simp add: write_at_def)
  next
    case False
    then have "insort v vs = vs @ [v]" using fits_outside [OF _ s(3) v(1)] by (intro insort_max) simp
    with False buf lK show ?thesis using write_append [of "length vs * ?w" "ints_enc ?w vs" "sle_enc ?w v" K "[]"] by simp
  qed
  then have "intsetUpgradeAndAdd junk is v
      = Some (is\<lparr>is_encoding := ?w, is_contents := ints_enc ?w (insort v vs), is_length := length vs + 1\<rparr>)"
    using buf(1) w m intset_Set_width [of "is\<lparr>is_encoding := ?w, is_contents := buf\<rparr>" _ v]
      intset_Set_width [of "is\<lparr>is_encoding := ?w, is_contents := buf\<rparr>" 0 v]
    by (simp add: intsetUpgradeAndAdd_def Let_def n split: if_splits)
  moreover have "v \<notin> set vs" using s(3) v(1) by (auto simp: list_all_iff)
  moreover have "list_all (fits ?w) vs" using s(3) le fits_mono by (auto simp: list_all_iff)
  ultimately show ?thesis
    using w v s intsetValueEncoding_ok(2)
    by (simp add: intset_rep_def sorted_insort distinct_insort set_insort_key list_all_iff)
qed

lemma intsetAdd_rep:
  assumes "intset_rep is vs" "fits 8 v" "length vs + 1 < 2 ^ 29"
  shows "\<exists>is'. intsetAdd junk is v = Some (is', v \<notin> set vs) \<and>
    intset_rep is' (if v \<in> set vs then vs else insort v vs)"
proof (cases "fits (is_encoding is) v")
  case True
  with assms show ?thesis by (intro intsetAdd_same_width)
next
  case False
  have "intsetValueEncoding v > is_encoding is" "v \<notin> set vs"
    using assms False intsetValueEncoding_fits [of "is_encoding is" v]
    by (auto simp: intset_rep_def list_all_iff not_le)
  with intsetUpgradeAndAdd_rep [OF assms(1) False assms(2,3), of junk] show ?thesis
    by (auto simp: intsetAdd_def)
qed

section \<open>The integer set as a set\<close>

abbreviation int64s :: "int set" where
  "int64s \<equiv> {v. fits 8 v}"

definition intset_find :: "intset \<Rightarrow> int \<Rightarrow> (intset \<times> bool) option" where
  "intset_find is v = map_option (Pair is) (intsetFind is v)"

interpretation intset_store: set_store int64s intset_ok "\<lambda>is. set (intset_elems is)" "2 ^ 29 - 1"
  "intsetAdd junk" "intsetRemove junk'" intset_find for junk junk'
proof
  fix "is" v
  assume ok: "intset_ok is"
  show "finite (set (intset_elems is))" by simp
  have rep: "intset_rep is (intset_elems is)" using ok by (simp add: intset_ok_def)
  then have d: "distinct (intset_elems is)" by (simp add: intset_rep_def)
  assume v: "v \<in> int64s"
  show "\<exists>is'. intsetAdd junk is v = Some (is', v \<notin> set (intset_elems is)) \<and> intset_ok is'
      \<and> set (intset_elems is') = insert v (set (intset_elems is))"
    if "card (set (intset_elems is)) < 2 ^ 29 - 1"
  proof -
    have "length (intset_elems is) + 1 < 2 ^ 29" using that d by (simp add: distinct_card)
    with intsetAdd_rep [OF rep, of v junk] v obtain is' where
      "intsetAdd junk is v = Some (is', v \<notin> set (intset_elems is))"
      and r: "intset_rep is' (if v \<in> set (intset_elems is) then intset_elems is else insort v (intset_elems is))"
      by blast
    then show ?thesis using intset_rep_elems [OF r] r by (auto simp: intset_ok_iff set_insort_key)
  qed
  show "\<exists>is'. intsetRemove junk' is v = Some (is', v \<in> set (intset_elems is)) \<and> intset_ok is'
      \<and> set (intset_elems is') = set (intset_elems is) - {v}"
  proof -
    from intsetRemove_rep [OF rep, of v junk'] v obtain is' where
      "intsetRemove junk' is v = Some (is', v \<in> set (intset_elems is))" "intset_rep is' (remove1 v (intset_elems is))"
      by auto
    then show ?thesis using intset_rep_elems [of is'] d by (auto simp: intset_ok_iff)
  qed
  show "\<exists>is'. intset_find is v = Some (is', v \<in> set (intset_elems is)) \<and> intset_ok is'
      \<and> set (intset_elems is') = set (intset_elems is)"
    using intsetFind_rep [OF rep, of v] v ok by (simp add: intset_find_def)
qed

lemma intsetNew_ok [simp]: "intset_ok intsetNew" "intset_elems intsetNew = []"
proof -
  show "intset_ok intsetNew" unfolding intset_ok_iff using intsetNew_rep by (rule exI)
  show "intset_elems intsetNew = []" by (rule intset_rep_elems [OF intsetNew_rep])
qed

text \<open>C9: any sequence of fewer than \<open>2^29\<close> insertions, removals and lookups of 64-bit integers on a new
  integer set never reads or writes outside its blob, the binary search always ends, every answer
  is that of a mathematical set, and the blob holds the members in increasing order, whatever
  upgrades of the element width (done in place) and moves of its tail happen on the way.\<close>

theorem intset_refines_set:
  assumes "length ops < 2 ^ 29" "\<forall>op \<in> set ops. - (2 ^ 63) \<le> op_elem op \<and> op_elem op < 2 ^ 63"
  shows "\<exists>is. set_run (intsetAdd junk) (intsetRemove junk) intset_find ops intsetNew
        = Some (fst (spec_run ops {}), is)
    \<and> intset_elems is = sorted_list_of_set (snd (spec_run ops {}))
    \<and> length (is_contents is) = is_encoding is * card (snd (spec_run ops {}))"
proof -
  have "\<forall>op \<in> set ops. op_elem op \<in> int64s" using assms(2) by (simp add: fits_def)
  with intset_store.run_refines [of intsetNew ops junk junk] assms(1) obtain "is" where
    r: "set_run (intsetAdd junk) (intsetRemove junk) intset_find ops intsetNew = Some (fst (spec_run ops {}), is)"
      "intset_ok is" "set (intset_elems is) = snd (spec_run ops {})" by auto
  then have rep: "intset_rep is (intset_elems is)" by (simp add: intset_ok_def)
  then have "sorted (intset_elems is)" "distinct (intset_elems is)" by (simp_all add: intset_rep_def)
  then have e: "intset_elems is = sorted_list_of_set (snd (spec_run ops {}))"
    unfolding r(3) [symmetric] by (simp add: sorted_list_of_set.idem_if_sorted_distinct)
  have "length (is_contents is) = is_encoding is * length (intset_elems is)"
    using rep by (simp add: intset_rep_def mult.commute)
  also have "length (intset_elems is) = card (set (intset_elems is))"
    using \<open>distinct (intset_elems is)\<close> by (simp add: distinct_card)
  finally show ?thesis using r e by simp
qed

theorem intset_refines_set_witness:
  "\<exists>is. set_run (intsetAdd (\<lambda>_. 0)) (intsetRemove (\<lambda>_. 0)) intset_find
        [SetAdd 5, SetAdd (-100000), SetAdd 5, SetFind 5, SetRemove 5] intsetNew
      = Some ([True, True, False, True, True], is)
    \<and> intset_elems is = [-100000]"
proof -
  let ?ops = "[SetAdd 5, SetAdd (-100000), SetAdd 5, SetFind 5, SetRemove (5 :: int)]"
  have s: "spec_run ?ops {} = ([True, True, False, True, True], {-100000})" by auto
  from intset_refines_set [of ?ops "\<lambda>_. 0"] show ?thesis unfolding s by auto
qed

end
