(* ===== verification/Sds.thy ===== *)
theory Sds
  imports Bytes
begin

text \<open>
  Simple dynamic strings, \<^verbatim>\<open>sds.c\<close> and \<^verbatim>\<open>sds.h\<close>: the five header types, allocation, growth and the
  primitive operations. A string is its header (type, length, allocated size) and the memory from
  the pointer \<^verbatim>\<open>s\<close> to the end of the allocation. Header fields have the width of their type, sizes
  are \<^verbatim>\<open>size_t\<close>; \<open>None\<close> is a failed \<^verbatim>\<open>assert\<close> or an access outside a buffer. The bytes of new memory
  are given by \<open>junk\<close>. The allocator aborts when it is out of memory, so it never returns \<^verbatim>\<open>NULL\<close>.
\<close>

section \<open>Headers\<close>

datatype sds_type = SDS_TYPE_5 | SDS_TYPE_8 | SDS_TYPE_16 | SDS_TYPE_32 | SDS_TYPE_64

record sds =
  s_type :: sds_type
  s_len :: nat
  s_alloc :: nat
  s_buf :: "byte list"

definition SDS_MAX_PREALLOC :: nat where "SDS_MAX_PREALLOC = 1048576"

fun len_bits :: "sds_type \<Rightarrow> nat" where
  "len_bits SDS_TYPE_5 = 5" | "len_bits SDS_TYPE_8 = 8" | "len_bits SDS_TYPE_16 = 16"
| "len_bits SDS_TYPE_32 = 32" | "len_bits SDS_TYPE_64 = 64"

fun sdsHdrSize :: "sds_type \<Rightarrow> nat" where
  "sdsHdrSize SDS_TYPE_5 = 1" | "sdsHdrSize SDS_TYPE_8 = 3" | "sdsHdrSize SDS_TYPE_16 = 5"
| "sdsHdrSize SDS_TYPE_32 = 9" | "sdsHdrSize SDS_TYPE_64 = 17"

definition sdsReqType :: "nat \<Rightarrow> sds_type" where
  "sdsReqType string_size =
     (if string_size < 2 ^ 5 then SDS_TYPE_5
      else if string_size < 2 ^ 8 then SDS_TYPE_8
      else if string_size < 2 ^ 16 then SDS_TYPE_16
      else if string_size < 2 ^ 32 then SDS_TYPE_32
      else SDS_TYPE_64)"

definition sdslen :: "sds \<Rightarrow> nat" where
  "sdslen s = s_len s"

definition sdsavail :: "sds \<Rightarrow> nat" where
  "sdsavail s = (case s_type s of
     SDS_TYPE_5 \<Rightarrow> 0
   | SDS_TYPE_32 \<Rightarrow> (s_alloc s + 2 ^ 32 - s_len s) mod 2 ^ 32
   | _ \<Rightarrow> (s_alloc s + 2 ^ 64 - s_len s) mod 2 ^ 64)"

definition sdssetlen :: "sds \<Rightarrow> nat \<Rightarrow> sds" where
  "sdssetlen s newlen = s\<lparr>s_len := newlen mod 2 ^ len_bits (s_type s)\<rparr>"

definition sdsinclen :: "sds \<Rightarrow> nat \<Rightarrow> sds" where
  "sdsinclen s inc = s\<lparr>s_len := (s_len s + inc) mod 2 ^ len_bits (s_type s)\<rparr>"

definition sdsalloc :: "sds \<Rightarrow> nat" where
  "sdsalloc s = (case s_type s of SDS_TYPE_5 \<Rightarrow> s_len s | _ \<Rightarrow> s_alloc s)"

definition sdssetalloc :: "sds \<Rightarrow> nat \<Rightarrow> sds" where
  "sdssetalloc s newlen = (case s_type s of SDS_TYPE_5 \<Rightarrow> s
     | _ \<Rightarrow> s\<lparr>s_alloc := newlen mod 2 ^ len_bits (s_type s)\<rparr>)"

section \<open>Memory\<close>

definition sds_write :: "sds \<Rightarrow> nat \<Rightarrow> byte list \<Rightarrow> sds option" where
  "sds_write s off bs = map_option (\<lambda>buf. s\<lparr>s_buf := buf\<rparr>) (write_at (s_buf s) off bs)"

definition strlen :: "byte list \<Rightarrow> nat option" where
  "strlen p = (if 0 \<in> set p then Some (length (takeWhile (\<lambda>c. c \<noteq> 0) p)) else None)"

definition fresh_mem :: "(nat \<Rightarrow> byte) \<Rightarrow> nat \<Rightarrow> byte list" where
  "fresh_mem junk n = map junk [0 ..< n]"

section \<open>Creation\<close>

datatype sds_init = InitNull | SDS_NOINIT | InitFrom "byte list"

definition sdsnewlen :: "(nat \<Rightarrow> byte) \<Rightarrow> sds_init \<Rightarrow> nat \<Rightarrow> sds option" where
  "sdsnewlen junk init initlen =
     (let type = sdsReqType initlen;
          type = (if type = SDS_TYPE_5 \<and> initlen = 0 then SDS_TYPE_8 else type);
          hdrlen = sdsHdrSize type;
          size = (hdrlen + initlen + 1) mod 2 ^ 64
      in if \<not> size > initlen then None
      else do {
        let mem = (if init = InitNull then replicate (size - hdrlen) 0 else fresh_mem junk (size - hdrlen));
        let s = \<lparr>s_type = type, s_len = initlen mod 2 ^ len_bits type,
                 s_alloc = initlen mod 2 ^ len_bits type, s_buf = mem\<rparr>;
        s \<leftarrow> (case init of
                InitFrom p \<Rightarrow> if initlen \<noteq> 0 then do { bs \<leftarrow> read_at p 0 initlen; sds_write s 0 bs } else Some s
              | _ \<Rightarrow> Some s);
        sds_write s initlen [0] })"

definition sdsempty :: "(nat \<Rightarrow> byte) \<Rightarrow> sds option" where
  "sdsempty junk = sdsnewlen junk (InitFrom [0]) 0"

definition sdsnew :: "(nat \<Rightarrow> byte) \<Rightarrow> byte list option \<Rightarrow> sds option" where
  "sdsnew junk init = (case init of
     None \<Rightarrow> sdsnewlen junk InitNull 0
   | Some p \<Rightarrow> do { initlen \<leftarrow> strlen p; sdsnewlen junk (InitFrom p) initlen })"

definition sdsdup :: "(nat \<Rightarrow> byte) \<Rightarrow> sds \<Rightarrow> sds option" where
  "sdsdup junk s = sdsnewlen junk (InitFrom (s_buf s)) (sdslen s)"

definition sdsupdatelen :: "sds \<Rightarrow> sds option" where
  "sdsupdatelen s = do { reallen \<leftarrow> strlen (s_buf s); Some (sdssetlen s reallen) }"

definition sdsclear :: "sds \<Rightarrow> sds option" where
  "sdsclear s = sds_write (sdssetlen s 0) 0 [0]"

section \<open>Growing and shrinking\<close>

definition sdsMakeRoomFor :: "(nat \<Rightarrow> byte) \<Rightarrow> sds \<Rightarrow> nat \<Rightarrow> sds option" where
  "sdsMakeRoomFor junk s addlen =
     (if sdsavail s \<ge> addlen then Some s
      else
        let len = sdslen s;
            newlen = (len + addlen) mod 2 ^ 64
        in if \<not> newlen > len then None
        else
          let newlen = (if newlen < SDS_MAX_PREALLOC then newlen * 2
                        else (newlen + SDS_MAX_PREALLOC) mod 2 ^ 64);
              type = sdsReqType newlen;
              type = (if type = SDS_TYPE_5 then SDS_TYPE_8 else type);
              hdrlen = sdsHdrSize type;
              size = (hdrlen + newlen + 1) mod 2 ^ 64
          in if \<not> size > len then None
          else do {
            s \<leftarrow> (if s_type s = type then Some (s\<lparr>s_buf := realloc junk (s_buf s) (size - hdrlen)\<rparr>)
                  else do {
                    bs \<leftarrow> read_at (s_buf s) 0 (len + 1);
                    mem \<leftarrow> write_at (fresh_mem junk (size - hdrlen)) 0 bs;
                    Some (sdssetlen (s\<lparr>s_type := type, s_buf := mem\<rparr>) len) });
            Some (sdssetalloc s newlen) })"

fun type_num :: "sds_type \<Rightarrow> nat" where
  "type_num SDS_TYPE_5 = 0" | "type_num SDS_TYPE_8 = 1" | "type_num SDS_TYPE_16 = 2"
| "type_num SDS_TYPE_32 = 3" | "type_num SDS_TYPE_64 = 4"

definition sdsRemoveFreeSpace :: "(nat \<Rightarrow> byte) \<Rightarrow> sds \<Rightarrow> sds option" where
  "sdsRemoveFreeSpace junk s =
     (let len = sdslen s; oldtype = s_type s in
      if sdsavail s = 0 then Some s
      else
        let type = sdsReqType len in do {
          s \<leftarrow> (if oldtype = type \<or> type_num type > type_num SDS_TYPE_8
                then Some (s\<lparr>s_buf := realloc junk (s_buf s) (len + 1)\<rparr>)
                else do {
                  bs \<leftarrow> read_at (s_buf s) 0 (len + 1);
                  mem \<leftarrow> write_at (fresh_mem junk (len + 1)) 0 bs;
                  Some (sdssetlen (s\<lparr>s_type := type, s_buf := mem\<rparr>) len) });
          Some (sdssetalloc s len) })"

definition sdsAllocSize :: "sds \<Rightarrow> nat" where
  "sdsAllocSize s = sdsHdrSize (s_type s) + sdsalloc s + 1"

text \<open>The assertions convert \<^verbatim>\<open>-incr\<close> and \<^verbatim>\<open>incr\<close> to the unsigned types written in the source.\<close>

definition sdsIncrLen :: "sds \<Rightarrow> int \<Rightarrow> sds option" where
  "sdsIncrLen s incr =
     (let len = int (s_len s);
          ok = (case s_type s of
             SDS_TYPE_5 \<Rightarrow> incr > 0 \<and> len + incr < 32 \<or> incr < 0 \<and> len \<ge> (- incr) mod 2 ^ 32
           | SDS_TYPE_8 \<Rightarrow> incr \<ge> 0 \<and> int (s_alloc s) - len \<ge> incr \<or> incr < 0 \<and> len \<ge> (- incr) mod 2 ^ 32
           | SDS_TYPE_16 \<Rightarrow> incr \<ge> 0 \<and> int (s_alloc s) - len \<ge> incr \<or> incr < 0 \<and> len \<ge> (- incr) mod 2 ^ 32
           | SDS_TYPE_32 \<Rightarrow> incr \<ge> 0 \<and> (int (s_alloc s) - len) mod 2 ^ 32 \<ge> incr mod 2 ^ 32
               \<or> incr < 0 \<and> len \<ge> (- incr) mod 2 ^ 32
           | SDS_TYPE_64 \<Rightarrow> incr \<ge> 0 \<and> (int (s_alloc s) - len) mod 2 ^ 64 \<ge> incr mod 2 ^ 64
               \<or> incr < 0 \<and> len \<ge> (- incr) mod 2 ^ 64)
      in if \<not> ok then None
      else
        let s = s\<lparr>s_len := nat ((len + incr) mod 2 ^ len_bits (s_type s))\<rparr>
        in sds_write s (s_len s) [0])"

definition sdsgrowzero :: "(nat \<Rightarrow> byte) \<Rightarrow> sds \<Rightarrow> nat \<Rightarrow> sds option" where
  "sdsgrowzero junk s len =
     (let curlen = sdslen s in
      if len \<le> curlen then Some s
      else do {
        s \<leftarrow> sdsMakeRoomFor junk s (len - curlen);
        s \<leftarrow> sds_write s curlen (replicate (len - curlen + 1) 0);
        Some (sdssetlen s len) })"

section \<open>Appending and copying\<close>

definition sdscatlen :: "(nat \<Rightarrow> byte) \<Rightarrow> sds \<Rightarrow> byte list \<Rightarrow> nat \<Rightarrow> sds option" where
  "sdscatlen junk s t len = do {
     let curlen = sdslen s;
     s \<leftarrow> sdsMakeRoomFor junk s len;
     bs \<leftarrow> read_at t 0 len;
     s \<leftarrow> sds_write s curlen bs;
     sds_write (sdssetlen s (curlen + len)) (curlen + len) [0] }"

definition sdscat :: "(nat \<Rightarrow> byte) \<Rightarrow> sds \<Rightarrow> byte list \<Rightarrow> sds option" where
  "sdscat junk s t = do { len \<leftarrow> strlen t; sdscatlen junk s t len }"

definition sdscatsds :: "(nat \<Rightarrow> byte) \<Rightarrow> sds \<Rightarrow> sds \<Rightarrow> sds option" where
  "sdscatsds junk s t = sdscatlen junk s (s_buf t) (sdslen t)"

definition sdscpylen :: "(nat \<Rightarrow> byte) \<Rightarrow> sds \<Rightarrow> byte list \<Rightarrow> nat \<Rightarrow> sds option" where
  "sdscpylen junk s t len = do {
     s \<leftarrow> (if sdsalloc s < len then sdsMakeRoomFor junk s (len - sdslen s) else Some s);
     bs \<leftarrow> read_at t 0 len;
     s \<leftarrow> sds_write s 0 bs;
     s \<leftarrow> sds_write s len [0];
     Some (sdssetlen s len) }"

definition sdscpy :: "(nat \<Rightarrow> byte) \<Rightarrow> sds \<Rightarrow> byte list \<Rightarrow> sds option" where
  "sdscpy junk s t = do { len \<leftarrow> strlen t; sdscpylen junk s t len }"

section \<open>The invariant and the value of a string\<close>

definition sds_shape :: "sds \<Rightarrow> bool" where
  "sds_shape s \<longleftrightarrow> s_len s < 2 ^ len_bits (s_type s) \<and> s_len s < length (s_buf s) \<and>
     (s_type s \<noteq> SDS_TYPE_5 \<longrightarrow>
        s_len s \<le> s_alloc s \<and> s_alloc s < 2 ^ len_bits (s_type s) \<and> length (s_buf s) = s_alloc s + 1)"

definition sds_inv :: "sds \<Rightarrow> bool" where
  "sds_inv s \<longleftrightarrow> sds_shape s \<and> s_buf s ! s_len s = 0"

definition sds_val :: "sds \<Rightarrow> byte list" where
  "sds_val s = take (s_len s) (s_buf s)"

text \<open>There is room for \<open>n\<close> bytes and the terminator, and the header can count them.\<close>

definition sds_room :: "sds \<Rightarrow> nat \<Rightarrow> bool" where
  "sds_room s n \<longleftrightarrow> n < length (s_buf s) \<and> n < 2 ^ len_bits (s_type s) \<and>
     (s_type s \<noteq> SDS_TYPE_5 \<longrightarrow> s_alloc s < 2 ^ len_bits (s_type s) \<and> length (s_buf s) = s_alloc s + 1)"

lemma sds_inv_room: "sds_inv s \<Longrightarrow> sds_room s (s_len s)"
  by (auto simp: sds_inv_def sds_shape_def sds_room_def)

lemma len_bits_le [simp]: "(2 :: nat) ^ len_bits ty \<le> 2 ^ 64"
  by (cases ty) simp_all

lemma sdsReqType_bits: "n < 2 ^ 64 \<Longrightarrow> n < 2 ^ len_bits (sdsReqType n)"
  by (simp add: sdsReqType_def)

lemma sdsavail_shape: "sds_shape s \<Longrightarrow> sdsavail s = (if s_type s = SDS_TYPE_5 then 0 else s_alloc s - s_len s)"
proof -
  assume inv: "sds_shape s"
  have wrap: "(a + m - l) mod m = a - l" if "l \<le> a" "a < m" for a l m :: nat
  proof -
    have e: "a + m - l = (a - l) + m" using that by simp
    show ?thesis unfolding e mod_add_self2 using that by simp
  qed
  have "s_alloc s < 2 ^ 64" "s_len s \<le> s_alloc s" if "s_type s \<noteq> SDS_TYPE_5"
    using inv that len_bits_le [of "s_type s"] unfolding sds_shape_def by linarith+
  moreover have "s_alloc s < 2 ^ 32" if "s_type s = SDS_TYPE_32"
    using inv that unfolding sds_shape_def by simp
  ultimately show ?thesis
    unfolding sdsavail_def by (cases "s_type s") (simp_all only: sds_type.case wrap sds_type.distinct if_True if_False simp_thms)
qed

lemma sds_inv_shape: "sds_inv s \<Longrightarrow> sds_shape s"
  by (simp add: sds_inv_def)

lemmas sdsavail_inv = sdsavail_shape [OF sds_inv_shape]

lemma sds_val_length [simp]: "sds_shape s \<Longrightarrow> length (sds_val s) = s_len s" "sds_inv s \<Longrightarrow> length (sds_val s) = s_len s"
  by (simp_all add: sds_inv_def sds_shape_def sds_val_def)

text \<open>Writing the contents and the terminator, and setting the length, makes a string of that value.\<close>

lemma sds_set:
  assumes "sds_room s (length bs)" "s_buf s = bs @ 0 # rest"
  shows "sds_inv (sdssetlen s (length bs))" "sds_val (sdssetlen s (length bs)) = bs"
  using assms by (auto simp: sds_inv_def sds_shape_def sds_val_def sds_room_def sdssetlen_def)

lemma sds_write_at:
  "off = length xs \<Longrightarrow> length bs = length ys \<Longrightarrow> s_buf s = xs @ ys @ zs
    \<Longrightarrow> sds_write s off bs = Some (s\<lparr>s_buf := xs @ bs @ zs\<rparr>)"
  by (simp add: sds_write_def write_append)

lemma sdsMakeRoomFor_shape:
  assumes inv: "sds_shape s" and small: "s_len s + n < 2 ^ 62"
  shows "\<exists>s'. sdsMakeRoomFor junk s n = Some s' \<and> sds_shape s' \<and> sds_val s' = sds_val s \<and> s_len s' = s_len s
    \<and> s_buf s' ! s_len s = s_buf s ! s_len s \<and> sds_room s' (s_len s + n)"
proof (cases "sdsavail s \<ge> n")
  case True
  with inv have "sds_room s (s_len s + n)"
    by (auto simp: sdsavail_shape sds_room_def sds_shape_def split: if_splits)
  with True inv show ?thesis by (simp add: sdsMakeRoomFor_def)
next
  case False
  let ?len = "s_len s" and ?b = "s_buf s ! s_len s"
  define k where "k = (if ?len + n < SDS_MAX_PREALLOC then (?len + n) * 2 else ?len + n + SDS_MAX_PREALLOC)"
  define ty where "ty = (if sdsReqType k = SDS_TYPE_5 then SDS_TYPE_8 else sdsReqType k)"
  have k: "?len + n \<le> k" "k < 2 ^ 63" using small by (auto simp: k_def SDS_MAX_PREALLOC_def)
  have n: "0 < n" using False by simp
  have m1: "(?len + n) mod 2 ^ 64 = ?len + n" using small by simp
  have m2: "(if ?len + n < SDS_MAX_PREALLOC then (?len + n) * 2 else (?len + n + SDS_MAX_PREALLOC) mod 2 ^ 64) = k"
    using small by (simp add: k_def SDS_MAX_PREALLOC_def)
  have h: "sdsHdrSize ty \<le> 17" by (cases ty) simp_all
  have m3: "(sdsHdrSize ty + k + 1) mod 2 ^ 64 = sdsHdrSize ty + k + 1" using k h by (intro mod_less) simp
  have kb: "k < 2 ^ len_bits ty" using sdsReqType_bits [of k] k by (auto simp: ty_def)
  have ty5: "ty \<noteq> SDS_TYPE_5" by (simp add: ty_def)
  have split: "s_buf s = sds_val s @ ?b # drop (Suc ?len) (s_buf s)"
    using inv id_take_nth_drop [of ?len "s_buf s"] by (simp add: sds_shape_def sds_val_def)
  have ev: "sdsMakeRoomFor junk s n = do {
      s \<leftarrow> (if s_type s = ty then Some (s\<lparr>s_buf := realloc junk (s_buf s) (k + 1)\<rparr>)
            else do {
              bs \<leftarrow> read_at (s_buf s) 0 (?len + 1);
              mem \<leftarrow> write_at (fresh_mem junk (k + 1)) 0 bs;
              Some (sdssetlen (s\<lparr>s_type := ty, s_buf := mem\<rparr>) ?len) });
      Some (sdssetalloc s k) }"
    unfolding sdsMakeRoomFor_def Let_def sdslen_def m1 m2 ty_def [symmetric] m3
    using False n k by simp
  obtain rest where buf: "(if s_type s = ty then Some (s\<lparr>s_buf := realloc junk (s_buf s) (k + 1)\<rparr>)
            else do {
              bs \<leftarrow> read_at (s_buf s) 0 (?len + 1);
              mem \<leftarrow> write_at (fresh_mem junk (k + 1)) 0 bs;
              Some (sdssetlen (s\<lparr>s_type := ty, s_buf := mem\<rparr>) ?len) })
      = Some (s\<lparr>s_type := ty, s_buf := sds_val s @ ?b # rest\<rparr>)" "?len + 1 + length rest = k + 1"
  proof (cases "s_type s = ty")
    case True
    have "s_alloc s < k" using False inv n True ty5 k by (auto simp: sdsavail_shape)
    then have "realloc junk (s_buf s) (k + 1) = s_buf s @ map junk [length (s_buf s)..<k + 1]"
      using inv True ty5 by (simp add: realloc_def sds_shape_def)
    also have "\<dots> = sds_val s @ ?b # (drop (Suc ?len) (s_buf s) @ map junk [length (s_buf s)..<k + 1])"
      by (subst split) simp
    finally have e: "realloc junk (s_buf s) (k + 1) = \<dots>" .
    let ?r = "drop (Suc ?len) (s_buf s) @ map junk [length (s_buf s)..<k + 1]"
    have "length (sds_val s @ ?b # ?r) = k + 1" unfolding e [symmetric] by simp
    then have "?len + 1 + length ?r = k + 1" using inv by simp
    moreover have "s\<lparr>s_buf := b\<rparr> = s\<lparr>s_type := ty, s_buf := b\<rparr>" for b using True by (cases s) simp
    ultimately show ?thesis using True e by (intro that [of ?r]) (simp_all only: if_True refl)
  next
    case False
    have rd: "read_at (s_buf s) 0 (?len + 1) = Some (sds_val s @ [?b])"
      using inv by (subst split) (simp add: read_at_def)
    let ?r = "drop (?len + 1) (fresh_mem junk (k + 1))"
    have lf: "length (fresh_mem junk (k + 1)) = k + 1" by (simp add: fresh_mem_def)
    then have "write_at (fresh_mem junk (k + 1)) 0 (sds_val s @ [?b]) = Some (sds_val s @ ?b # ?r)"
      using inv k by (simp add: write_at_def)
    moreover have "sdssetlen (s\<lparr>s_type := ty, s_buf := b\<rparr>) ?len = s\<lparr>s_type := ty, s_buf := b\<rparr>" for b
      using k kb by (cases s) (simp add: sdssetlen_def)
    moreover have "?len + 1 + length ?r = k + 1" using lf k by simp
    ultimately show ?thesis using False rd by (intro that [of ?r]) (simp_all only: if_False Option.bind.simps)
  qed
  let ?s = "s\<lparr>s_type := ty, s_buf := sds_val s @ ?b # rest, s_alloc := k\<rparr>"
  have "sdssetalloc (s\<lparr>s_type := ty, s_buf := sds_val s @ ?b # rest\<rparr>) k = ?s"
    using ty5 kb by (cases ty) (simp_all add: sdssetalloc_def)
  then have "sdsMakeRoomFor junk s n = Some ?s" using ev buf(1) by simp
  moreover have "sds_shape ?s" "sds_room ?s (?len + n)" "sds_val ?s = sds_val s" "s_buf ?s ! ?len = ?b"
    using inv kb k buf(2) ty5 by (auto simp: sds_shape_def sds_room_def sds_val_def nth_append)
  ultimately show ?thesis by simp
qed

lemma sdsMakeRoomFor_ok:
  assumes "sds_inv s" "s_len s + n < 2 ^ 62"
  shows "\<exists>s'. sdsMakeRoomFor junk s n = Some s' \<and> sds_inv s' \<and> sds_val s' = sds_val s \<and> s_len s' = s_len s
    \<and> sds_room s' (s_len s + n)"
  using sdsMakeRoomFor_shape [of s n junk] assms by (auto simp: sds_inv_def)

section \<open>The operations on values\<close>

lemma sds_split: "sds_inv s \<Longrightarrow> s_buf s = sds_val s @ 0 # drop (Suc (s_len s)) (s_buf s)"
  using id_take_nth_drop [of "s_len s" "s_buf s"] by (simp add: sds_inv_def sds_shape_def sds_val_def)

lemma room_split:
  assumes "sds_room s (length xs)" "take k (s_buf s) = take k xs" "k \<le> length xs"
  obtains ys b zs where "s_buf s = take k xs @ ys @ b # zs" "length ys = length xs - k"
proof -
  have l: "length xs < length (s_buf s)" using assms(1) by (simp add: sds_room_def)
  let ?ys = "drop k (take (length xs) (s_buf s))"
  have "s_buf s = take k (s_buf s) @ ?ys @ s_buf s ! length xs # drop (Suc (length xs)) (s_buf s)"
    using id_take_nth_drop [OF l] append_take_drop_id [of k "take (length xs) (s_buf s)"] assms(3)
    by (metis append_assoc min.absorb1 take_take)
  moreover have "length ?ys = length xs - k" using l by simp
  ultimately show ?thesis using assms(2) that by metis
qed

lemma sdssetlen_buf [simp]:
  "sdssetlen (s\<lparr>s_buf := b\<rparr>) n = (sdssetlen s n)\<lparr>s_buf := b\<rparr>" "s_buf (sdssetlen s n) = s_buf s"
  by (simp_all add: sdssetlen_def)

lemma sds_write_Nil [simp]: "off \<le> length (s_buf s) \<Longrightarrow> sds_write s off [] = Some s"
  by (simp add: sds_write_def write_at_def)

text \<open>The writes that end most operations: new bytes behind a prefix that is kept, and the terminator.\<close>

lemma sds_fill:
  assumes "sds_room s (length xs + length bs)" "take (length xs) (s_buf s) = xs"
  shows "\<exists>s'. do { s \<leftarrow> sds_write s (length xs) bs;
                 sds_write (sdssetlen s (length xs + length bs)) (length xs + length bs) [0] } = Some s'
    \<and> sds_inv s' \<and> sds_val s' = xs @ bs"
proof -
  obtain ys b zs where buf: "s_buf s = xs @ ys @ b # zs" "length ys = length bs"
    using room_split [of s "xs @ bs" "length xs"] assms by auto
  let ?s = "sdssetlen (s\<lparr>s_buf := (xs @ bs) @ 0 # zs\<rparr>) (length (xs @ bs))"
  have "sds_write s (length xs) bs = Some (s\<lparr>s_buf := xs @ bs @ b # zs\<rparr>)"
    using buf by (intro sds_write_at [where ys = ys]) simp_all
  moreover have "sds_write (sdssetlen (s\<lparr>s_buf := xs @ bs @ b # zs\<rparr>) (length xs + length bs)) (length xs + length bs) [0]
      = Some (sdssetlen (s\<lparr>s_buf := xs @ bs @ b # zs\<rparr>) (length xs + length bs)\<lparr>s_buf := (xs @ bs) @ [0] @ zs\<rparr>)"
    by (intro sds_write_at [where ys = "[b]"]) (simp_all add: sdssetlen_def)
  moreover have "sds_room (s\<lparr>s_buf := (xs @ bs) @ 0 # zs\<rparr>) (length (xs @ bs))"
    using assms(1) buf by (simp add: sds_room_def)
  note sds_set [OF this, of zs]
  ultimately show ?thesis by simp
qed

lemma sdscatlen_ok:
  assumes inv: "sds_inv s" and t: "n \<le> length t" and small: "length (sds_val s) + n < 2 ^ 62"
  shows "\<exists>s'. sdscatlen junk s t n = Some s' \<and> sds_inv s' \<and> sds_val s' = sds_val s @ take n t"
proof -
  from sdsMakeRoomFor_ok [OF inv, of n junk] small inv obtain s1 where
    s1: "sdsMakeRoomFor junk s n = Some s1" "sds_inv s1" "sds_val s1 = sds_val s" "s_len s1 = s_len s"
      "sds_room s1 (s_len s + n)" by auto
  have "take (s_len s) (s_buf s1) = sds_val s" using s1(3,4) by (simp add: sds_val_def)
  with sds_fill [of s1 "sds_val s" "take n t"] s1 t inv show ?thesis
    by (simp add: sdscatlen_def sdslen_def read_at_def Let_def)
qed

lemma sdsnewlen_ok:
  assumes "n < 2 ^ 62" "case init of InitFrom p \<Rightarrow> n \<le> length p | _ \<Rightarrow> True"
  shows "\<exists>s. sdsnewlen junk init n = Some s \<and> sds_inv s \<and> length (sds_val s) = n
    \<and> (case init of InitNull \<Rightarrow> sds_val s = replicate n 0 | InitFrom p \<Rightarrow> sds_val s = take n p | SDS_NOINIT \<Rightarrow> True)"
proof -
  define ty where "ty = (if sdsReqType n = SDS_TYPE_5 \<and> n = 0 then SDS_TYPE_8 else sdsReqType n)"
  have h: "sdsHdrSize ty \<le> 17" by (cases ty) simp_all
  have m: "(sdsHdrSize ty + n + 1) mod 2 ^ 64 = sdsHdrSize ty + n + 1" using assms(1) h by (intro mod_less) simp
  have nb: "n < 2 ^ len_bits ty" using sdsReqType_bits [of n] assms(1) by (auto simp: ty_def)
  have d: "sdsHdrSize ty + n + 1 - sdsHdrSize ty = n + 1" and nn: "n mod 2 ^ len_bits ty = n" using nb by simp_all
  define mem where "mem = (if init = InitNull then replicate (n + 1) 0 else fresh_mem junk (n + 1))"
  let ?s = "\<lparr>s_type = ty, s_len = n, s_alloc = n, s_buf = mem\<rparr>"
  have mem: "length mem = n + 1" by (simp add: mem_def fresh_mem_def)
  have ev: "sdsnewlen junk init n = do {
      s \<leftarrow> (case init of InitFrom p \<Rightarrow> if n \<noteq> 0 then do { bs \<leftarrow> read_at p 0 n; sds_write ?s 0 bs } else Some ?s
            | _ \<Rightarrow> Some ?s);
      sds_write s n [0] }"
    unfolding sdsnewlen_def Let_def ty_def [symmetric] m d nn mem_def [symmetric] by simp
  define bs where "bs = (case init of InitFrom p \<Rightarrow> take n p | _ \<Rightarrow> take n mem)"
  have bs: "length bs = n" using assms(2) mem by (auto simp: bs_def split: sds_init.splits)
  have "(case init of InitFrom p \<Rightarrow> if n \<noteq> 0 then do { bs \<leftarrow> read_at p 0 n; sds_write ?s 0 bs } else Some ?s
      | _ \<Rightarrow> Some ?s) = Some (?s\<lparr>s_buf := bs @ drop n mem\<rparr>)"
    using assms(2) mem
    by (cases init) (auto simp: bs_def read_at_def sds_write_def write_at_def)
  moreover have "sds_write (?s\<lparr>s_buf := bs @ drop n mem\<rparr>) n [0] = Some (?s\<lparr>s_buf := bs @ [0]\<rparr>)"
    using bs mem by (simp add: sds_write_def write_at_def)
  ultimately have "sdsnewlen junk init n = Some (?s\<lparr>s_buf := bs @ [0]\<rparr>)" using ev by simp
  moreover have "sds_inv (?s\<lparr>s_buf := bs @ [0]\<rparr>)" "sds_val (?s\<lparr>s_buf := bs @ [0]\<rparr>) = bs"
    using bs nb by (auto simp: sds_inv_def sds_shape_def sds_val_def nth_append)
  moreover have "case init of InitNull \<Rightarrow> bs = replicate n 0 | InitFrom p \<Rightarrow> bs = take n p | SDS_NOINIT \<Rightarrow> True"
    by (cases init) (simp_all add: bs_def mem_def del: replicate_Suc)
  ultimately show ?thesis using bs by (cases init) simp_all
qed

lemma sdsdup_ok: "sds_inv s \<Longrightarrow> length (sds_val s) < 2 ^ 62 \<Longrightarrow>
    \<exists>s'. sdsdup junk s = Some s' \<and> sds_inv s' \<and> sds_val s' = sds_val s"
  using sdsnewlen_ok [of "s_len s" "InitFrom (s_buf s)" junk]
  by (auto simp: sdsdup_def sdslen_def sds_val_def [of s] sds_inv_def [of s] sds_shape_def [of s])

lemma sdsclear_ok:
  assumes "sds_inv s"
  shows "\<exists>s'. sdsclear s = Some s' \<and> sds_inv s' \<and> sds_val s' = []"
proof -
  have "sds_room s 0" using assms by (auto simp: sds_room_def sds_inv_def sds_shape_def)
  with sds_fill [of s "[]" "[]"] show ?thesis by (simp add: sdsclear_def)
qed

lemma sdscpylen_ok:
  assumes inv: "sds_inv s" and t: "n \<le> length t" and small: "n < 2 ^ 62" "length (sds_val s) < 2 ^ 62"
  shows "\<exists>s'. sdscpylen junk s t n = Some s' \<and> sds_inv s' \<and> sds_val s' = take n t"
proof -
  obtain s1 where s1: "(if sdsalloc s < n then sdsMakeRoomFor junk s (n - sdslen s) else Some s) = Some s1" "sds_room s1 n"
  proof (cases "sdsalloc s < n")
    case True
    have "s_len s \<le> n" using True inv by (auto simp: sdsalloc_def sds_inv_def sds_shape_def split: sds_type.splits)
    with sdsMakeRoomFor_ok [OF inv, of "n - s_len s" junk] small True show ?thesis
      by (auto simp: sdslen_def intro: that)
  next
    case False
    with inv have "sds_room s n"
      by (cases "s_type s") (auto simp: sdsalloc_def sds_room_def sds_inv_def sds_shape_def)
    with False show ?thesis by (auto intro: that)
  qed
  have "do { s \<leftarrow> sds_write s1 0 (take n t); s \<leftarrow> sds_write s n [0]; Some (sdssetlen s n) }
      = do { s \<leftarrow> sds_write s1 0 (take n t); sds_write (sdssetlen s n) n [0] }"
    by (cases "sds_write s1 0 (take n t)") (auto simp: sds_write_def sdssetlen_def write_at_def)
  with sds_fill [of s1 "[]" "take n t"] s1 t show ?thesis
    by (simp add: sdscpylen_def read_at_def)
qed

lemma sdsgrowzero_ok:
  assumes inv: "sds_inv s" and small: "n < 2 ^ 62"
  shows "\<exists>s'. sdsgrowzero junk s n = Some s' \<and> sds_inv s' \<and> sds_val s' = sds_val s @ replicate (n - length (sds_val s)) 0"
proof (cases "n \<le> s_len s")
  case True
  with inv show ?thesis by (simp add: sdsgrowzero_def sdslen_def)
next
  case False
  let ?k = "n - s_len s"
  from sdsMakeRoomFor_ok [OF inv, of ?k junk] small False obtain s1 where
    s1: "sdsMakeRoomFor junk s ?k = Some s1" "sds_inv s1" "sds_val s1 = sds_val s" "s_len s1 = s_len s" "sds_room s1 n"
    by auto
  have pre: "take (s_len s) (s_buf s1) = sds_val s" using s1(3,4) by (simp add: sds_val_def)
  have "do { s \<leftarrow> sds_write s1 (s_len s) (replicate (?k + 1) 0); Some (sdssetlen s n) }
      = do { s \<leftarrow> sds_write s1 (s_len s) (replicate ?k 0); sds_write (sdssetlen s n) n [0] }"
  proof -
    obtain ys b zs where buf: "s_buf s1 = sds_val s @ ys @ b # zs" "length ys = ?k"
      using room_split [of s1 "sds_val s @ replicate ?k 0" "s_len s"] pre s1 inv False by auto
    have a: "sds_write s1 (s_len s) (replicate ?k 0) = Some (s1\<lparr>s_buf := sds_val s @ replicate ?k 0 @ b # zs\<rparr>)"
      using buf inv by (intro sds_write_at [where ys = ys]) simp_all
    have b: "sds_write (sdssetlen (s1\<lparr>s_buf := sds_val s @ replicate ?k 0 @ b # zs\<rparr>) n) n [0]
        = Some ((sdssetlen s1 n)\<lparr>s_buf := (sds_val s @ replicate ?k 0) @ [0] @ zs\<rparr>)"
      using inv False by (subst sds_write_at [where xs = "sds_val s @ replicate ?k 0" and ys = "[b]" and zs = zs]) simp_all
    have c: "sds_write s1 (s_len s) (replicate (?k + 1) 0) = Some (s1\<lparr>s_buf := sds_val s @ replicate (?k + 1) 0 @ zs\<rparr>)"
      using buf inv by (intro sds_write_at [where ys = "ys @ [b]"]) simp_all
    have "replicate (?k + 1) 0 @ zs = replicate ?k 0 @ 0 # zs"
      unfolding Suc_eq_plus1 [symmetric] replicate_Suc using replicate_append_same [of ?k "0 :: byte"] by simp
    then show ?thesis unfolding a c Option.bind.simps b by simp
  qed
  with sds_fill [of s1 "sds_val s" "replicate ?k 0"] s1 pre inv False show ?thesis
    by (simp add: sdsgrowzero_def sdslen_def Let_def)
qed

lemma sdsRemoveFreeSpace_ok:
  assumes inv: "sds_inv s"
  shows "\<exists>s'. sdsRemoveFreeSpace junk s = Some s' \<and> sds_inv s' \<and> sds_val s' = sds_val s
    \<and> (sdsavail s \<noteq> 0 \<longrightarrow> length (s_buf s') = length (sds_val s) + 1)"
proof (cases "sdsavail s = 0")
  case True
  with inv show ?thesis by (simp add: sdsRemoveFreeSpace_def)
next
  case False
  let ?n = "s_len s" and ?ty = "sdsReqType (s_len s)"
  have t5: "s_type s \<noteq> SDS_TYPE_5" using False inv by (auto simp: sdsavail_inv)
  have "?n < 2 ^ 64" using inv len_bits_le [of "s_type s"] unfolding sds_inv_def sds_shape_def by linarith
  then have nb: "?n < 2 ^ len_bits ?ty" by (rule sdsReqType_bits)
  have rd: "read_at (s_buf s) 0 (?n + 1) = Some (sds_val s @ [0])"
    using inv by (subst sds_split [OF inv]) (simp add: read_at_def)
  have wr: "write_at (fresh_mem junk (?n + 1)) 0 (sds_val s @ [0]) = Some (sds_val s @ [0])"
    using inv by (simp add: write_at_def fresh_mem_def)
  have re: "realloc junk (s_buf s) (?n + 1) = sds_val s @ [0]"
    using inv realloc_def [of junk "s_buf s" "?n + 1"] sds_split [OF inv]
    by (simp add: sds_inv_def sds_shape_def take_Suc_conv_app_nth sds_val_def)
  have v: "sds_inv s' \<and> sds_val s' = sds_val s \<and> length (s_buf s') = length (sds_val s) + 1"
    if "s_len s' = ?n" "s_buf s' = sds_val s @ [0]" "?n < 2 ^ len_bits (s_type s')"
      "s_type s' = SDS_TYPE_5 \<or> s_alloc s' = ?n" for s'
    using that inv by (auto simp: sds_inv_def [of s'] sds_shape_def [of s'] sds_val_def [of s'] nth_append)
  show ?thesis
  proof (cases "s_type s = ?ty \<or> type_num ?ty > type_num SDS_TYPE_8")
    case True
    then have "sdsRemoveFreeSpace junk s = Some (sdssetalloc (s\<lparr>s_buf := sds_val s @ [0]\<rparr>) ?n)"
      using False re by (simp add: sdsRemoveFreeSpace_def Let_def sdslen_def)
    then show ?thesis
      using v [of "sdssetalloc (s\<lparr>s_buf := sds_val s @ [0]\<rparr>) ?n"] t5 inv
      by (cases "s_type s") (simp_all add: sdssetalloc_def sds_inv_def [of s] sds_shape_def [of s])
  next
    case F2: False
    then have "sdsRemoveFreeSpace junk s
        = Some (sdssetalloc (sdssetlen (s\<lparr>s_type := ?ty, s_buf := sds_val s @ [0]\<rparr>) ?n) ?n)"
      using False rd wr by (simp add: sdsRemoveFreeSpace_def Let_def sdslen_def)
    then show ?thesis
      using v [of "sdssetalloc (sdssetlen (s\<lparr>s_type := ?ty, s_buf := sds_val s @ [0]\<rparr>) ?n) ?n"] nb
      by (cases ?ty) (simp_all add: sdssetalloc_def sdssetlen_def)
  qed
qed

lemma takeWhile_nul:
  "takeWhile (\<lambda>c. c \<noteq> 0) (xs @ 0 # ys) = takeWhile (\<lambda>c. c \<noteq> 0) (xs :: byte list)"
  "\<exists>rest. xs @ 0 # ys = takeWhile (\<lambda>c. c \<noteq> 0) xs @ 0 # rest"
  by (induction xs) auto

lemma strlen_nul: "strlen (xs @ 0 # ys) = Some (length (takeWhile (\<lambda>c. c \<noteq> 0) xs))"
  by (simp add: strlen_def takeWhile_nul)

lemma sdsupdatelen_ok:
  assumes inv: "sds_inv s"
  shows "\<exists>s'. sdsupdatelen s = Some s' \<and> sds_inv s' \<and> sds_val s' = takeWhile (\<lambda>c. c \<noteq> 0) (sds_val s)"
proof -
  let ?p = "takeWhile (\<lambda>c. c \<noteq> 0) (sds_val s)"
  obtain rest where r: "s_buf s = ?p @ 0 # rest" using sds_split [OF inv] takeWhile_nul(2) by metis
  have "strlen (s_buf s) = Some (length ?p)" by (subst sds_split [OF inv]) (rule strlen_nul)
  moreover have "sds_room s (length ?p)"
    using inv length_takeWhile_le [of "\<lambda>c. c \<noteq> 0" "sds_val s"] by (auto simp: sds_room_def sds_inv_def sds_shape_def sds_val_def)
  ultimately show ?thesis using sds_set [OF _ r] by (simp add: sdsupdatelen_def)
qed

lemma sdsIncrLen_ok:
  assumes inv: "sds_shape s" and room: "sds_room s (nat (int (s_len s) + incr))"
    and incr: "0 \<le> int (s_len s) + incr" "incr \<noteq> 0" "- (2 ^ 31) < incr"
  shows "\<exists>s'. sdsIncrLen s incr = Some s' \<and> sds_inv s' \<and> sds_val s' = take (nat (int (s_len s) + incr)) (s_buf s)"
proof -
  define n where "n = nat (int (s_len s) + incr)"
  have n: "int (s_len s) + incr = int n" using incr(1) by (simp add: n_def)
  have neg: "(- incr) mod 2 ^ 32 = - incr" "(- incr) mod 2 ^ 64 = - incr" if "incr < 0"
    using that incr(3) by (auto intro: mod_pos_pos_trivial)
  have r: "n < length (s_buf s)" "n < 2 ^ len_bits (s_type s)" using room by (auto simp: sds_room_def n_def)
  have al: "n \<le> s_alloc s" if "s_type s \<noteq> SDS_TYPE_5" using r(1) inv that by (simp add: sds_inv_def sds_shape_def)
  have pos: "incr \<le> int (s_alloc s) - int (s_len s)" if "s_type s \<noteq> SDS_TYPE_5" using al [OF that] n by linarith
  have w: "(int (s_alloc s) - int (s_len s)) mod 2 ^ len_bits (s_type s) = int (s_alloc s) - int (s_len s)"
      "0 \<le> incr \<Longrightarrow> incr mod 2 ^ len_bits (s_type s) = incr" if "s_type s \<noteq> SDS_TYPE_5"
  proof -
    have "s_alloc s < 2 ^ len_bits (s_type s)" using inv that by (simp add: sds_inv_def sds_shape_def)
    then have "int (s_alloc s) < int (2 ^ len_bits (s_type s))" by (simp only: of_nat_less_iff)
    then have a: "int (s_alloc s) < 2 ^ len_bits (s_type s)" by simp
    have b: "s_len s \<le> s_alloc s" using inv that by (simp add: sds_inv_def sds_shape_def)
    show "(int (s_alloc s) - int (s_len s)) mod 2 ^ len_bits (s_type s) = int (s_alloc s) - int (s_len s)"
      using a b by (intro mod_pos_pos_trivial) linarith+
    show "0 \<le> incr \<Longrightarrow> incr mod 2 ^ len_bits (s_type s) = incr"
      using a pos [OF that] by (intro mod_pos_pos_trivial) linarith+
  qed
  have lb: "int n mod 2 ^ len_bits (s_type s) = int n"
  proof (rule mod_pos_pos_trivial)
    have "int n < int (2 ^ len_bits (s_type s))" using r(2) by (simp only: of_nat_less_iff)
    then show "int n < 2 ^ len_bits (s_type s)" by simp
  qed simp
  have ev: "sdsIncrLen s incr = sds_write (s\<lparr>s_len := n\<rparr>) n [0]"
    using neg pos w incr n r(2) lb
    by (cases "s_type s"; cases "incr < 0") (simp_all add: sdsIncrLen_def Let_def del: mod_pos_pos_trivial)
  obtain b zs where buf: "s_buf s = take n (s_buf s) @ b # zs" using id_take_nth_drop [OF r(1)] by metis
  then have "sds_write (s\<lparr>s_len := n\<rparr>) n [0] = Some (s\<lparr>s_len := n, s_buf := take n (s_buf s) @ [0] @ zs\<rparr>)"
    using r(1) by (intro sds_write_at [where ys = "[b]"]) simp_all
  moreover have "length (s_buf s) = length (take n (s_buf s) @ b # zs)" using buf by (rule arg_cong)
  then have "length (take n (s_buf s) @ [0] @ zs) = length (s_buf s)" by simp
  ultimately show ?thesis
    using ev r inv al unfolding n_def [symmetric]
    by (auto simp: sds_inv_def sds_shape_def sds_val_def nth_append)
qed

end
