(* ===== verification/Sds_Text.thy ===== *)
theory Sds_Text
  imports Sds Strobj
begin

text \<open>
  The text functions of \<^verbatim>\<open>sds.c\<close>: numbers, formatting, trimming, ranges, splitting and joining,
  and the quoted representation that \<^verbatim>\<open>sdscatrepr\<close> writes and \<^verbatim>\<open>sdssplitargs\<close> reads. A C string is a
  byte list with its terminator; a pointer that walks through it is the rest of the list, and
  reading past the end is \<open>None\<close>. Character classes are those of the C locale.
\<close>

section \<open>Numbers\<close>

definition SDS_LLSTR_SIZE :: nat where "SDS_LLSTR_SIZE = 21"

text \<open>The do-while loop writes the digits from the last one.\<close>

function sds_digits :: "byte list \<Rightarrow> nat \<Rightarrow> nat \<Rightarrow> (byte list \<times> nat) option" where
  "sds_digits buf p v = do {
     buf \<leftarrow> write_at buf p [ch CHR ''0'' + of_nat (v mod 10)];
     (if v div 10 \<noteq> 0 then sds_digits buf (p + 1) (v div 10) else Some (buf, p + 1)) }"
  by pat_completeness auto
termination
  by (relation "measure (\<lambda>(buf, p, v). v)") auto

declare sds_digits.simps [simp del]

function reverse_loop :: "byte list \<Rightarrow> nat \<Rightarrow> nat \<Rightarrow> byte list option" where
  "reverse_loop buf s p =
     (if s < p then
        if p < length buf then reverse_loop (buf[s := buf ! p, p := buf ! s]) (s + 1) (p - 1) else None
      else Some buf)"
  by pat_completeness auto
termination
  by (relation "measure (\<lambda>(buf, s, p). p - s)") auto

declare reverse_loop.simps [simp del]

text \<open>\<open>-value\<close> is converted to unsigned; for the smallest number the negation wraps around.\<close>

definition sdsll2str :: "byte list \<Rightarrow> int \<Rightarrow> (nat \<times> byte list) option" where
  "sdsll2str buf val = do {
     let v = nat ((if val < 0 then - val else val) mod 2 ^ 64);
     (buf, p) \<leftarrow> sds_digits buf 0 v;
     (buf, p) \<leftarrow> (if val < 0 then map_option (\<lambda>buf. (buf, p + 1)) (write_at buf p [ch CHR ''-'']) else Some (buf, p));
     let l = p;
     buf \<leftarrow> write_at buf p [0];
     buf \<leftarrow> reverse_loop buf 0 (p - 1);
     Some (l, buf) }"

definition sdsull2str :: "byte list \<Rightarrow> nat \<Rightarrow> (nat \<times> byte list) option" where
  "sdsull2str buf v = do {
     (buf, p) \<leftarrow> sds_digits buf 0 v;
     let l = p;
     buf \<leftarrow> write_at buf p [0];
     buf \<leftarrow> reverse_loop buf 0 (p - 1);
     Some (l, buf) }"

definition sdsfromlonglong :: "(nat \<Rightarrow> byte) \<Rightarrow> int \<Rightarrow> sds option" where
  "sdsfromlonglong junk val = do {
     (len, buf) \<leftarrow> sdsll2str (fresh_mem junk SDS_LLSTR_SIZE) val;
     sdsnewlen junk (InitFrom buf) len }"

section \<open>Formatting\<close>

text \<open>
  \<^verbatim>\<open>out\<close> is the text the format and its arguments produce. \<^verbatim>\<open>vsnprintf\<close> stores as much of it as fits
  and a terminator; the byte before the last one tells whether the buffer was too small.
\<close>

definition vsnprintf :: "byte list \<Rightarrow> nat \<Rightarrow> byte list \<Rightarrow> byte list option" where
  "vsnprintf buf buflen out = write_at buf 0 (take (buflen - 1) out @ [0])"

partial_function (option) vprintf_loop :: "(nat \<Rightarrow> byte) \<Rightarrow> byte list \<Rightarrow> nat \<Rightarrow> byte list \<Rightarrow> byte list option" where
  "vprintf_loop junk buf buflen out = do {
     buf \<leftarrow> write_at buf (buflen - 2) [0];
     buf \<leftarrow> vsnprintf buf buflen out;
     (if buf ! (buflen - 2) \<noteq> 0 then vprintf_loop junk (fresh_mem junk (buflen * 2)) (buflen * 2) out
      else Some buf) }"

definition sdscatvprintf :: "(nat \<Rightarrow> byte) \<Rightarrow> sds \<Rightarrow> byte list \<Rightarrow> byte list \<Rightarrow> sds option" where
  "sdscatvprintf junk s fmt out = do {
     n \<leftarrow> strlen fmt;
     let buflen = (if n * 2 > 1024 then n * 2 else 1024);
     buf \<leftarrow> vprintf_loop junk (fresh_mem junk buflen) buflen out;
     sdscat junk s buf }"

definition sdscatprintf :: "(nat \<Rightarrow> byte) \<Rightarrow> sds \<Rightarrow> byte list \<Rightarrow> byte list \<Rightarrow> sds option" where
  "sdscatprintf junk s fmt out = sdscatvprintf junk s fmt out"

text \<open>The variable arguments of \<^verbatim>\<open>sdscatfmt\<close>; one of another kind than the format asks for is \<open>None\<close>.\<close>

datatype fmt_arg = ArgStr "byte list" | ArgSds sds | ArgInt int | ArgLong int | ArgUInt nat | ArgULong nat

fun arg_text :: "(nat \<Rightarrow> byte) \<Rightarrow> byte \<Rightarrow> fmt_arg \<Rightarrow> byte list option" where
  "arg_text junk c (ArgStr p) = (if c = ch CHR ''s'' then do { l \<leftarrow> strlen p; read_at p 0 l } else None)"
| "arg_text junk c (ArgSds t) = (if c = ch CHR ''S'' then read_at (s_buf t) 0 (sdslen t) else None)"
| "arg_text junk c (ArgInt n) = (if c = ch CHR ''i''
     then do { (l, buf) \<leftarrow> sdsll2str (fresh_mem junk SDS_LLSTR_SIZE) n; read_at buf 0 l } else None)"
| "arg_text junk c (ArgLong n) = (if c = ch CHR ''I''
     then do { (l, buf) \<leftarrow> sdsll2str (fresh_mem junk SDS_LLSTR_SIZE) n; read_at buf 0 l } else None)"
| "arg_text junk c (ArgUInt n) = (if c = ch CHR ''u''
     then do { (l, buf) \<leftarrow> sdsull2str (fresh_mem junk SDS_LLSTR_SIZE) n; read_at buf 0 l } else None)"
| "arg_text junk c (ArgULong n) = (if c = ch CHR ''U''
     then do { (l, buf) \<leftarrow> sdsull2str (fresh_mem junk SDS_LLSTR_SIZE) n; read_at buf 0 l } else None)"

definition fmt_put :: "(nat \<Rightarrow> byte) \<Rightarrow> sds \<Rightarrow> nat \<Rightarrow> byte list \<Rightarrow> sds option" where
  "fmt_put junk s i bs = do {
     s \<leftarrow> (if sdsavail s < length bs then sdsMakeRoomFor junk s (length bs) else Some s);
     s \<leftarrow> sds_write s i bs;
     Some (sdsinclen s (length bs)) }"

text \<open>
  The loop on the format \<open>f\<close>, which holds its terminator. After a \<^verbatim>\<open>%\<close> the pointer skips the next
  byte without looking whether it is the terminator.
\<close>

fun fmt_loop :: "(nat \<Rightarrow> byte) \<Rightarrow> sds \<Rightarrow> nat \<Rightarrow> byte list \<Rightarrow> fmt_arg list \<Rightarrow> (sds \<times> nat) option" where
  "fmt_loop junk s i [] ap = None"
| "fmt_loop junk s i (c # f) ap =
     (if c = 0 then Some (s, i)
      else do {
        s \<leftarrow> (if sdsavail s = 0 then sdsMakeRoomFor junk s 1 else Some s);
        (if c = ch CHR ''%'' then
           (case f of
              [] \<Rightarrow> None
            | nxt # f' \<Rightarrow>
                if nxt \<in> set (bytes_of ''sSiIuU'') then
                  (case ap of
                     [] \<Rightarrow> None
                   | a # ap' \<Rightarrow> do {
                       bs \<leftarrow> arg_text junk nxt a;
                       s \<leftarrow> fmt_put junk s i bs;
                       fmt_loop junk s (i + length bs) f' ap' })
                else do {
                  s \<leftarrow> sds_write s i [nxt];
                  fmt_loop junk (sdsinclen s 1) (i + 1) f' ap })
         else do {
           s \<leftarrow> sds_write s i [c];
           fmt_loop junk (sdsinclen s 1) (i + 1) f ap }) })"

definition sdscatfmt :: "(nat \<Rightarrow> byte) \<Rightarrow> sds \<Rightarrow> byte list \<Rightarrow> fmt_arg list \<Rightarrow> sds option" where
  "sdscatfmt junk s fmt ap = do {
     (s, i) \<leftarrow> fmt_loop junk s (sdslen s) fmt ap;
     sds_write s i [0] }"

section \<open>Trimming, ranges and characters\<close>

text \<open>\<^verbatim>\<open>strchr(cset, c)\<close> finds the terminator of \<open>cset\<close>, too.\<close>

definition strchr :: "byte list \<Rightarrow> byte \<Rightarrow> bool" where
  "strchr cset c \<longleftrightarrow> c = 0 \<or> c \<in> set (takeWhile (\<lambda>x. x \<noteq> 0) cset)"

function trim_left :: "byte list \<Rightarrow> byte list \<Rightarrow> int \<Rightarrow> int \<Rightarrow> int" where
  "trim_left buf cset sp en =
     (if sp \<le> en \<and> strchr cset (buf ! nat sp) then trim_left buf cset (sp + 1) en else sp)"
  by pat_completeness auto
termination
  by (relation "measure (\<lambda>(buf, cset, sp, en). nat (en + 1 - sp))") auto

function trim_right :: "byte list \<Rightarrow> byte list \<Rightarrow> int \<Rightarrow> int \<Rightarrow> int" where
  "trim_right buf cset sp ep =
     (if ep > sp \<and> strchr cset (buf ! nat ep) then trim_right buf cset sp (ep - 1) else ep)"
  by pat_completeness auto
termination
  by (relation "measure (\<lambda>(buf, cset, sp, ep). nat (ep - sp))") auto

declare trim_left.simps [simp del] trim_right.simps [simp del]

definition sdstrim :: "sds \<Rightarrow> byte list \<Rightarrow> sds option" where
  "sdstrim s cset = do {
     let en = int (sdslen s) - 1;
     let sp = trim_left (s_buf s) cset 0 en;
     let ep = trim_right (s_buf s) cset sp en;
     let len = (if sp > ep then 0 else nat (ep - sp + 1));
     buf \<leftarrow> (if sp \<noteq> 0 then memmove (s_buf s) 0 (nat sp) len else Some (s_buf s));
     s \<leftarrow> sds_write (s\<lparr>s_buf := buf\<rparr>) len [0];
     Some (sdssetlen s len) }"

definition sdsrange :: "sds \<Rightarrow> int \<Rightarrow> int \<Rightarrow> sds option" where
  "sdsrange s start en =
     (let len = int (sdslen s) in
      if len = 0 then Some s
      else
        let start = (if start < 0 then max (len + start) 0 else start);
            en = (if en < 0 then max (len + en) 0 else en);
            newlen = (if start > en then 0 else en - start + 1);
            (start, newlen) =
              (if newlen \<noteq> 0 then
                 if start \<ge> len then (start, 0)
                 else if en \<ge> len then (start, if start > len - 1 then 0 else len - 1 - start + 1)
                 else (start, newlen)
               else (0, newlen))
        in do {
          buf \<leftarrow> (if start \<noteq> 0 \<and> newlen \<noteq> 0 then memmove (s_buf s) 0 (nat start) (nat newlen) else Some (s_buf s));
          s \<leftarrow> sds_write (s\<lparr>s_buf := buf\<rparr>) (nat newlen) [0];
          Some (sdssetlen s (nat newlen)) })"

text \<open>\<^verbatim>\<open>for (j = ...; ...; j++) s[j] = f(s[j])\<close>.\<close>

fun for_bytes :: "(byte \<Rightarrow> byte) \<Rightarrow> byte list \<Rightarrow> nat \<Rightarrow> nat \<Rightarrow> byte list option" where
  "for_bytes f buf j 0 = Some buf"
| "for_bytes f buf j (Suc k) = (if j < length buf then for_bytes f (buf[j := f (buf ! j)]) (j + 1) k else None)"

definition tolower :: "byte \<Rightarrow> byte" where
  "tolower c = (if ch CHR ''A'' \<le> c \<and> c \<le> ch CHR ''Z'' then c + 32 else c)"

definition toupper :: "byte \<Rightarrow> byte" where
  "toupper c = (if ch CHR ''a'' \<le> c \<and> c \<le> ch CHR ''z'' then c - 32 else c)"

definition sdstolower :: "sds \<Rightarrow> sds option" where
  "sdstolower s = map_option (\<lambda>buf. s\<lparr>s_buf := buf\<rparr>) (for_bytes tolower (s_buf s) 0 (sdslen s))"

definition sdstoupper :: "sds \<Rightarrow> sds option" where
  "sdstoupper s = map_option (\<lambda>buf. s\<lparr>s_buf := buf\<rparr>) (for_bytes toupper (s_buf s) 0 (sdslen s))"

fun map_char :: "byte list \<Rightarrow> byte list \<Rightarrow> byte \<Rightarrow> byte" where
  "map_char (x # xs) (y # ys) c = (if c = x then y else map_char xs ys c)"
| "map_char _ _ c = c"

definition sdsmapchars :: "sds \<Rightarrow> byte list \<Rightarrow> byte list \<Rightarrow> nat \<Rightarrow> sds option" where
  "sdsmapchars s from to setlen = do {
     f \<leftarrow> read_at from 0 setlen;
     t \<leftarrow> read_at to 0 setlen;
     buf \<leftarrow> for_bytes (map_char f t) (s_buf s) 0 (sdslen s);
     Some (s\<lparr>s_buf := buf\<rparr>) }"

definition sdscmp :: "sds \<Rightarrow> sds \<Rightarrow> int" where
  "sdscmp s1 s2 =
     (let l1 = sdslen s1; l2 = sdslen s2; minlen = (if l1 < l2 then l1 else l2);
          cmp = memcmp (s_buf s1) (s_buf s2) minlen
      in if cmp = 0 then (if l1 > l2 then 1 else if l1 < l2 then -1 else 0) else cmp)"

section \<open>Splitting and joining\<close>

text \<open>
  The loop of \<^verbatim>\<open>sdssplitlen\<close> for a separator of \<open>Suc sl\<close> bytes. \<open>slots\<close> is the capacity of the token
  array; a store outside it is \<open>None\<close>.
\<close>

definition push_token :: "nat \<Rightarrow> sds list \<Rightarrow> sds \<Rightarrow> sds list option" where
  "push_token slots tokens t = (if length tokens < slots then Some (tokens @ [t]) else None)"

function split_loop ::
  "(nat \<Rightarrow> byte) \<Rightarrow> byte list \<Rightarrow> nat \<Rightarrow> byte list \<Rightarrow> nat \<Rightarrow> nat \<Rightarrow> nat \<Rightarrow> nat \<Rightarrow> sds list
     \<Rightarrow> (nat \<times> nat \<times> sds list) option" where
  "split_loop junk s len sep sl j start slots tokens =
     (if j + sl < len then do {
        let slots = (if slots < length tokens + 2 then slots * 2 else slots);
        bs \<leftarrow> read_at s j (Suc sl);
        sp \<leftarrow> read_at sep 0 (Suc sl);
        (if bs = sp then do {
           t \<leftarrow> sdsnewlen junk (InitFrom (drop start s)) (j - start);
           tokens \<leftarrow> push_token slots tokens t;
           split_loop junk s len sep sl (Suc (j + sl)) (j + Suc sl) slots tokens }
         else split_loop junk s len sep sl (Suc j) start slots tokens) }
      else Some (start, slots, tokens))"
  by pat_completeness auto
termination
  by (relation "measure (\<lambda>(junk, s, len, sep, sl, j, start, slots, tokens). len - j)") auto

declare split_loop.simps [simp del]

text \<open>\<open>Some None\<close> is the result \<^verbatim>\<open>NULL\<close>.\<close>

definition sdssplitlen ::
  "(nat \<Rightarrow> byte) \<Rightarrow> byte list \<Rightarrow> int \<Rightarrow> byte list \<Rightarrow> int \<Rightarrow> sds list option option" where
  "sdssplitlen junk s len sep seplen =
     (if seplen < 1 \<or> len < 0 then Some None
      else if len = 0 then Some (Some [])
      else do {
        (start, slots, tokens) \<leftarrow> split_loop junk s (nat len) sep (nat seplen - 1) 0 0 5 [];
        t \<leftarrow> sdsnewlen junk (InitFrom (drop start s)) (nat len - start);
        tokens \<leftarrow> push_token slots tokens t;
        Some (Some tokens) })"

fun join_loop :: "(nat \<Rightarrow> byte) \<Rightarrow> sds \<Rightarrow> byte list list \<Rightarrow> byte list \<Rightarrow> sds option" where
  "join_loop junk join [] sep = Some join"
| "join_loop junk join (a # argv) sep = do {
     join \<leftarrow> sdscat junk join a;
     join \<leftarrow> (if argv \<noteq> [] then sdscat junk join sep else Some join);
     join_loop junk join argv sep }"

definition sdsjoin :: "(nat \<Rightarrow> byte) \<Rightarrow> byte list list \<Rightarrow> byte list \<Rightarrow> sds option" where
  "sdsjoin junk argv sep = do { join \<leftarrow> sdsempty junk; join_loop junk join argv sep }"

fun joinsds_loop :: "(nat \<Rightarrow> byte) \<Rightarrow> sds \<Rightarrow> sds list \<Rightarrow> byte list \<Rightarrow> nat \<Rightarrow> sds option" where
  "joinsds_loop junk join [] sep seplen = Some join"
| "joinsds_loop junk join (a # argv) sep seplen = do {
     join \<leftarrow> sdscatsds junk join a;
     join \<leftarrow> (if argv \<noteq> [] then sdscatlen junk join sep seplen else Some join);
     joinsds_loop junk join argv sep seplen }"

definition sdsjoinsds :: "(nat \<Rightarrow> byte) \<Rightarrow> sds list \<Rightarrow> byte list \<Rightarrow> nat \<Rightarrow> sds option" where
  "sdsjoinsds junk argv sep seplen = do { join \<leftarrow> sdsempty junk; joinsds_loop junk join argv sep seplen }"

section \<open>Quoting\<close>

abbreviation (input) bslash :: byte where "bslash \<equiv> 92"
abbreviation (input) dquote :: byte where "dquote \<equiv> 34"
abbreviation (input) squote :: byte where "squote \<equiv> 39"

definition isspace :: "byte \<Rightarrow> bool" where
  "isspace c \<longleftrightarrow> c = 32 \<or> 9 \<le> c \<and> c \<le> 13"

definition isprint :: "byte \<Rightarrow> bool" where
  "isprint c \<longleftrightarrow> 32 \<le> c \<and> c \<le> 126"

text \<open>The digits of the conversion \<^verbatim>\<open>%02x\<close>.\<close>

definition hex_digit :: "nat \<Rightarrow> byte" where
  "hex_digit d = ch (''0123456789abcdef'' ! d)"

fun repr_loop :: "(nat \<Rightarrow> byte) \<Rightarrow> sds \<Rightarrow> byte list \<Rightarrow> sds option" where
  "repr_loop junk s [] = Some s"
| "repr_loop junk s (c # p) = do {
     s \<leftarrow> (if c = bslash \<or> c = dquote then sdscatprintf junk s [bslash, 37, 99, 0] [bslash, c]
           else if c = 10 then sdscatlen junk s [bslash, ch CHR ''n'', 0] 2
           else if c = 13 then sdscatlen junk s [bslash, ch CHR ''r'', 0] 2
           else if c = 9 then sdscatlen junk s [bslash, ch CHR ''t'', 0] 2
           else if c = 7 then sdscatlen junk s [bslash, ch CHR ''a'', 0] 2
           else if c = 8 then sdscatlen junk s [bslash, ch CHR ''b'', 0] 2
           else if isprint c then sdscatprintf junk s [37, 99, 0] [c]
           else sdscatprintf junk s [bslash, 120, 37, 48, 50, 120, 0]
                  [bslash, ch CHR ''x'', hex_digit (unat c div 16), hex_digit (unat c mod 16)]);
     repr_loop junk s p }"

definition sdscatrepr :: "(nat \<Rightarrow> byte) \<Rightarrow> sds \<Rightarrow> byte list \<Rightarrow> nat \<Rightarrow> sds option" where
  "sdscatrepr junk s p len = do {
     s \<leftarrow> sdscatlen junk s [dquote, 0] 1;
     bs \<leftarrow> read_at p 0 len;
     s \<leftarrow> repr_loop junk s bs;
     sdscatlen junk s [dquote, 0] 1 }"

definition is_hex_digit :: "byte \<Rightarrow> bool" where
  "is_hex_digit c \<longleftrightarrow> c \<ge> ch CHR ''0'' \<and> c \<le> ch CHR ''9'' \<or> c \<ge> ch CHR ''a'' \<and> c \<le> ch CHR ''f''
     \<or> c \<ge> ch CHR ''A'' \<and> c \<le> ch CHR ''F''"

definition hex_digit_to_int :: "byte \<Rightarrow> nat" where
  "hex_digit_to_int c =
     (if c = ch CHR ''0'' then 0 else if c = ch CHR ''1'' then 1 else if c = ch CHR ''2'' then 2
      else if c = ch CHR ''3'' then 3 else if c = ch CHR ''4'' then 4 else if c = ch CHR ''5'' then 5
      else if c = ch CHR ''6'' then 6 else if c = ch CHR ''7'' then 7 else if c = ch CHR ''8'' then 8
      else if c = ch CHR ''9'' then 9
      else if c = ch CHR ''a'' \<or> c = ch CHR ''A'' then 10 else if c = ch CHR ''b'' \<or> c = ch CHR ''B'' then 11
      else if c = ch CHR ''c'' \<or> c = ch CHR ''C'' then 12 else if c = ch CHR ''d'' \<or> c = ch CHR ''D'' then 13
      else if c = ch CHR ''e'' \<or> c = ch CHR ''E'' then 14 else if c = ch CHR ''f'' \<or> c = ch CHR ''F'' then 15
      else 0)"

text \<open>
  The tests \<^verbatim>\<open>*p\<close>, \<^verbatim>\<open>*(p+1)\<close>, ... stop at the first that fails, so that they do not look behind the
  terminator; on a list that ends early they are false.
\<close>

fun hex_escape :: "byte list \<Rightarrow> bool" where
  "hex_escape (a # b # c # d # _) \<longleftrightarrow> a = bslash \<and> b = ch CHR ''x'' \<and> is_hex_digit c \<and> is_hex_digit d"
| "hex_escape _ \<longleftrightarrow> False"

definition unescape :: "byte \<Rightarrow> byte" where
  "unescape c =
     (if c = ch CHR ''n'' then 10 else if c = ch CHR ''r'' then 13 else if c = ch CHR ''t'' then 9
      else if c = ch CHR ''b'' then 8 else if c = ch CHR ''a'' then 7 else c)"

datatype 'a parsed = ParseErr | Parsed 'a

text \<open>
  The loop that reads one argument. Every round ends with \<^verbatim>\<open>if (*p) p++\<close>; the result is the argument
  and the rest of the line.
\<close>

fun token_loop ::
  "(nat \<Rightarrow> byte) \<Rightarrow> bool \<Rightarrow> bool \<Rightarrow> sds \<Rightarrow> byte list \<Rightarrow> (sds \<times> byte list) parsed option" where
  "token_loop junk inq insq current [] = None"
| "token_loop junk inq insq current (c # p) =
     (if inq then
        if hex_escape (c # p) then do {
          current \<leftarrow> sdscatlen junk current
            [of_nat (hex_digit_to_int (p ! 1) * 16 + hex_digit_to_int (p ! 2))] 1;
          token_loop junk inq insq current (drop 3 p) }
        else if c = bslash \<and> p \<noteq> [] \<and> hd p \<noteq> 0 then do {
          current \<leftarrow> sdscatlen junk current [unescape (hd p)] 1;
          token_loop junk inq insq current (tl p) }
        else if c = dquote then
          (case p of [] \<Rightarrow> None
           | d # _ \<Rightarrow> if d \<noteq> 0 \<and> \<not> isspace d then Some ParseErr else Some (Parsed (current, p)))
        else if c = 0 then Some ParseErr
        else do { current \<leftarrow> sdscatlen junk current [c] 1; token_loop junk inq insq current p }
      else if insq then
        if c = bslash \<and> p \<noteq> [] \<and> hd p = squote then do {
          current \<leftarrow> sdscatlen junk current [squote] 1;
          token_loop junk inq insq current (tl p) }
        else if c = squote then
          (case p of [] \<Rightarrow> None
           | d # _ \<Rightarrow> if d \<noteq> 0 \<and> \<not> isspace d then Some ParseErr else Some (Parsed (current, p)))
        else if c = 0 then Some ParseErr
        else do { current \<leftarrow> sdscatlen junk current [c] 1; token_loop junk inq insq current p }
      else if c = 32 \<or> c = 10 \<or> c = 13 \<or> c = 9 then Some (Parsed (current, p))
      else if c = 0 then Some (Parsed (current, c # p))
      else if c = dquote then token_loop junk True insq current p
      else if c = squote then token_loop junk inq True current p
      else do { current \<leftarrow> sdscatlen junk current [c] 1; token_loop junk inq insq current p })"

fun skip_blanks :: "byte list \<Rightarrow> byte list" where
  "skip_blanks [] = []"
| "skip_blanks (c # p) = (if c \<noteq> 0 \<and> isspace c then skip_blanks p else c # p)"

declare token_loop.simps [simp del]

lemma token_loop_shorter:
  "token_loop junk inq insq current p = Some (Parsed (t, p')) \<Longrightarrow> length p' \<le> length p"
proof (induction "length p" arbitrary: inq insq current p rule: less_induct)
  case less
  have IH: "token_loop junk i j s q = Some (Parsed (t, p')) \<Longrightarrow> length q < length p \<Longrightarrow> length p' \<le> length p"
    for i j s q using less.hyps [of q i j s] by simp
  show ?case
  proof (cases p)
    case Nil
    with less.prems show ?thesis by (simp add: token_loop.simps)
  next
    case (Cons c q)
    have "length (drop 3 q) < length p" "length (tl q) < length p" "length q < length p" using Cons by simp_all
    with less.prems [unfolded Cons token_loop.simps] Cons show ?thesis
      by (auto simp only: bind_Some_iff split: if_splits list.splits dest: IH)
  qed
qed

lemma token_loop_consumes:
  assumes "token_loop junk inq insq current (c # p) = Some (Parsed (t, p'))" "c \<noteq> 0"
  shows "length p' \<le> length p"
proof -
  have q: "length (drop 3 p) \<le> length p" "length (tl p) \<le> length p" by simp_all
  have sh: "token_loop junk i j s q = Some (Parsed (t, p')) \<Longrightarrow> length q \<le> length p \<Longrightarrow> length p' \<le> length p"
    for i j s q using token_loop_shorter le_trans by blast
  from assms q show ?thesis
    by (auto simp only: token_loop.simps bind_Some_iff split: if_splits list.splits dest: sh)
qed

lemma skip_blanks_length: "length (skip_blanks p) \<le> length p"
  by (induction p) auto

text \<open>The result \<open>Some None\<close> is \<^verbatim>\<open>NULL\<close>: unbalanced quotes, or a closing quote not followed by a space.\<close>

function splitargs_loop :: "(nat \<Rightarrow> byte) \<Rightarrow> byte list \<Rightarrow> sds list \<Rightarrow> sds list option option" where
  "splitargs_loop junk p vec =
     (case skip_blanks p of
        [] \<Rightarrow> None
      | c # q \<Rightarrow>
          if c \<noteq> 0 then do {
            current \<leftarrow> sdsempty junk;
            r \<leftarrow> token_loop junk False False current (c # q);
            (case r of
               ParseErr \<Rightarrow> Some None
             | Parsed x \<Rightarrow> (case x of (t, p') \<Rightarrow> splitargs_loop junk p' (vec @ [t]))) }
          else Some (Some vec))"
  by pat_completeness auto
termination
proof (relation "measure (\<lambda>(junk, p, vec). length p)")
  fix junk p vec c q current r x t p'
  assume "skip_blanks p = c # q" "c \<noteq> 0" "token_loop junk False False current (c # q) = Some r"
    "r = Parsed x" "(t, p') = x"
  then show "((junk, p', vec @ [t]), junk, p, vec) \<in> measure (\<lambda>(junk, p, vec). length p)"
    using token_loop_consumes [of junk False False current c q t p'] skip_blanks_length [of p] by auto
qed simp

declare splitargs_loop.simps [simp del]

definition sdssplitargs :: "(nat \<Rightarrow> byte) \<Rightarrow> byte list \<Rightarrow> sds list option option" where
  "sdssplitargs junk line = splitargs_loop junk line []"

end
