(* ===== verification/Sds_Spec.thy ===== *)
theory Sds_Spec
  imports Sds_Text
begin

text \<open>
  What the text functions of \<^verbatim>\<open>sds.c\<close> compute: decimal notation, trimming and ranges as list
  functions, formatting as concatenation, and the round trips between quoting and reading
  arguments and between splitting and joining.
\<close>

section \<open>Numbers\<close>

lemma sds_digits_ok:
  "length (dec v) \<le> length ys \<Longrightarrow>
    sds_digits (xs @ ys) (length xs) v
      = Some (xs @ rev (dec v) @ drop (length (dec v)) ys, length xs + length (dec v))"
proof (induction v arbitrary: xs ys rule: less_induct)
  case (less v)
  let ?c = "ch CHR ''0'' + of_nat (v mod 10)"
  have "dec v \<noteq> []" by (subst dec.simps) simp
  with less.prems obtain y zs where ys: "ys = y # zs" by (cases ys) auto
  have w: "write_at (xs @ ys) (length xs) [?c] = Some ((xs @ [?c]) @ zs)"
    using write_append [of "length xs" xs "[?c]" "[y]" zs] ys by simp
  show ?case
  proof (cases "v < 10")
    case True
    with w ys show ?thesis by (subst sds_digits.simps) (simp add: dec_small)
  next
    case False
    then have d: "dec v = dec (v div 10) @ [?c]" by (simp add: dec_step)
    have v: "v div 10 < v" "v div 10 \<noteq> 0" using False by auto
    note IH = less.IH [OF v(1), of zs "xs @ [?c]"]
    from w v(2) IH less.prems d ys show ?thesis by (subst sds_digits.simps) simp
  qed
qed

lemma reverse_loop_ok:
  "ys \<noteq> [] \<Longrightarrow> reverse_loop (xs @ ys @ zs) (length xs) (length xs + length ys - 1) = Some (xs @ rev ys @ zs)"
proof (induction "length ys" arbitrary: xs ys zs rule: less_induct)
  case less
  show ?case
  proof (cases "length ys = 1")
    case True
    then show ?thesis by (subst reverse_loop.simps) (auto simp: length_Suc_conv)
  next
    case False
    then obtain a m b where ys: "ys = a # m @ [b]"
      using less.prems by (metis One_nat_def append_butlast_last_id length_Cons list.exhaust list.size(3))
    let ?p = "length xs + Suc (length m)"
    have nth: "(xs @ ys @ zs) ! length xs = a" "(xs @ ys @ zs) ! ?p = b"
      using ys by (simp_all add: nth_append)
    have upd: "(xs @ ys @ zs)[length xs := b, ?p := a] = (xs @ [b]) @ m @ (a # zs)"
      using ys by (simp add: list_update_append)
    have step: "reverse_loop (xs @ ys @ zs) (length xs) ?p = reverse_loop ((xs @ [b]) @ m @ (a # zs)) (length xs + 1) (?p - 1)"
    proof -
      have c: "length xs < ?p" "?p < length (xs @ ys @ zs)" using ys by simp_all
      show ?thesis by (subst reverse_loop.simps) (simp only: c if_True nth upd)
    qed
    show ?thesis
    proof (cases "m = []")
      case True
      with step ys show ?thesis by (simp add: reverse_loop.simps)
    next
      case False
      with less.hyps [of m "xs @ [b]" "a # zs"] step ys show ?thesis by simp
    qed
  qed
qed

lemma reverse_prefix: "ys \<noteq> [] \<Longrightarrow> reverse_loop (ys @ zs) 0 (length ys - 1) = Some (rev ys @ zs)"
  using reverse_loop_ok [of ys "[]" zs] by simp

lemma dec_ne [simp]: "dec v \<noteq> []"
  by (subst dec.simps) simp

lemma sdsull2str_ok:
  assumes "length (dec v) < length buf"
  shows "sdsull2str buf v = Some (length (dec v), dec v @ 0 # drop (Suc (length (dec v))) buf)"
proof -
  obtain x rest where r: "drop (length (dec v)) buf = x # rest"
    using assms by (metis Cons_nth_drop_Suc)
  then have rest: "rest = drop (Suc (length (dec v))) buf" by (metis drop_Suc tl_drop list.sel(3))
  have a: "sds_digits buf 0 v = Some (rev (dec v) @ x # rest, length (dec v))"
    using sds_digits_ok [of v buf "[]"] assms r by simp
  have b: "write_at (rev (dec v) @ x # rest) (length (dec v)) [0] = Some (rev (dec v) @ 0 # rest)"
    using write_append [of "length (dec v)" "rev (dec v)" "[0]" "[x]" rest] by simp
  have c: "reverse_loop (rev (dec v) @ 0 # rest) 0 (length (dec v) - 1) = Some (dec v @ 0 # rest)"
    using reverse_prefix [of "rev (dec v)" "0 # rest"] by simp
  show ?thesis unfolding sdsull2str_def a Let_def using b c by (simp flip: rest)
qed

lemma sdsll2str_ok:
  assumes "LLONG_MIN \<le> z" "z \<le> LLONG_MAX" "length (dec_int z) < length buf"
  shows "sdsll2str buf z = Some (length (dec_int z), dec_int z @ 0 # drop (Suc (length (dec_int z))) buf)"
proof -
  define v where "v = nat \<bar>z\<bar>"
  have v: "nat ((if z < 0 then - z else z) mod 2 ^ 64) = v"
    using assms(1,2) by (simp add: v_def LLONG_MIN_def LLONG_MAX_def)
  show ?thesis
  proof (cases "z < 0")
    case False
    then have "sdsll2str buf z = sdsull2str buf v"
      unfolding sdsll2str_def sdsull2str_def v Let_def by (simp add: case_prod_beta)
    moreover have "dec_int z = dec v" using False by (simp add: dec_int_def v_def)
    ultimately show ?thesis using sdsull2str_ok assms(3) by simp
  next
    case True
    then have d: "dec_int z = ch CHR ''-'' # dec v" by (simp add: dec_int_def v_def)
    let ?n = "length (dec v)"
    have "Suc ?n < length buf" using assms(3) d by simp
    then obtain x y rest where r: "drop ?n buf = x # y # rest" "rest = drop (Suc (Suc ?n)) buf"
      by (metis Cons_nth_drop_Suc Suc_lessD)
    have a: "sds_digits buf 0 v = Some (rev (dec v) @ x # y # rest, ?n)"
      using sds_digits_ok [of v buf "[]"] assms(3) d r by simp
    have b: "write_at (rev (dec v) @ x # y # rest) ?n [ch CHR ''-''] = Some (rev (dec v) @ ch CHR ''-'' # y # rest)"
      using write_append [of ?n "rev (dec v)" "[ch CHR ''-'']" "[x]" "y # rest"] by simp
    have c: "write_at (rev (dec v) @ ch CHR ''-'' # y # rest) (?n + 1) [0] = Some (rev (dec_int z) @ 0 # rest)"
      using write_append [of "?n + 1" "rev (dec v) @ [ch CHR ''-'']" "[0]" "[y]" rest] d by simp
    have e: "reverse_loop (rev (dec_int z) @ 0 # rest) 0 (?n + 1 - 1) = Some (dec_int z @ 0 # rest)"
      using reverse_prefix [of "rev (dec_int z)" "0 # rest"] d by simp
    show ?thesis
      unfolding sdsll2str_def v a Let_def using True b c e d r(2) by simp
  qed
qed

lemma sdsfromlonglong_ok:
  assumes "LLONG_MIN \<le> z" "z \<le> LLONG_MAX"
  shows "\<exists>s. sdsfromlonglong junk z = Some s \<and> sds_inv s \<and> sds_val s = dec_int z"
proof -
  let ?buf = "fresh_mem junk SDS_LLSTR_SIZE"
  have l: "length (dec_int z) \<le> 20" using length_dec_int [OF assms] .
  then have "sdsll2str ?buf z = Some (length (dec_int z), dec_int z @ 0 # drop (Suc (length (dec_int z))) ?buf)"
    using assms by (intro sdsll2str_ok) (simp_all add: fresh_mem_def SDS_LLSTR_SIZE_def)
  with sdsnewlen_ok [of "length (dec_int z)" "InitFrom (dec_int z @ 0 # drop (Suc (length (dec_int z))) ?buf)" junk] l
  show ?thesis by (auto simp: sdsfromlonglong_def)
qed

section \<open>Formatting\<close>

lemma vprintf_loop_ok:
  "0 \<notin> set out \<Longrightarrow> 2 \<le> buflen \<Longrightarrow> length buf = buflen \<Longrightarrow>
    \<exists>rest. vprintf_loop junk buf buflen out = Some (out @ 0 # rest)"
proof (induction "length out + 2 - buflen" arbitrary: buf buflen rule: less_induct)
  case less
  let ?k = "buflen - 2"
  define buf0 where "buf0 = buf[?k := 0]"
  have k: "?k < length buf" using less.prems by simp
  have w0: "write_at buf ?k [0] = Some buf0"
    using k by (simp add: write_at_def buf0_def upd_conv_take_nth_drop)
  have l0: "length buf0 = buflen" using less.prems by (simp add: buf0_def)
  define buf1 where "buf1 = (take (buflen - 1) out @ [0]) @ drop (length (take (buflen - 1) out @ [0])) buf0"
  have w1: "vsnprintf buf0 buflen out = Some buf1"
    using l0 less.prems by (simp add: vsnprintf_def write_at_def buf1_def)
  have step: "vprintf_loop junk buf buflen out =
      (if buf1 ! ?k \<noteq> 0 then vprintf_loop junk (fresh_mem junk (buflen * 2)) (buflen * 2) out else Some buf1)"
    by (subst vprintf_loop.simps) (simp only: w0 w1 Option.bind.simps)
  show ?case
  proof (cases "length out < buflen - 1")
    case True
    then have b1: "buf1 = out @ 0 # drop (Suc (length out)) buf0" by (simp add: buf1_def)
    have "buf1 ! ?k = 0"
    proof (cases "?k = length out")
      case False
      with True have lt: "length out < ?k" by simp
      then have "buf1 ! ?k = buf0 ! ?k"
        unfolding b1 using l0 by (cases "?k - length out") (auto simp: nth_append intro: arg_cong [of _ _ "(!) buf0"])
      then show ?thesis using k by (simp add: buf0_def)
    qed (simp add: b1)
    with step b1 show ?thesis by simp
  next
    case False
    then have "buf1 ! ?k = out ! ?k" "?k < length out" using less.prems by (auto simp: buf1_def nth_append)
    then have "buf1 ! ?k \<noteq> 0" using less.prems(1) by (metis nth_mem)
    moreover have "\<exists>rest. vprintf_loop junk (fresh_mem junk (buflen * 2)) (buflen * 2) out = Some (out @ 0 # rest)"
      using False less.prems by (intro less.hyps) (auto simp: fresh_mem_def)
    ultimately show ?thesis using step by simp
  qed
qed

lemma sdscatlen_take: "n \<le> length t \<Longrightarrow> n = length bs \<Longrightarrow> take n t = bs \<Longrightarrow> sdscatlen junk s t n = sdscatlen junk s bs (length bs)"
  by (auto simp: sdscatlen_def read_at_def)

lemma sdscatprintf_eq:
  assumes "0 \<notin> set out" "0 \<in> set fmt"
  shows "sdscatprintf junk s fmt out = sdscatlen junk s out (length out)"
proof -
  obtain n where n: "strlen fmt = Some n" using assms(2) by (simp add: strlen_def)
  let ?b = "if n * 2 > 1024 then n * 2 else 1024"
  have "2 \<le> ?b" "length (fresh_mem junk ?b) = ?b" by (simp, simp only: fresh_mem_def length_map length_upt)
  from vprintf_loop_ok [OF assms(1) this, of junk]
  obtain rest where r: "vprintf_loop junk (fresh_mem junk ?b) ?b out = Some (out @ 0 # rest)" by blast
  have "takeWhile (\<lambda>c. c \<noteq> 0) out = out" using assms(1) by (auto simp: takeWhile_eq_all_conv)
  then have "strlen (out @ 0 # rest) = Some (length out)" unfolding strlen_nul by (rule arg_cong)
  then have "sdscat junk s (out @ 0 # rest) = sdscatlen junk s (out @ 0 # rest) (length out)"
    by (simp add: sdscat_def)
  also have "\<dots> = sdscatlen junk s out (length out)" by (rule sdscatlen_take) simp_all
  finally show ?thesis
    unfolding sdscatprintf_def sdscatvprintf_def n Let_def Option.bind.simps r .
qed

section \<open>Appending piece by piece\<close>

fun app_all :: "('s \<Rightarrow> 'a list \<Rightarrow> 's option) \<Rightarrow> 's \<Rightarrow> 'a list list \<Rightarrow> 's option" where
  "app_all app s [] = Some s"
| "app_all app s (b # bs) = do { s \<leftarrow> app s b; app_all app s bs }"

locale append_store =
  fixes val :: "'s \<Rightarrow> 'a list" and inv :: "'s \<Rightarrow> bool" and app :: "'s \<Rightarrow> 'a list \<Rightarrow> 's option" and bound :: nat
  assumes app_ok: "inv s \<Longrightarrow> length (val s) + length bs < bound \<Longrightarrow>
      \<exists>s'. app s bs = Some s' \<and> inv s' \<and> val s' = val s @ bs"
begin

lemma app_all_ok:
  "inv s \<Longrightarrow> length (val s) + length (concat bss) < bound \<Longrightarrow>
    \<exists>s'. app_all app s bss = Some s' \<and> inv s' \<and> val s' = val s @ concat bss"
proof (induction bss arbitrary: s)
  case (Cons b bss)
  obtain s1 where s1: "app s b = Some s1" "inv s1" "val s1 = val s @ b"
    using app_ok [OF Cons.prems(1), of b] Cons.prems(2) by auto
  from Cons.IH [OF s1(2)] Cons.prems(2) s1 show ?case by auto
qed simp

lemma app_all_append:
  "app_all app s (bs1 @ bs2) = do { s \<leftarrow> app_all app s bs1; app_all app s bs2 }"
  by (induction bs1 arbitrary: s) simp_all

end

interpretation sds_append: append_store sds_val sds_inv "\<lambda>s bs. sdscatlen junk s bs (length bs)" "2 ^ 62" for junk
  by unfold_locales (use sdscatlen_ok in fastforce)

abbreviation cat_all :: "(nat \<Rightarrow> byte) \<Rightarrow> sds \<Rightarrow> byte list list \<Rightarrow> sds option" where
  "cat_all junk \<equiv> app_all (\<lambda>s bs. sdscatlen junk s bs (length bs))"

section \<open>Quoting\<close>

definition repr_piece :: "byte \<Rightarrow> byte list" where
  "repr_piece c =
     (if c = 92 \<or> c = 34 then [92, c] else if c = 10 then [92, ch CHR ''n''] else if c = 13 then [92, ch CHR ''r'']
      else if c = 9 then [92, ch CHR ''t''] else if c = 7 then [92, ch CHR ''a''] else if c = 8 then [92, ch CHR ''b'']
      else if isprint c then [c]
      else [92, ch CHR ''x'', hex_digit (unat c div 16), hex_digit (unat c mod 16)])"

definition repr :: "byte list \<Rightarrow> byte list" where
  "repr p = 34 # concat (map repr_piece p) @ [34]"

lemma hex_digit_ok:
  assumes "d < 16"
  shows "hex_digit d \<noteq> 0" "is_hex_digit (hex_digit d)" "hex_digit_to_int (hex_digit d) = d"
proof -
  have m: "d \<in> {0, 1, 2, 3, 4, 5, 6, 7, 8, 9, 10, 11, 12, 13, 14, 15}" using assms unfolding insert_iff empty_iff by presburger
  have a: "\<forall>d \<in> {0, 1, 2, 3, 4, 5, 6, 7, 8, 9, 10, 11, 12, 13, 14, 15}.
      hex_digit d \<noteq> 0 \<and> is_hex_digit (hex_digit d) \<and> hex_digit_to_int (hex_digit d) = d"
    by (simp add: hex_digit_def is_hex_digit_def hex_digit_to_int_def)
  from bspec [OF a m]
  show "hex_digit d \<noteq> 0" "is_hex_digit (hex_digit d)" "hex_digit_to_int (hex_digit d) = d" by simp_all
qed

lemma unat_div_16: "unat (c :: byte) div 16 < 16"
proof -
  have "unat c < 256" using unsigned_less [of c, where 'a = nat] by simp
  then show ?thesis by (simp add: less_mult_imp_div_less)
qed

lemma repr_loop_pieces: "repr_loop junk s p = cat_all junk s (map repr_piece p)"
proof (induction p arbitrary: s)
  case (Cons c p)
  have nz: "c \<noteq> 0" if "isprint c" using that by (auto simp: isprint_def)
  have p: "sdscatprintf junk s f out = sdscatlen junk s out (length out)" if "0 \<in> set f" "0 \<notin> set out" for f out
    using that by (rule sdscatprintf_eq [rotated])
  have h: "0 \<noteq> hex_digit (unat c div 16)" "0 \<noteq> hex_digit (unat c mod 16)"
    using hex_digit_ok(1) unat_div_16 by (metis, metis mod_less_divisor zero_less_numeral)
  have t: "sdscatlen junk s [x, y, 0] 2 = sdscatlen junk s [x, y] (length [x, y])" for x y
    by (rule sdscatlen_take) simp_all
  have piece: "(if c = bslash \<or> c = dquote then sdscatprintf junk s [bslash, 37, 99, 0] [bslash, c]
           else if c = 10 then sdscatlen junk s [bslash, ch CHR ''n'', 0] 2
           else if c = 13 then sdscatlen junk s [bslash, ch CHR ''r'', 0] 2
           else if c = 9 then sdscatlen junk s [bslash, ch CHR ''t'', 0] 2
           else if c = 7 then sdscatlen junk s [bslash, ch CHR ''a'', 0] 2
           else if c = 8 then sdscatlen junk s [bslash, ch CHR ''b'', 0] 2
           else if isprint c then sdscatprintf junk s [37, 99, 0] [c]
           else sdscatprintf junk s [bslash, 120, 37, 48, 50, 120, 0]
                  [bslash, ch CHR ''x'', hex_digit (unat c div 16), hex_digit (unat c mod 16)])
      = sdscatlen junk s (repr_piece c) (length (repr_piece c))"
  proof -
    consider "c = 92 \<or> c = 34" | "c = 10" | "c = 13" | "c = 9" | "c = 7" | "c = 8"
      | "c \<noteq> 92" "c \<noteq> 34" "c \<noteq> 10" "c \<noteq> 13" "c \<noteq> 9" "c \<noteq> 7" "c \<noteq> 8" by blast
    then show ?thesis
    proof cases
      case 7
      then show ?thesis using p [of "[37, 99, 0]" "[c]"] nz
          p [of "[bslash, 120, 37, 48, 50, 120, 0]" "[bslash, ch CHR ''x'', hex_digit (unat c div 16), hex_digit (unat c mod 16)]"] h
        by (simp add: repr_piece_def)
    qed (use p [of "[bslash, 37, 99, 0]" "[bslash, c]"] t in \<open>auto simp: repr_piece_def\<close>)
  qed
  show ?case unfolding repr_loop.simps list.map app_all.simps piece Cons.IH ..
qed simp

lemma sdscatrepr_ok:
  assumes "sds_inv s" "n \<le> length p" "length (sds_val s) + length (repr (take n p)) < 2 ^ 62"
  shows "\<exists>s'. sdscatrepr junk s p n = Some s' \<and> sds_inv s' \<and> sds_val s' = sds_val s @ repr (take n p)"
proof -
  have t: "sdscatlen junk s [34, 0] 1 = sdscatlen junk s [34] (length [34 :: byte])" for s
    by (rule sdscatlen_take) simp_all
  have "sdscatrepr junk s p n = cat_all junk s ([[34]] @ map repr_piece (take n p) @ [[34]])"
    using assms(2) unfolding sds_append.app_all_append
    by (simp add: sdscatrepr_def read_at_def repr_loop_pieces t del: One_nat_def)
  with sds_append.app_all_ok [OF assms(1), of "[[34]] @ map repr_piece (take n p) @ [[34]]" junk] assms(3)
  show ?thesis by (simp add: repr_def)
qed

text \<open>Inside double quotes, reading the representation of a byte appends the byte.\<close>

lemma token_loop_piece:
  assumes "rest \<noteq> []"
  shows "token_loop junk True False s (repr_piece c @ rest)
    = do { s \<leftarrow> sdscatlen junk s [c] 1; token_loop junk True False s rest }"
proof -
  have two: "token_loop junk True False s ([92, x] @ rest)
      = do { s \<leftarrow> sdscatlen junk s [unescape x] 1; token_loop junk True False s rest }"
    if "x \<noteq> 0" "x \<noteq> 120" for x
    using that assms by (cases rest; cases "tl rest") (simp_all add: token_loop.simps(2) [of _ _ _ _ 92])
  let ?h = "hex_digit (unat c div 16)" and ?l = "hex_digit (unat c mod 16)"
  note hex = hex_digit_ok [OF unat_div_16 [of c]] hex_digit_ok [of "unat c mod 16"]
  have four: "token_loop junk True False s ([92, 120, ?h, ?l] @ rest)
      = do { s \<leftarrow> sdscatlen junk s [of_nat (unat c div 16 * 16 + unat c mod 16)] 1; token_loop junk True False s rest }"
    using hex by (simp add: token_loop.simps(2) [of _ _ _ _ 92] numeral_2_eq_2 numeral_3_eq_3)
  have one: "token_loop junk True False s ([c] @ rest)
      = do { s \<leftarrow> sdscatlen junk s [c] 1; token_loop junk True False s rest }"
    if "c \<noteq> 92" "c \<noteq> 34" "c \<noteq> 0"
  proof -
    have "\<not> hex_escape (c # rest)" using that by (cases rest rule: remdups_adj.cases) (auto elim: hex_escape.elims)
    with that show ?thesis by (simp add: token_loop.simps(2))
  qed
  have "of_nat (unat c div 16 * 16 + unat c mod 16) = c" by simp
  moreover have "isprint c \<Longrightarrow> c \<noteq> 0" by (auto simp: isprint_def)
  ultimately show ?thesis
    using two one four unfolding repr_piece_def by (simp add: unescape_def)
qed

lemma token_loop_repr:
  "sds_inv s \<Longrightarrow> length (sds_val s) + length x < 2 ^ 62 \<Longrightarrow>
    \<exists>t. token_loop junk True False s (concat (map repr_piece x) @ 34 # 0 # rest) = Some (Parsed (t, 0 # rest))
      \<and> sds_inv t \<and> sds_val t = sds_val s @ x"
proof (induction x arbitrary: s)
  case Nil
  have "\<not> hex_escape (34 # 0 # rest)" by (cases rest; cases "tl rest") auto
  with Nil show ?case by (simp add: token_loop.simps)
next
  case (Cons c x)
  obtain s1 where s1: "sdscatlen junk s [c] 1 = Some s1" "sds_inv s1" "sds_val s1 = sds_val s @ [c]"
    using sdscatlen_ok [OF Cons.prems(1), of 1 "[c]" junk] Cons.prems(2) by auto
  from Cons.IH [OF s1(2)] Cons.prems(2) s1 show ?case
    by (auto simp: token_loop_piece simp del: One_nat_def)
qed

lemma sdsempty_ok: "\<exists>s. sdsempty junk = Some s \<and> sds_inv s \<and> sds_val s = []"
  using sdsnewlen_ok [of 0 "InitFrom [0]" junk] by (auto simp: sdsempty_def)

lemma splitargs_repr:
  assumes "length x < 2 ^ 62"
  shows "\<exists>t. sdssplitargs junk (repr x @ 0 # rest) = Some (Some [t]) \<and> sds_inv t \<and> sds_val t = x"
proof -
  obtain e where e: "sdsempty junk = Some e" "sds_inv e" "sds_val e = []" using sdsempty_ok by blast
  from token_loop_repr [OF e(2), of x junk rest] assms e(3) obtain t where
    t: "token_loop junk True False e (concat (map repr_piece x) @ 34 # 0 # rest) = Some (Parsed (t, 0 # rest))"
      "sds_inv t" "sds_val t = x" by auto
  have "token_loop junk False False e (34 # concat (map repr_piece x) @ 34 # 0 # rest) = Some (Parsed (t, 0 # rest))"
    using t(1) by (simp add: token_loop.simps(2) [of junk False])
  moreover have "splitargs_loop junk (0 # rest) [t] = Some (Some [t])" by (simp add: splitargs_loop.simps)
  ultimately have "sdssplitargs junk (repr x @ 0 # rest) = Some (Some [t])"
    using e(1) unfolding sdssplitargs_def repr_def by (subst splitargs_loop.simps) (simp add: isspace_def)
  with t show ?thesis by blast
qed

section \<open>Trimming, ranges and characters\<close>

lemma for_bytes_ok:
  "length ys = k \<Longrightarrow> for_bytes f (xs @ ys @ zs) (length xs) k = Some (xs @ map f ys @ zs)"
proof (induction k arbitrary: xs ys)
  case (Suc k)
  then obtain y ys' where ys: "ys = y # ys'" by (cases ys) auto
  have "(xs @ ys @ zs)[length xs := f y] = (xs @ [f y]) @ ys' @ zs" using ys by simp
  with Suc.IH [of ys' "xs @ [f y]"] Suc.prems ys show ?case by (simp add: nth_append)
qed simp

lemma for_bytes_sds:
  assumes "sds_inv s"
  shows "\<exists>buf. for_bytes f (s_buf s) 0 (s_len s) = Some buf \<and> sds_inv (s\<lparr>s_buf := buf\<rparr>)
    \<and> sds_val (s\<lparr>s_buf := buf\<rparr>) = map f (sds_val s)"
proof -
  let ?r = "drop (Suc (s_len s)) (s_buf s)" and ?v = "sds_val s"
  have "for_bytes f ([] @ ?v @ 0 # ?r) (length ([] :: byte list)) (s_len s) = Some ([] @ map f ?v @ 0 # ?r)"
    using assms by (intro for_bytes_ok) simp
  then have "for_bytes f (s_buf s) 0 (s_len s) = Some (map f ?v @ 0 # ?r)" using sds_split [OF assms] by simp
  moreover have "length (map f ?v @ 0 # ?r) = length (s_buf s)"
    using arg_cong [OF sds_split [OF assms], of length] by simp
  ultimately show ?thesis
    using assms by (auto simp: sds_inv_def sds_shape_def sds_val_def nth_append)
qed

lemma memcmp_lexord:
  assumes "memcmp xs ys (min (length xs) (length ys)) = c"
  shows "c < 0 \<or> c = 0 \<and> length xs < length ys \<longleftrightarrow> (xs, ys) \<in> lexord {(a, b). a < b}"
  using assms
proof (induction xs arbitrary: ys)
  case Nil
  then show ?case by (cases ys) auto
next
  case (Cons x xs)
  then show ?case by (cases ys) (auto simp: word_less_def split: if_splits dest: unsigned_word_eqI)
qed

lemma sdscmp_ok:
  assumes s: "sds_inv s" and t: "sds_inv t"
  shows "sdscmp s t < 0 \<longleftrightarrow> (sds_val s, sds_val t) \<in> lexord {(a, b). a < b}"
    and "sdscmp s t = 0 \<longleftrightarrow> sds_val s = sds_val t"
proof -
  let ?m = "min (s_len s) (s_len t)"
  define c where "c = memcmp (sds_val s) (sds_val t) ?m"
  have le: "?m \<le> length (sds_val s)" "?m \<le> length (sds_val t)" using s t by simp_all
  have "memcmp (s_buf s) (s_buf t) ?m = c"
    unfolding c_def using memcmp_append [OF le] sds_split [OF s] sds_split [OF t] by metis
  moreover have "(if s_len s < s_len t then s_len s else s_len t) = ?m" by simp
  ultimately have e: "sdscmp s t = (if c = 0 then if s_len s > s_len t then 1 else if s_len s < s_len t then -1 else 0 else c)"
    unfolding sdscmp_def sdslen_def Let_def by simp
  have "memcmp (sds_val s) (sds_val t) (min (length (sds_val s)) (length (sds_val t))) = c"
    using s t by (simp add: c_def)
  from memcmp_lexord [OF this] show "sdscmp s t < 0 \<longleftrightarrow> (sds_val s, sds_val t) \<in> lexord {(a, b). a < b}"
    using e s t by auto
  have len: "sds_val s = sds_val t \<Longrightarrow> s_len s = s_len t" using s t by (metis sds_val_length(2))
  have "sdscmp s t = 0 \<longleftrightarrow> c = 0 \<and> s_len s = s_len t" using e by auto
  also have "\<dots> \<longleftrightarrow> take ?m (sds_val s) = take ?m (sds_val t) \<and> s_len s = s_len t"
    unfolding c_def memcmp_zero [OF le] ..
  also have "\<dots> \<longleftrightarrow> sds_val s = sds_val t" using s t len by auto
  finally show "sdscmp s t = 0 \<longleftrightarrow> sds_val s = sds_val t" .
qed

lemma trim_left_ok:
  "take (length v) buf = v \<Longrightarrow> k \<le> length v \<Longrightarrow>
    trim_left buf cset (int k) (int (length v) - 1)
      = int (k + length (takeWhile (strchr cset) (drop k v)))"
proof (induction "length v - k" arbitrary: k)
  case 0
  then have "k = length v" by simp
  then show ?case by (subst trim_left.simps) simp
next
  case (Suc n)
  then have k: "k < length v" by simp
  then have nth: "buf ! k = v ! k" using Suc.prems(1) by (metis nth_take)
  have d: "drop k v = v ! k # drop (Suc k) v" using k by (simp add: Cons_nth_drop_Suc)
  have IH: "trim_left buf cset (int (Suc k)) (int (length v) - 1)
      = int (Suc k + length (takeWhile (strchr cset) (drop (Suc k) v)))"
    using Suc k by (intro Suc.hyps(1)) auto
  have s: "int k + 1 = int (Suc k)" "int k \<le> int (length v) - 1" using k by auto
  show ?case
    unfolding trim_left.simps [of buf cset "int k"] s(1) IH using s(2) nth d by simp
qed

lemma trim_right_ok:
  "take (length v) buf = v \<Longrightarrow> k < n \<Longrightarrow> n \<le> length v \<Longrightarrow> \<not> strchr cset (v ! k) \<Longrightarrow>
    trim_right buf cset (int k) (int n - 1)
      = int n - 1 - int (length (takeWhile (strchr cset) (rev (take n v))))"
proof (induction "n - k" arbitrary: n)
  case (Suc j)
  then obtain m where m: "n = Suc m" by (cases n) auto
  have nth: "buf ! m = v ! m" using Suc.prems m by (metis nth_take Suc_le_lessD)
  have r: "rev (take n v) = v ! m # rev (take m v)" using Suc.prems m by (simp add: take_Suc_conv_app_nth)
  show ?case
  proof (cases "m = k")
    case True
    with Suc.prems(4) r m show ?thesis by (subst trim_right.simps) simp
  next
    case False
    then have "trim_right buf cset (int k) (int m - 1) = int m - 1 - int (length (takeWhile (strchr cset) (rev (take m v))))"
      using Suc m by (intro Suc.hyps(1)) auto
    with False Suc.prems m nth r show ?thesis by (subst trim_right.simps) auto
  qed
qed simp

definition trim :: "('a \<Rightarrow> bool) \<Rightarrow> 'a list \<Rightarrow> 'a list" where
  "trim P xs = rev (dropWhile P (rev (dropWhile P xs)))"

lemma sds_prefix:
  assumes inv: "sds_inv s" and buf: "length buf = length (s_buf s)" "take n buf = xs" "n \<le> s_len s"
  shows "\<exists>s'. do { s \<leftarrow> sds_write (s\<lparr>s_buf := buf\<rparr>) n [0]; Some (sdssetlen s n) } = Some s' \<and> sds_inv s' \<and> sds_val s' = xs"
proof -
  have n: "n < length buf" "length xs = n" using inv buf by (auto simp: sds_inv_def sds_shape_def)
  have w: "sds_write (s\<lparr>s_buf := buf\<rparr>) n [0] = Some (s\<lparr>s_buf := xs @ 0 # drop (Suc n) buf\<rparr>)"
    using n buf by (simp add: sds_write_def write_at_def)
  have "sds_room (s\<lparr>s_buf := xs @ 0 # drop (Suc n) buf\<rparr>) (length xs)"
    using inv buf n by (auto simp: sds_room_def sds_inv_def sds_shape_def)
  from sds_set [OF this, of "drop (Suc n) buf"] w n show ?thesis by simp
qed

lemma memmove_front:
  assumes "k + n \<le> length buf"
  shows "\<exists>buf'. memmove buf 0 k n = Some buf' \<and> length buf' = length buf \<and> take n buf' = take n (drop k buf)"
  using assms by (simp add: memmove_def read_at_def write_at_def)

lemma sdstrim_ok:
  assumes inv: "sds_inv s"
  shows "\<exists>s'. sdstrim s cset = Some s' \<and> sds_inv s' \<and> sds_val s' = trim (strchr cset) (sds_val s)"
proof -
  define v where "v = sds_val s"
  have v: "take (length v) (s_buf s) = v" "length v = s_len s" using inv by (auto simp: v_def sds_val_def sds_inv_def sds_shape_def)
  have tv: "take (s_len s) (s_buf s) = v" by (simp add: v_def sds_val_def)
  define k where "k = length (takeWhile (strchr cset) v)"
  have sp: "trim_left (s_buf s) cset 0 (int (s_len s) - 1) = int k"
    using trim_left_ok [OF v(1), of 0 cset] v(2) by (simp add: k_def)
  have k: "k \<le> s_len s" "dropWhile (strchr cset) v = drop k v"
    using v(2) length_takeWhile_le [of "strchr cset" v] by (auto simp: k_def dropWhile_eq_drop)
  define r where "r = length (takeWhile (strchr cset) (rev (drop k v)))"
  define n where "n = s_len s - k - r"
  have "dropWhile (strchr cset) (rev (drop k v)) = drop r (rev (drop k v))" unfolding r_def by (rule dropWhile_eq_drop)
  then have "trim (strchr cset) v = take (length (rev (drop k v)) - r) (rev (rev (drop k v)))"
    unfolding trim_def k(2) by (simp only: rev_drop)
  then have tr: "trim (strchr cset) v = take n (drop k v)" using v(2) by (simp add: n_def)
  have ep: "(if int k > trim_right (s_buf s) cset (int k) (int (s_len s) - 1) then 0
      else nat (trim_right (s_buf s) cset (int k) (int (s_len s) - 1) - int k + 1)) = n"
  proof (cases "k = s_len s")
    case True
    then show ?thesis by (subst (1 2) trim_right.simps) (simp add: n_def)
  next
    case False
    then have kl: "k < length v" using k(1) v(2) by simp
    then have mem: "v ! k \<in> set (drop k v)" by (metis Cons_nth_drop_Suc list.set_intros(1))
    from kl have nk: "\<not> strchr cset (v ! k)" unfolding k_def by (rule nth_length_takeWhile)
    have "takeWhile (strchr cset) (rev v) = takeWhile (strchr cset) (rev (drop k v) @ rev (take k v))"
      by (simp flip: rev_append)
    also have "\<dots> = takeWhile (strchr cset) (rev (drop k v))"
      using nk mem by (intro takeWhile_append1 [of "v ! k"]) simp_all
    finally have "trim_right (s_buf s) cset (int k) (int (s_len s) - 1) = int (s_len s) - 1 - int r"
      using trim_right_ok [OF v(1) kl order_refl nk] unfolding v(2) [symmetric] r_def by simp
    moreover have "r < length v - k"
    proof -
      let ?ys = "rev (drop k v)"
      have ne: "takeWhile (strchr cset) ?ys \<noteq> ?ys"
        using nk mem unfolding takeWhile_eq_all_conv set_rev by blast
      have "take r ?ys = takeWhile (strchr cset) ?ys" unfolding r_def by (rule takeWhile_eq_take [symmetric])
      with ne have "r < length ?ys" by (metis not_le_imp_less take_all)
      then show ?thesis by simp
    qed
    ultimately have e: "trim_right (s_buf s) cset (int k) (int (s_len s) - 1) = int k + int n - 1" "0 < n"
      using v(2) unfolding n_def by linarith+
    show ?thesis unfolding e(1) using e(2) by simp
  qed
  have nk: "n \<le> s_len s - k" by (simp add: n_def)
  have dk: "take n (drop k (s_buf s)) = take n (drop k v)"
    unfolding tv [symmetric] drop_take take_take using nk by (simp only: min_absorb1)
  obtain buf where buf: "(if int k \<noteq> 0 then memmove (s_buf s) 0 (nat (int k)) n else Some (s_buf s)) = Some buf"
    "length buf = length (s_buf s)" "take n buf = take n (drop k v)"
  proof (cases "k = 0")
    case True
    with dk show ?thesis by (intro that [of "s_buf s"]) simp_all
  next
    case False
    have "s_len s < length (s_buf s)" using inv by (simp add: sds_inv_def sds_shape_def)
    with k(1) nk have "k + n \<le> length (s_buf s)" by linarith
    from memmove_front [OF this] False dk show ?thesis by (auto intro: that)
  qed
  have "sdstrim s cset = do { s \<leftarrow> sds_write (s\<lparr>s_buf := buf\<rparr>) n [0]; Some (sdssetlen s n) }"
    unfolding sdstrim_def Let_def sdslen_def sp ep buf(1) by simp
  with sds_prefix [OF inv buf(2,3)] tr nk show ?thesis by (simp add: v_def)
qed

text \<open>The interval \<open>start..end\<close> of a list, both ends inclusive, negative ends from the back.\<close>

definition range_of :: "'a list \<Rightarrow> int \<Rightarrow> int \<Rightarrow> 'a list" where
  "range_of xs start en =
     (let n = int (length xs);
          a = (if start < 0 then max (n + start) 0 else start);
          b = (if en < 0 then max (n + en) 0 else en)
      in take (nat (b + 1 - a)) (drop (nat a) xs))"

lemma sdsrange_ok:
  assumes inv: "sds_inv s"
  shows "\<exists>s'. sdsrange s start en = Some s' \<and> sds_inv s' \<and> sds_val s' = range_of (sds_val s) start en"
proof (cases "s_len s = 0")
  case True
  with inv show ?thesis by (simp add: sdsrange_def sdslen_def range_of_def Let_def sds_val_def)
next
  case False
  define v where "v = sds_val s"
  have lv: "length v = s_len s" using inv by (simp add: v_def)
  have tv: "take (s_len s) (s_buf s) = v" by (simp add: v_def sds_val_def)
  define a where "a = (if start < 0 then max (int (s_len s) + start) 0 else start)"
  define b where "b = (if en < 0 then max (int (s_len s) + en) 0 else en)"
  have ab: "0 \<le> a" "0 \<le> b" by (auto simp: a_def b_def)
  define k where "k = (if a > b then 0 else nat a)"
  define n where "n = min (nat (b + 1 - a)) (s_len s - nat a)"
  have sel: "(if (if a > b then 0 else b - a + 1) \<noteq> 0
        then if a \<ge> int (s_len s) then (a, 0)
             else if b \<ge> int (s_len s) then (a, if a > int (s_len s) - 1 then 0 else int (s_len s) - 1 - a + 1)
             else (a, if a > b then 0 else b - a + 1)
        else (0, if a > b then 0 else b - a + 1)) = (int k, int n)"
    using ab by (auto simp: k_def n_def min_def)
  have val: "range_of v start en = take n (drop (nat a) v)"
    unfolding range_of_def Let_def lv a_def [symmetric] b_def [symmetric] n_def
    by (metis length_drop lv min.commute take_take take_all order_refl)
  have nk: "n \<le> s_len s - nat a" by (simp add: n_def)
  have dk: "take n (drop (nat a) (s_buf s)) = take n (drop (nat a) v)"
    unfolding tv [symmetric] drop_take take_take using nk by (simp only: min_absorb1)
  obtain buf where buf: "(if int k \<noteq> 0 \<and> int n \<noteq> 0 then memmove (s_buf s) 0 (nat (int k)) (nat (int n)) else Some (s_buf s)) = Some buf"
    "length buf = length (s_buf s)" "take n buf = take n (drop (nat a) v)"
  proof (cases "k = 0 \<or> n = 0")
    case True
    then have "n = 0 \<or> nat a = 0" using ab by (auto simp: k_def n_def split: if_splits)
    with True dk show ?thesis by (intro that [of "s_buf s"]) auto
  next
    case False
    then have ka: "k = nat a" by (auto simp: k_def split: if_splits)
    have "s_len s < length (s_buf s)" using inv by (simp add: sds_inv_def sds_shape_def)
    with nk False have "nat a + n \<le> length (s_buf s)" by linarith
    from memmove_front [OF this] False dk ka show ?thesis by (auto intro: that)
  qed
  have "sdsrange s start en = do { s \<leftarrow> sds_write (s\<lparr>s_buf := buf\<rparr>) n [0]; Some (sdssetlen s n) }"
    unfolding sdsrange_def Let_def sdslen_def a_def [symmetric] b_def [symmetric] sel prod.case buf(1)
    using False by simp
  with sds_prefix [OF inv buf(2,3)] nk val show ?thesis by (simp add: v_def)
qed

section \<open>Splitting and joining\<close>

definition occurs_at :: "'a list \<Rightarrow> 'a list \<Rightarrow> nat \<Rightarrow> bool" where
  "occurs_at sep xs p \<longleftrightarrow> p + length sep \<le> length xs \<and> take (length sep) (drop p xs) = sep"

fun inter :: "'a list \<Rightarrow> 'a list list \<Rightarrow> 'a list" where
  "inter sep [] = []"
| "inter sep [t] = t"
| "inter sep (t # u # ts) = t @ sep @ inter sep (u # ts)"

lemma inter_snoc: "inter sep (ts @ [t]) = concat (map (\<lambda>t. t @ sep) ts) @ t"
  by (induction sep ts rule: inter.induct) simp_all

lemma joinsds_loop_ok:
  "sds_inv j \<Longrightarrow> list_all sds_inv ts \<Longrightarrow> n \<le> length sep \<Longrightarrow>
    length (sds_val j) + length (inter (take n sep) (map sds_val ts)) < 2 ^ 62 \<Longrightarrow>
    \<exists>j'. joinsds_loop junk j ts sep n = Some j' \<and> sds_inv j' \<and> sds_val j' = sds_val j @ inter (take n sep) (map sds_val ts)"
proof (induction ts arbitrary: j)
  case (Cons t ts)
  have inv: "sds_inv t" "list_all sds_inv ts" using Cons.prems(2) by auto
  have lt: "length (sds_val t) + length (sds_val j) < 2 ^ 62" using Cons.prems(4) by (cases ts) auto
  obtain j1 where j1: "sdscatsds junk j t = Some j1" "sds_inv j1" "sds_val j1 = sds_val j @ sds_val t"
    using sdscatlen_ok [OF Cons.prems(1), of "s_len t" "s_buf t" junk] inv(1) lt
    by (auto simp: sdscatsds_def sdslen_def sds_val_def [of t] sds_inv_def [of t] sds_shape_def [of t])
  show ?case
  proof (cases ts)
    case Nil
    with j1 show ?thesis by simp
  next
    case (Cons u us)
    obtain j2 where j2: "sdscatlen junk j1 sep n = Some j2" "sds_inv j2" "sds_val j2 = sds_val j1 @ take n sep"
      using sdscatlen_ok [OF j1(2), of n sep junk] Cons.prems(3,4) j1(3) Cons by auto
    have "\<exists>j'. joinsds_loop junk j2 ts sep n = Some j' \<and> sds_inv j' \<and> sds_val j' = sds_val j2 @ inter (take n sep) (map sds_val ts)"
      using Cons.prems inv j2 j1 Cons by (intro Cons.IH) auto
    with j1 j2 Cons show ?thesis by auto
  qed
qed simp

text \<open>State of the splitting loop: the finished tokens and separators make up the text before \<open>start\<close>.\<close>

definition split_inv :: "byte list \<Rightarrow> nat \<Rightarrow> byte list \<Rightarrow> nat \<Rightarrow> nat \<Rightarrow> nat \<Rightarrow> sds list \<Rightarrow> bool" where
  "split_inv s len sep j start slots tokens \<longleftrightarrow>
     start \<le> j \<and> start \<le> len \<and> 0 < slots \<and> length tokens < slots \<and>
     concat (map (\<lambda>t. sds_val t @ sep) tokens) = take start s \<and>
     (\<forall>t \<in> set tokens. sds_inv t \<and> (\<forall>p. \<not> occurs_at sep (sds_val t) p)) \<and>
     (\<forall>p. start \<le> p \<longrightarrow> p < j \<longrightarrow> take (length sep) (drop p s) \<noteq> sep)"

lemma no_occurrence:
  assumes "\<forall>p. start \<le> p \<longrightarrow> p < j \<longrightarrow> take (length sep) (drop p s) \<noteq> sep" "sep \<noteq> []"
    "n + start \<le> j + length sep - 1"
  shows "\<not> occurs_at sep (take n (drop start s)) p"
proof
  assume o: "occurs_at sep (take n (drop start s)) p"
  let ?t = "take n (drop start s)"
  have l: "0 < length sep" using assms(2) by simp
  have b: "p + length sep \<le> n" using o by (simp add: occurs_at_def)
  then have "length sep \<le> n - p" using l by linarith
  then have "take (length sep) (drop p ?t) = take (length sep) (drop (start + p) s)"
    by (simp add: drop_take min_absorb1 add.commute)
  then have "take (length sep) (drop (start + p) s) = sep" using o by (simp add: occurs_at_def)
  moreover have "start + p < j" using b assms(3) l by linarith
  ultimately show False using assms(1) by (metis le_add1)
qed

lemma split_loop_ok:
  assumes "len \<le> length s" "len < 2 ^ 62" "Suc sl = length sp" "take (Suc sl) sep = sp" "Suc sl \<le> length sep"
    "split_inv s len sp j start slots tokens" "j \<le> len"
  shows "\<exists>start' slots' tokens'. split_loop junk s len sep sl j start slots tokens = Some (start', slots', tokens')
    \<and> split_inv s len sp (max start' (len - sl)) start' slots' tokens'"
  using assms(6,7)
proof (induction "len - j" arbitrary: j start slots tokens rule: less_induct)
  case less
  note inv = less.prems(1) [unfolded split_inv_def]
  show ?case
  proof (cases "j + sl < len")
    case False
    have "split_inv s len sp (max start (len - sl)) start slots tokens"
      using inv False by (auto simp: split_inv_def)
    with False show ?thesis by (subst split_loop.simps) simp
  next
    case True
    define sl' where "sl' = (if slots < length tokens + 2 then slots * 2 else slots)"
    have slots: "0 < sl'" "length tokens + 2 \<le> sl'" using inv by (auto simp: sl'_def)
    have rd: "read_at s j (Suc sl) = Some (take (Suc sl) (drop j s))" "read_at sep 0 (Suc sl) = Some sp"
      using True assms(1,3-5) by (simp_all add: read_at_def)
    have step: "split_loop junk s len sep sl j start slots tokens =
        (if take (Suc sl) (drop j s) = sp then do {
           t \<leftarrow> sdsnewlen junk (InitFrom (drop start s)) (j - start);
           tokens \<leftarrow> push_token sl' tokens t;
           split_loop junk s len sep sl (Suc (j + sl)) (j + Suc sl) sl' tokens }
         else split_loop junk s len sep sl (Suc j) start sl' tokens)"
      by (subst split_loop.simps) (simp only: True if_True Let_def sl'_def [symmetric] rd Option.bind.simps)
    show ?thesis
    proof (cases "take (Suc sl) (drop j s) = sp")
      case False
      have "split_inv s len sp (Suc j) start sl' tokens"
        using less.prems(1) slots False assms(3) by (auto simp: split_inv_def less_Suc_eq)
      with less.hyps [of "Suc j" start sl' tokens] True
      have "\<exists>start' slots' tokens'. split_loop junk s len sep sl (Suc j) start sl' tokens = Some (start', slots', tokens')
          \<and> split_inv s len sp (max start' (len - sl)) start' slots' tokens'" by auto
      with False show ?thesis unfolding step by simp
    next
      case found: True
      have sj: "start \<le> j" using inv by simp
      have "j - start < 2 ^ 62" "j - start \<le> length (drop start s)" using assms(1,2) True by (linarith, simp)
      with sdsnewlen_ok [of "j - start" "InitFrom (drop start s)" junk] obtain t where
        t: "sdsnewlen junk (InitFrom (drop start s)) (j - start) = Some t" "sds_inv t"
          "sds_val t = take (j - start) (drop start s)" by auto
      have "take start s @ take (j - start) (drop start s) @ sp = take (j + Suc sl) s"
        using sj found by (metis append_assoc le_add_diff_inverse take_add)
      moreover have "\<not> occurs_at sp (sds_val t) p" for p
        unfolding t(3) using inv assms(3) sj by (intro no_occurrence [of _ j]) auto
      ultimately have "split_inv s len sp (Suc (j + sl)) (j + Suc sl) sl' (tokens @ [t])"
        using inv slots True t by (auto simp: split_inv_def)
      with less.hyps [of "Suc (j + sl)" "j + Suc sl" sl' "tokens @ [t]"] True
      have "\<exists>start' slots' tokens'. split_loop junk s len sep sl (Suc (j + sl)) (j + Suc sl) sl' (tokens @ [t])
          = Some (start', slots', tokens') \<and> split_inv s len sp (max start' (len - sl)) start' slots' tokens'" by auto
      with found t(1) slots show ?thesis unfolding step by (simp add: push_token_def)
    qed
  qed
qed

lemma sdssplitlen_ok:
  assumes "0 < n" "n \<le> length s" "n < 2 ^ 62" "0 < k" "k \<le> length sep"
  shows "\<exists>tokens. sdssplitlen junk s (int n) sep (int k) = Some (Some tokens)
    \<and> (\<forall>t \<in> set tokens. sds_inv t \<and> (\<forall>p. \<not> occurs_at (take k sep) (sds_val t) p))
    \<and> inter (take k sep) (map sds_val tokens) = take n s"
proof -
  let ?sp = "take k sep"
  have sl: "Suc (k - 1) = length ?sp" "take (Suc (k - 1)) sep = ?sp" "Suc (k - 1) \<le> length sep" using assms by auto
  have "split_inv s n ?sp 0 0 5 []" by (simp add: split_inv_def)
  from split_loop_ok [OF assms(2,3) sl this, of junk] obtain st slots ts where
    r: "split_loop junk s n sep (k - 1) 0 0 5 [] = Some (st, slots, ts)"
      and inv: "split_inv s n ?sp (max st (n - (k - 1))) st slots ts" by blast
  note i = inv [unfolded split_inv_def]
  have "n - st < 2 ^ 62" "n - st \<le> length (drop st s)" using assms(2,3) by (linarith, simp)
  with sdsnewlen_ok [of "n - st" "InitFrom (drop st s)" junk] obtain t where
    t: "sdsnewlen junk (InitFrom (drop st s)) (n - st) = Some t" "sds_inv t" "sds_val t = take (n - st) (drop st s)" by auto
  have "\<not> occurs_at ?sp (sds_val t) p" for p
    unfolding t(3) using i assms by (intro no_occurrence [of st "max st (n - (k - 1))"]) auto
  moreover have "inter ?sp (map sds_val (ts @ [t])) = take n s"
    using i t by (simp add: inter_snoc comp_def flip: take_add)
  moreover have "sdssplitlen junk s (int n) sep (int k) = Some (Some (ts @ [t]))"
    using r t(1) i assms by (simp add: sdssplitlen_def push_token_def)
  ultimately show ?thesis using i t by (intro exI [of _ "ts @ [t]"]) auto
qed

section \<open>The format function\<close>

text \<open>The text a conversion stands for, and the text of a whole format.\<close>

fun arg_val :: "byte \<Rightarrow> fmt_arg \<Rightarrow> byte list option" where
  "arg_val c (ArgStr p) = (if c = ch CHR ''s'' \<and> 0 \<in> set p then Some (takeWhile (\<lambda>x. x \<noteq> 0) p) else None)"
| "arg_val c (ArgSds t) = (if c = ch CHR ''S'' \<and> sds_inv t then Some (sds_val t) else None)"
| "arg_val c (ArgInt n) = (if c = ch CHR ''i'' \<and> LLONG_MIN \<le> n \<and> n \<le> LLONG_MAX then Some (dec_int n) else None)"
| "arg_val c (ArgLong n) = (if c = ch CHR ''I'' \<and> LLONG_MIN \<le> n \<and> n \<le> LLONG_MAX then Some (dec_int n) else None)"
| "arg_val c (ArgUInt n) = (if c = ch CHR ''u'' \<and> n \<le> ULLONG_MAX then Some (dec n) else None)"
| "arg_val c (ArgULong n) = (if c = ch CHR ''U'' \<and> n \<le> ULLONG_MAX then Some (dec n) else None)"

fun fmt_text :: "byte list \<Rightarrow> fmt_arg list \<Rightarrow> byte list option" where
  "fmt_text [] ap = None"
| "fmt_text (c # f) ap =
     (if c = 0 then Some []
      else if c = ch CHR ''%'' then
        (case f of
           [] \<Rightarrow> None
         | nxt # f' \<Rightarrow>
             if nxt \<in> set (bytes_of ''sSiIuU'') then
               (case ap of [] \<Rightarrow> None
                | a # ap' \<Rightarrow> do { x \<leftarrow> arg_val nxt a; y \<leftarrow> fmt_text f' ap'; Some (x @ y) })
             else map_option (\<lambda>y. nxt # y) (fmt_text f' ap))
      else map_option (\<lambda>y. c # y) (fmt_text f ap))"

lemma ull_text: "n \<le> ULLONG_MAX \<Longrightarrow>
    do { (l, buf) \<leftarrow> sdsull2str (fresh_mem junk SDS_LLSTR_SIZE) n; read_at buf 0 l } = Some (dec n)"
proof -
  assume "n \<le> ULLONG_MAX"
  then have "length (dec n) \<le> Suc 19" by (intro length_dec_le) (simp add: ULLONG_MAX_def)
  then show ?thesis by (subst sdsull2str_ok) (simp_all add: fresh_mem_def SDS_LLSTR_SIZE_def read_at_def)
qed

lemma ll_text: "LLONG_MIN \<le> n \<Longrightarrow> n \<le> LLONG_MAX \<Longrightarrow>
    do { (l, buf) \<leftarrow> sdsll2str (fresh_mem junk SDS_LLSTR_SIZE) n; read_at buf 0 l } = Some (dec_int n)"
  using length_dec_int [of n]
  by (subst sdsll2str_ok) (simp_all add: fresh_mem_def SDS_LLSTR_SIZE_def read_at_def)

lemma arg_text_ok: "arg_val c a = Some x \<Longrightarrow> arg_text junk c a = Some x"
proof (cases a)
  case (ArgStr p)
  assume "arg_val c a = Some x"
  with ArgStr show ?thesis
    using length_takeWhile_le [of "\<lambda>x. x \<noteq> 0" p]
    by (auto simp: strlen_def read_at_def takeWhile_eq_take [symmetric] split: if_splits)
next
  case (ArgSds t)
  assume "arg_val c a = Some x"
  with ArgSds show ?thesis
    by (auto simp: sdslen_def read_at_def sds_inv_def sds_shape_def sds_val_def split: if_splits)
qed (simp_all add: ll_text ull_text split: if_splits)

lemma fmt_write:
  assumes "sds_shape s" "sds_room s (s_len s + length bs)"
  shows "\<exists>s'. sds_write s (s_len s) bs = Some s' \<and> sds_shape (sdsinclen s' (length bs))
    \<and> sds_val (sdsinclen s' (length bs)) = sds_val s @ bs \<and> s_len (sdsinclen s' (length bs)) = s_len s + length bs"
proof -
  let ?buf = "take (s_len s) (s_buf s) @ bs @ drop (s_len s + length bs) (s_buf s)"
  have "sds_write s (s_len s) bs = Some (s\<lparr>s_buf := ?buf\<rparr>)"
    using assms by (simp add: sds_write_def write_at_def sds_room_def)
  moreover have "sds_shape (sdsinclen (s\<lparr>s_buf := ?buf\<rparr>) (length bs))"
    "sds_val (sdsinclen (s\<lparr>s_buf := ?buf\<rparr>) (length bs)) = sds_val s @ bs"
    "s_len (sdsinclen (s\<lparr>s_buf := ?buf\<rparr>) (length bs)) = s_len s + length bs"
    using assms by (auto simp: sds_shape_def sds_room_def sds_val_def sdsinclen_def)
  ultimately show ?thesis by blast
qed

lemma fmt_room:
  assumes "sds_shape s" "s_len s + n < 2 ^ 62"
  shows "\<exists>s'. (if sdsavail s < n then sdsMakeRoomFor junk s n else Some s) = Some s' \<and> sds_shape s'
    \<and> sds_val s' = sds_val s \<and> s_len s' = s_len s \<and> sds_room s' (s_len s + n)"
proof (cases "sdsavail s < n")
  case True
  with sdsMakeRoomFor_shape [OF assms, of junk] show ?thesis by auto
next
  case False
  with assms have "sds_room s (s_len s + n)"
    by (auto simp: sdsavail_shape sds_room_def sds_shape_def split: if_splits)
  with False assms show ?thesis by simp
qed

lemma fmt_loop_ok:
  "sds_shape s \<Longrightarrow> fmt_text f ap = Some out \<Longrightarrow> s_len s + length out + 1 < 2 ^ 62 \<Longrightarrow>
    \<exists>s' i. fmt_loop junk s (s_len s) f ap = Some (s', i) \<and> sds_shape s' \<and> sds_val s' = sds_val s @ out \<and> i = s_len s'"
proof (induction "length f" arbitrary: s f ap out rule: less_induct)
  case less
  from less.prems(2) obtain c g where f: "f = c # g" by (cases f) auto
  show ?case
  proof (cases "c = 0")
    case True
    with f less.prems show ?thesis by simp
  next
    case nz: False
    have "s_len s + 1 < 2 ^ 62" using less.prems(3) by simp
    with fmt_room [OF less.prems(1), of 1 junk] obtain s1 where
      s1: "(if sdsavail s = 0 then sdsMakeRoomFor junk s 1 else Some s) = Some s1" "sds_shape s1"
        "sds_val s1 = sds_val s" "s_len s1 = s_len s" "sds_room s1 (s_len s + 1)" by auto
    have char: "\<exists>s' i. do { s \<leftarrow> sds_write s1 (s_len s) [d]; fmt_loop junk (sdsinclen s 1) (s_len s0 + 1) h ap } = Some (s', i)
        \<and> sds_shape s' \<and> sds_val s' = sds_val s @ d # y \<and> i = s_len s'"
      if "length h < length f" "fmt_text h ap = Some y" "s_len s + length y + 2 < 2 ^ 62" "s_len s0 = s_len s" for d h y s0
    proof -
      from fmt_write [OF s1(2), of "[d]"] s1(4,5) obtain s2 where
        s2: "sds_write s1 (s_len s) [d] = Some s2" "sds_shape (sdsinclen s2 1)"
          "sds_val (sdsinclen s2 1) = sds_val s @ [d]" "s_len (sdsinclen s2 1) = s_len s + 1"
        using s1(3) by auto
      from less.hyps [OF that(1) s2(2) that(2)] that s2 show ?thesis by auto
    qed
    show ?thesis
    proof (cases "c = ch CHR ''%''")
      case False
      with less.prems(2) f nz obtain y where "fmt_text g ap = Some y" "out = c # y" by auto
      with char [of g y s c] False f nz s1(1) less.prems(3) show ?thesis by simp
    next
      case True
      with less.prems(2) f obtain nxt h where g: "g = nxt # h" by (cases g) auto
      show ?thesis
      proof (cases "nxt \<in> set (bytes_of ''sSiIuU'')")
        case False
        with less.prems(2) f g True obtain y where "fmt_text h ap = Some y" "out = nxt # y" by auto
        with char [of h y s nxt] False True f g s1(1) less.prems(3) show ?thesis by simp
      next
        case conv: True
        with less.prems(2) f g True obtain a ap' x y where ap: "ap = a # ap'" "arg_val nxt a = Some x"
          "fmt_text h ap' = Some y" "out = x @ y" by (auto simp: bind_Some_iff split: list.splits)
        from fmt_room [OF s1(2), of "length x" junk] s1 less.prems(3) ap(4) obtain s2 where
          s2: "(if sdsavail s1 < length x then sdsMakeRoomFor junk s1 (length x) else Some s1) = Some s2" "sds_shape s2"
            "sds_val s2 = sds_val s" "s_len s2 = s_len s" "sds_room s2 (s_len s + length x)" by auto
        from fmt_write [OF s2(2), of x] s2 obtain s3 where
          s3: "sds_write s2 (s_len s) x = Some s3" "sds_shape (sdsinclen s3 (length x))"
            "sds_val (sdsinclen s3 (length x)) = sds_val s @ x" "s_len (sdsinclen s3 (length x)) = s_len s + length x" by auto
        have "fmt_put junk s1 (s_len s) x = Some (sdsinclen s3 (length x))"
          unfolding fmt_put_def s2(1) using s3(1) by simp
        with less.hyps [OF _ s3(2) ap(3)] s3(3,4) f g True conv s1(1) ap less.prems(3) arg_text_ok [OF ap(2)]
        show ?thesis by auto
      qed
    qed
  qed
qed

lemma sdscatfmt_ok:
  assumes "sds_inv s" "fmt_text fmt ap = Some out" "length (sds_val s) + length out + 1 < 2 ^ 62"
  shows "\<exists>s'. sdscatfmt junk s fmt ap = Some s' \<and> sds_inv s' \<and> sds_val s' = sds_val s @ out"
proof -
  from fmt_loop_ok [OF sds_inv_shape [OF assms(1)] assms(2)] assms(1,3) obtain s1 where
    s1: "fmt_loop junk s (s_len s) fmt ap = Some (s1, s_len s1)" "sds_shape s1" "sds_val s1 = sds_val s @ out" by auto
  have "sds_write s1 (s_len s1) [0] = Some (s1\<lparr>s_buf := (s_buf s1)[s_len s1 := 0]\<rparr>)"
    using s1(2) by (simp add: sds_write_def write_at_def sds_shape_def upd_conv_take_nth_drop)
  moreover have "sds_inv (s1\<lparr>s_buf := (s_buf s1)[s_len s1 := 0]\<rparr>)"
    "sds_val (s1\<lparr>s_buf := (s_buf s1)[s_len s1 := 0]\<rparr>) = sds_val s1"
    using s1(2) by (auto simp: sds_inv_def sds_shape_def sds_val_def)
  ultimately show ?thesis using s1 by (simp add: sdscatfmt_def sdslen_def)
qed

end
