(* ===== verification/Sds_Refine.thy ===== *)
theory Sds_Refine
  imports Sds_Spec
begin

text \<open>
  Dynamic strings refine byte lists: any sequence of operations keeps the representation well
  formed and computes what the list functions compute. The theorems on quoting, splitting and
  formatting follow.
\<close>

section \<open>Operations and their specification\<close>

datatype sds_op =
    SCat "byte list" | SCpy "byte list" | SGrowZero nat | SClear | SUpdateLen | SMakeRoom nat | SRemoveFree
  | STrim "byte list" | SRange int int | SLower | SUpper | SMapChars "byte list" "byte list" | SRepr "byte list" | SDup

definition sds_step :: "(nat \<Rightarrow> byte) \<Rightarrow> sds_op \<Rightarrow> sds \<Rightarrow> sds option" where
  "sds_step junk op s = (case op of
     SCat bs \<Rightarrow> sdscatlen junk s bs (length bs)
   | SCpy bs \<Rightarrow> sdscpylen junk s bs (length bs)
   | SGrowZero n \<Rightarrow> sdsgrowzero junk s n
   | SClear \<Rightarrow> sdsclear s
   | SUpdateLen \<Rightarrow> sdsupdatelen s
   | SMakeRoom n \<Rightarrow> sdsMakeRoomFor junk s n
   | SRemoveFree \<Rightarrow> sdsRemoveFreeSpace junk s
   | STrim cset \<Rightarrow> sdstrim s cset
   | SRange a b \<Rightarrow> sdsrange s a b
   | SLower \<Rightarrow> sdstolower s
   | SUpper \<Rightarrow> sdstoupper s
   | SMapChars f t \<Rightarrow> sdsmapchars s f t (min (length f) (length t))
   | SRepr bs \<Rightarrow> sdscatrepr junk s bs (length bs)
   | SDup \<Rightarrow> sdsdup junk s)"

definition bytes_step :: "sds_op \<Rightarrow> byte list \<Rightarrow> byte list" where
  "bytes_step op v = (case op of
     SCat bs \<Rightarrow> v @ bs
   | SCpy bs \<Rightarrow> bs
   | SGrowZero n \<Rightarrow> v @ replicate (n - length v) 0
   | SClear \<Rightarrow> []
   | SUpdateLen \<Rightarrow> takeWhile (\<lambda>c. c \<noteq> 0) v
   | SMakeRoom n \<Rightarrow> v
   | SRemoveFree \<Rightarrow> v
   | STrim cset \<Rightarrow> trim (strchr cset) v
   | SRange a b \<Rightarrow> range_of v a b
   | SLower \<Rightarrow> map tolower v
   | SUpper \<Rightarrow> map toupper v
   | SMapChars f t \<Rightarrow> map (map_char f t) v
   | SRepr bs \<Rightarrow> v @ repr bs
   | SDup \<Rightarrow> v)"

text \<open>Sizes stay below \<open>2^62\<close>: the string before and after each operation, and the room asked for.\<close>

definition op_small :: "sds_op \<Rightarrow> byte list \<Rightarrow> bool" where
  "op_small op v \<longleftrightarrow> length v < 2 ^ 61 \<and> length (bytes_step op v) < 2 ^ 61
     \<and> (case op of SMakeRoom n \<Rightarrow> n < 2 ^ 61 | SGrowZero n \<Rightarrow> n < 2 ^ 61 | _ \<Rightarrow> True)"

fun sds_run :: "(nat \<Rightarrow> byte) \<Rightarrow> sds_op list \<Rightarrow> sds \<Rightarrow> sds option" where
  "sds_run junk [] s = Some s"
| "sds_run junk (op # ops) s = do { s \<leftarrow> sds_step junk op s; sds_run junk ops s }"

fun bytes_run :: "sds_op list \<Rightarrow> byte list \<Rightarrow> byte list" where
  "bytes_run [] v = v"
| "bytes_run (op # ops) v = bytes_run ops (bytes_step op v)"

fun run_small :: "sds_op list \<Rightarrow> byte list \<Rightarrow> bool" where
  "run_small [] v = True"
| "run_small (op # ops) v \<longleftrightarrow> op_small op v \<and> run_small ops (bytes_step op v)"

lemma map_char_take: "map_char (take (min (length f) (length t)) f) (take (min (length f) (length t)) t) = map_char f t"
  by (induction f t arbitrary: rule: list_induct2') (auto simp: fun_eq_iff)

lemma sds_step_refines:
  assumes inv: "sds_inv s" and small: "op_small op (sds_val s)"
  shows "\<exists>s'. sds_step junk op s = Some s' \<and> sds_inv s' \<and> sds_val s' = bytes_step op (sds_val s)"
proof (cases op)
  case (SCat bs)
  with sdscatlen_ok [OF inv, of "length bs" bs junk] small show ?thesis
    by (simp add: sds_step_def bytes_step_def op_small_def inv)
next
  case (SCpy bs)
  with sdscpylen_ok [OF inv, of "length bs" bs junk] small show ?thesis
    by (simp add: sds_step_def bytes_step_def op_small_def inv)
next
  case (SGrowZero n)
  with sdsgrowzero_ok [OF inv, of n junk] small show ?thesis
    by (simp add: sds_step_def bytes_step_def op_small_def inv)
next
  case SClear
  with sdsclear_ok [OF inv] show ?thesis by (simp add: sds_step_def bytes_step_def)
next
  case SUpdateLen
  with sdsupdatelen_ok [OF inv] show ?thesis by (simp add: sds_step_def bytes_step_def)
next
  case (SMakeRoom n)
  with small inv have "s_len s + n < 2 ^ 62" by (simp add: op_small_def)
  from sdsMakeRoomFor_ok [OF inv this, of junk] SMakeRoom show ?thesis
    by (auto simp: sds_step_def bytes_step_def)
next
  case SRemoveFree
  with sdsRemoveFreeSpace_ok [OF inv, of junk] show ?thesis by (auto simp: sds_step_def bytes_step_def)
next
  case (STrim cset)
  with sdstrim_ok [OF inv] show ?thesis by (simp add: sds_step_def bytes_step_def)
next
  case (SRange a b)
  with sdsrange_ok [OF inv] show ?thesis by (simp add: sds_step_def bytes_step_def)
next
  case SLower
  with for_bytes_sds [OF inv, of tolower] show ?thesis
    by (auto simp: sds_step_def bytes_step_def sdstolower_def sdslen_def)
next
  case SUpper
  with for_bytes_sds [OF inv, of toupper] show ?thesis
    by (auto simp: sds_step_def bytes_step_def sdstoupper_def sdslen_def)
next
  case (SMapChars f t)
  with for_bytes_sds [OF inv, of "map_char f t"] show ?thesis
    by (auto simp: sds_step_def bytes_step_def sdsmapchars_def sdslen_def read_at_def map_char_take)
next
  case (SRepr bs)
  with sdscatrepr_ok [OF inv, of "length bs" bs junk] small show ?thesis
    by (simp add: sds_step_def bytes_step_def op_small_def inv)
next
  case SDup
  with sdsdup_ok [OF inv] small show ?thesis
    by (simp add: sds_step_def bytes_step_def op_small_def inv)
qed

lemma sds_run_refines:
  "sds_inv s \<Longrightarrow> run_small ops (sds_val s) \<Longrightarrow>
    \<exists>s'. sds_run junk ops s = Some s' \<and> sds_inv s' \<and> sds_val s' = bytes_run ops (sds_val s)"
proof (induction ops arbitrary: s)
  case (Cons op ops)
  from sds_step_refines [OF Cons.prems(1), of op junk] Cons.prems(2) obtain s1 where
    "sds_step junk op s = Some s1" "sds_inv s1" "sds_val s1 = bytes_step op (sds_val s)" by auto
  with Cons.IH [of s1] Cons.prems(2) show ?case by simp
qed simp

section \<open>Properties\<close>

text \<open>C4: starting from a new string, any sequence of appends, copies, trims, ranges, case changes,
  quotings, reallocations and duplications of sizes below \<open>2^61\<close> stays inside its buffers, passes every
  assertion of the code, keeps the header consistent (length, allocation, terminator and header
  type), and yields exactly the bytes the list functions give.\<close>

theorem sds_refines_bytes:
  assumes "length init < 2 ^ 61" "run_small ops init"
  shows "\<exists>s0 s. sdsnewlen junk (InitFrom init) (length init) = Some s0 \<and> sds_run junk ops s0 = Some s
    \<and> sds_inv s \<and> sds_val s = bytes_run ops init"
proof -
  from sdsnewlen_ok [of "length init" "InitFrom init" junk] assms(1) obtain s0 where
    s0: "sdsnewlen junk (InitFrom init) (length init) = Some s0" "sds_inv s0" "sds_val s0 = init" by auto
  with sds_run_refines [OF s0(2), of ops junk] assms(2) show ?thesis by auto
qed

theorem sds_refines_bytes_witness:
  "run_small [SCat (bytes_of ''  ab''), STrim [32, 0], SRange (-1) (-1), SGrowZero 2] (bytes_of '' x'')
   \<and> (\<exists>s0 s. sdsnewlen (\<lambda>_. 7) (InitFrom (bytes_of '' x'')) (length (bytes_of '' x'')) = Some s0
        \<and> sds_run (\<lambda>_. 7) [SCat (bytes_of ''  ab''), STrim [32, 0], SRange (-1) (-1), SGrowZero 2] s0 = Some s
        \<and> sds_inv s \<and> sds_val s = [98, 0])"
  using sds_refines_bytes [of "bytes_of '' x''"
      "[SCat (bytes_of ''  ab''), STrim [32, 0], SRange (-1) (-1), SGrowZero 2]" "\<lambda>_. 7"]
  by (simp add: op_small_def bytes_step_def trim_def strchr_def range_of_def)

text \<open>C14: reading back the quoted representation gives the string again: for every byte string \<open>x\<close>
  (with zero bytes, quotes, backslashes and control characters), \<^verbatim>\<open>sdssplitargs\<close> on the buffer that
  \<^verbatim>\<open>sdscatrepr\<close> produced returns exactly one argument, equal to \<open>x\<close>.\<close>

theorem sdssplitargs_of_repr:
  assumes "length x < 2 ^ 59"
  shows "\<exists>e r t. sdsempty junk = Some e \<and> sdscatrepr junk e x (length x) = Some r
    \<and> sdssplitargs junk' (s_buf r) = Some (Some [t]) \<and> sds_val t = x"
proof -
  have piece: "length (repr_piece c) \<le> 4" for c by (simp add: repr_piece_def)
  have "length (concat (map repr_piece x)) \<le> 4 * length x"
    by (induction x) (use piece in \<open>auto intro: add_mono\<close>)
  then have l: "length (repr x) < 2 ^ 62" using assms by (simp add: repr_def)
  obtain e where e: "sdsempty junk = Some e" "sds_inv e" "sds_val e = []" using sdsempty_ok by blast
  from sdscatrepr_ok [OF e(2), of "length x" x junk] e(3) l obtain r where
    r: "sdscatrepr junk e x (length x) = Some r" "sds_inv r" "sds_val r = repr x" by auto
  from splitargs_repr [of x junk' "drop (Suc (s_len r)) (s_buf r)"] assms sds_split [OF r(2)] r(3)
  show ?thesis using e r by auto
qed

theorem sdssplitargs_of_repr_witness:
  "\<exists>e r t. sdsempty (\<lambda>_. 1) = Some e \<and> sdscatrepr (\<lambda>_. 1) e [0, 34, 92, 10, 255, 65] (length [0, 34, 92, 10, 255, 65 :: byte]) = Some r
    \<and> sdssplitargs (\<lambda>_. 2) (s_buf r) = Some (Some [t]) \<and> sds_val t = [0, 34, 92, 10, 255, 65]"
  using sdssplitargs_of_repr [of "[0, 34, 92, 10, 255, 65]" "\<lambda>_. 1" "\<lambda>_. 2"] by simp



text \<open>C21: the two number printers agree: for every \<^verbatim>\<open>long long\<close>, \<^verbatim>\<open>sdsll2str\<close> (digits reversed in place)
  and \<^verbatim>\<open>ll2string\<close> (two digits at a time) store the same text, followed by a terminator, and return
  the same length.\<close>

theorem sdsll2str_eq_ll2string:
  assumes "LLONG_MIN \<le> z" "z \<le> LLONG_MAX" "length buf = SDS_LLSTR_SIZE"
  shows "sdsll2str buf z = ll2string buf SDS_LLSTR_SIZE z"
proof -
  have "length (dec_int z) \<le> 20" by (rule length_dec_int [OF assms(1,2)])
  then have "length (dec_int z) < length buf" using assms(3) by (simp add: SDS_LLSTR_SIZE_def)
  with sdsll2str_ok [OF assms(1,2) this] assms show ?thesis
    by (simp add: ll2string_spec)
qed

theorem sdsll2str_eq_ll2string_witness:
  "sdsll2str (replicate 21 7) (-42) = ll2string (replicate 21 7) SDS_LLSTR_SIZE (-42)"
  by (rule sdsll2str_eq_ll2string) (simp_all add: LLONG_MIN_def LLONG_MAX_def SDS_LLSTR_SIZE_def)

text \<open>C20: \<^verbatim>\<open>sdscatfmt\<close> appends the text of its format: with arguments that match the conversions, the
  result is the old value followed by the format with each conversion replaced by its argument
  in decimal or as a string, and the string is terminated.\<close>

theorem sdscatfmt_appends:
  assumes "sds_inv s" "fmt_text fmt ap = Some out" "length (sds_val s) + length out + 1 < 2 ^ 62"
  shows "\<exists>s'. sdscatfmt junk s fmt ap = Some s' \<and> sds_inv s' \<and> sds_val s' = sds_val s @ out"
  by (rule sdscatfmt_ok [OF assms])

theorem sdscatfmt_appends_witness:
  "\<exists>s s'. sds_inv s \<and> sds_val s = [] \<and> sdscatfmt (\<lambda>_. 9) s (bytes_of ''n=%i%%'' @ [0]) [ArgInt 7] = Some s'
    \<and> sds_val s' = bytes_of ''n=7%''"
proof -
  obtain e where e: "sdsempty (\<lambda>_. 9) = Some e" "sds_inv e" "sds_val e = []" using sdsempty_ok by blast
  have "fmt_text (bytes_of ''n=%i%%'' @ [0]) [ArgInt 7] = Some (bytes_of ''n=7%'')"
    by (simp add: dec_int_def dec_small LLONG_MIN_def LLONG_MAX_def)
  from sdscatfmt_appends [OF e(2) this, of "\<lambda>_. 9"] obtain s' where
    "sdscatfmt (\<lambda>_. 9) e (bytes_of ''n=%i%%'' @ [0]) [ArgInt 7] = Some s'" "sds_val s' = bytes_of ''n=7%''"
    using e(3) by auto
  with e(2,3) show ?thesis by blast
qed


end
