(* ===== verification/Glob.thy ===== *)
theory Glob
  imports Sds_Text
begin

text \<open>
  The glob matcher of \<^verbatim>\<open>util.c\<close> (\<^verbatim>\<open>KEYS\<close>, \<^verbatim>\<open>SCAN MATCH\<close>, \<^verbatim>\<open>PSUBSCRIBE\<close>, \<^verbatim>\<open>CONFIG GET\<close>). The
  pattern is a position in a buffer and a count, as in the code, so that a read behind the buffer
  is visible (\<open>None\<close>); the string is the list of the bytes still to match. The specification
  parses the pattern into items and says which strings they match.
\<close>

section \<open>The code\<close>

text \<open>The test of a range of a bracket expression; \<^verbatim>\<open>char\<close> is signed.\<close>

definition in_range :: "bool \<Rightarrow> byte \<Rightarrow> byte \<Rightarrow> byte \<Rightarrow> bool" where
  "in_range nocase start en c =
     (let (start, en) = (if sint start > sint en then (en, start) else (start, en));
          (start, en, c) = (if nocase then (tolower start, tolower en, tolower c) else (start, en, c))
      in sint c \<ge> sint start \<and> sint c \<le> sint en)"

text \<open>The loop over the members of a bracket expression; \<open>c\<close> is \<^verbatim>\<open>string[0]\<close>.\<close>

function class_loop ::
  "bool \<Rightarrow> byte \<Rightarrow> byte list \<Rightarrow> nat \<Rightarrow> int \<Rightarrow> bool \<Rightarrow> (bool \<times> nat \<times> int) option" where
  "class_loop nocase c buf p plen found =
     (if \<not> p < length buf then None
      else if buf ! p = ch CHR 0x5C \<and> plen \<ge> 2 then
        if \<not> p + 1 < length buf then None
        else class_loop nocase c buf (p + 2) (plen - 2) (if buf ! (p + 1) = c then True else found)
      else if buf ! p = ch CHR '']'' then Some (found, p, plen)
      else if plen = 0 then Some (found, p - 1, plen + 1)
      else if \<not> p + 1 < length buf then None
      else if buf ! (p + 1) = ch CHR ''-'' \<and> plen \<ge> 3 then
        if \<not> p + 2 < length buf then None
        else class_loop nocase c buf (p + 3) (plen - 3) (if in_range nocase (buf ! p) (buf ! (p + 2)) c then True else found)
      else class_loop nocase c buf (p + 1) (plen - 1)
             (if (if nocase then tolower (buf ! p) = tolower c else buf ! p = c) then True else found))"
  by pat_completeness auto
termination
  by (relation "measure (\<lambda>(nocase, c, buf, p, plen, found). length buf - p)") auto

declare class_loop.simps [simp del]

text \<open>
  The cases of the \<^verbatim>\<open>switch\<close> that consume one byte \<open>c\<close> of the string: \<open>Some None\<close> is
  \<^verbatim>\<open>return 0\<close>, otherwise the pattern position and count before the common \<^verbatim>\<open>pattern++\<close>.
\<close>

definition match_one ::
  "bool \<Rightarrow> byte list \<Rightarrow> nat \<Rightarrow> int \<Rightarrow> byte \<Rightarrow> (nat \<times> int) option option" where
  "match_one nocase buf p plen c =
     (if buf ! p = ch CHR ''?'' then Some (Some (p, plen))
      else if buf ! p = ch CHR ''['' then
        if \<not> p + 1 < length buf then None
        else
          let neg = (buf ! (p + 1) = ch CHR ''^'');
              (q, qlen) = (if neg then (p + 2, plen - 2) else (p + 1, plen - 1))
          in do {
            (found, q, qlen) \<leftarrow> class_loop nocase c buf q qlen False;
            Some (if (if neg then \<not> found else found) then Some (q, qlen) else None) }
      else
        let (p, plen) = (if buf ! p = ch CHR 0x5C \<and> plen \<ge> 2 then (p + 1, plen - 1) else (p, plen))
        in if \<not> p < length buf then None
        else if (if nocase then tolower (buf ! p) \<noteq> tolower c else buf ! p \<noteq> c) then Some None
        else Some (Some (p, plen)))"

function skip_stars :: "byte list \<Rightarrow> nat \<Rightarrow> int \<Rightarrow> (nat \<times> int) option" where
  "skip_stars buf p plen =
     (if \<not> p + 1 < length buf then None
      else if buf ! (p + 1) = ch CHR ''*'' then skip_stars buf (p + 1) (plen - 1)
      else Some (p, plen))"
  by pat_completeness auto
termination
  by (relation "measure (\<lambda>(buf, p, plen). length buf - p)") auto

function final_stars :: "byte list \<Rightarrow> nat \<Rightarrow> int \<Rightarrow> int option" where
  "final_stars buf p plen =
     (if \<not> p < length buf then None
      else if buf ! p = ch CHR ''*'' then final_stars buf (p + 1) (plen - 1)
      else Some plen)"
  by pat_completeness auto
termination
  by (relation "measure (\<lambda>(buf, p, plen). length buf - p)") auto

declare skip_stars.simps [simp del] final_stars.simps [simp del]

lemma class_loop_forward: "class_loop nocase c buf p plen found = Some (f, q, qlen) \<Longrightarrow> p \<le> q + 1"
proof (induction "length buf - p" arbitrary: p plen found rule: less_induct)
  case less
  have ih: "p \<le> q + 1" if "p < length buf" "class_loop nocase c buf (p + Suc k) pl fd = Some (f, q, qlen)" for k pl fd
    using less(1) [of "p + Suc k" pl fd] that by (simp add: diff_less_mono2)
  from less(2) ih [of 0] ih [of 1] ih [of 2] show ?case
    by (subst (asm) class_loop.simps) (auto simp: numeral_2_eq_2 numeral_3_eq_3 split: if_splits)
qed

lemma match_one_forward: "match_one nocase buf p plen c = Some (Some (q, qlen)) \<Longrightarrow> p \<le> q"
  by (auto simp: match_one_def Let_def bind_eq_Some_conv split: if_splits prod.splits dest!: class_loop_forward)

lemma skip_stars_forward: "skip_stars buf p plen = Some (q, qlen) \<Longrightarrow> p \<le> q"
  by (induction buf p plen rule: skip_stars.induct) (subst (asm) (2) skip_stars.simps, auto split: if_splits)

text \<open>
  The matcher and the loop of its \<^verbatim>\<open>'*'\<close> case, which calls it on every nonempty suffix of the
  string; \<open>star_loop\<close> has the position \<^verbatim>\<open>pattern+1\<close>.
\<close>

function stringmatchlen :: "bool \<Rightarrow> byte list \<Rightarrow> nat \<Rightarrow> int \<Rightarrow> byte list \<Rightarrow> bool option"
  and star_loop :: "bool \<Rightarrow> byte list \<Rightarrow> nat \<Rightarrow> int \<Rightarrow> byte list \<Rightarrow> bool option" where
  "stringmatchlen nocase buf p plen str =
     (if plen = 0 \<or> str = [] then Some (plen = 0 \<and> str = [])
      else if \<not> p < length buf then None
      else if buf ! p = ch CHR ''*'' then
        case skip_stars buf p plen of
          None \<Rightarrow> None
        | Some (p, plen) \<Rightarrow> if plen = 1 then Some True else star_loop nocase buf (p + 1) (plen - 1) str
      else
        case match_one nocase buf p plen (hd str) of
          None \<Rightarrow> None
        | Some None \<Rightarrow> Some False
        | Some (Some (p, plen)) \<Rightarrow>
            if tl str = [] then
              case final_stars buf (p + 1) (plen - 1) of None \<Rightarrow> None | Some plen \<Rightarrow> Some (plen = 0)
            else stringmatchlen nocase buf (p + 1) (plen - 1) (tl str))"
| "star_loop nocase buf p plen str =
     (if str = [] then Some False
      else
        case stringmatchlen nocase buf p plen str of
          None \<Rightarrow> None
        | Some True \<Rightarrow> Some True
        | Some False \<Rightarrow> star_loop nocase buf p plen (tl str))"
  by pat_completeness auto
termination
proof (relation "measures [\<lambda>x. case x of Inl (_, buf, p, _) \<Rightarrow> length buf - p | Inr (_, buf, p, _) \<Rightarrow> length buf - p,
    \<lambda>x. case x of Inl (_, _, _, _, str) \<Rightarrow> 2 * length str | Inr (_, _, _, _, str) \<Rightarrow> 2 * length str + 1]")
qed (auto dest!: match_one_forward skip_stars_forward simp: length_tl)

declare stringmatchlen.simps [simp del] star_loop.simps [simp del]

definition stringmatch :: "byte list \<Rightarrow> byte list \<Rightarrow> bool \<Rightarrow> bool option" where
  "stringmatch pattern str nocase = do {
     n \<leftarrow> strlen pattern;
     m \<leftarrow> strlen str;
     stringmatchlen nocase pattern 0 (int n) (take m str) }"

section \<open>The specification\<close>

text \<open>A member of a bracket expression and an item of a pattern.\<close>

datatype set_item = Exact byte | Range byte byte | Single byte

datatype glob_item = Star | AnyByte | SetOf bool "set_item list" | Literal byte

fun parse_set :: "byte list \<Rightarrow> set_item list \<times> byte list" where
  "parse_set [] = ([], [])"
| "parse_set (a # p) =
     (if a = ch CHR 0x5C \<and> p \<noteq> [] then apfst ((#) (Exact (hd p))) (parse_set (tl p))
      else if a = ch CHR '']'' then ([], p)
      else if 2 \<le> length p \<and> hd p = ch CHR ''-''
        then apfst ((#) (Range a (p ! 1))) (parse_set (drop 2 p))
      else apfst ((#) (Single a)) (parse_set p))"

lemma parse_set_shorter: "length (snd (parse_set p)) \<le> length p"
  by (induction p rule: parse_set.induct) auto

function parse_glob :: "byte list \<Rightarrow> glob_item list" where
  "parse_glob [] = []"
| "parse_glob (a # p) =
     (if a = ch CHR ''*'' then Star # parse_glob p
      else if a = ch CHR ''?'' then AnyByte # parse_glob p
      else if a = ch CHR ''['' then
        let neg = (p \<noteq> [] \<and> hd p = ch CHR ''^'');
            (items, rest) = parse_set (if neg then tl p else p)
        in SetOf neg items # parse_glob rest
      else if a = ch CHR 0x5C \<and> p \<noteq> [] then Literal (hd p) # parse_glob (tl p)
      else Literal a # parse_glob p)"
  by pat_completeness auto
termination
proof (relation "measure length", goal_cases)
  case (4 a p neg x items rest)
  then have "rest = snd (parse_set (if neg then tl p else p))" by (metis snd_conv)
  moreover have "length (snd (parse_set q)) < Suc (length p)" if "length q \<le> length p" for q
    using parse_set_shorter [of q] that by linarith
  ultimately show ?case by simp
qed simp_all

fun set_item_ok :: "bool \<Rightarrow> byte \<Rightarrow> set_item \<Rightarrow> bool" where
  "set_item_ok nocase c (Exact a) = (a = c)"
| "set_item_ok nocase c (Range a b) = in_range nocase a b c"
| "set_item_ok nocase c (Single a) = (if nocase then tolower a = tolower c else a = c)"

fun item_ok :: "bool \<Rightarrow> byte \<Rightarrow> glob_item \<Rightarrow> bool" where
  "item_ok nocase c Star = False"
| "item_ok nocase c AnyByte = True"
| "item_ok nocase c (SetOf neg items) = ((\<exists>i \<in> set items. set_item_ok nocase c i) \<noteq> neg)"
| "item_ok nocase c (Literal a) = (if nocase then tolower a = tolower c else a = c)"

text \<open>Every item takes one byte, except the star, which takes any number of them.\<close>

fun glob_match :: "bool \<Rightarrow> glob_item list \<Rightarrow> byte list \<Rightarrow> bool" where
  "glob_match nocase [] s = (s = [])"
| "glob_match nocase (Star # g) s = (\<exists>k \<le> length s. glob_match nocase g (drop k s))"
| "glob_match nocase (i # g) s = (s \<noteq> [] \<and> item_ok nocase (hd s) i \<and> glob_match nocase g (tl s))"

section \<open>The code meets the specification\<close>

text \<open>A position of the buffer with the pattern \<open>q\<close> still to read before the terminator.\<close>

definition at_pat :: "byte list \<Rightarrow> nat \<Rightarrow> byte list \<Rightarrow> bool" where
  "at_pat buf p q \<longleftrightarrow> drop p buf = q @ [0]"

lemma at_pat_read:
  assumes "at_pat buf p q" "i \<le> length q"
  shows "p + i < length buf" "buf ! (p + i) = (q @ [0]) ! i"
proof -
  have "length (drop p buf) = length q + 1" using assms(1) by (simp only: at_pat_def) simp
  with assms(2) show *: "p + i < length buf" by simp
  have "buf ! (p + i) = drop p buf ! i" using * by simp
  with assms(1) show "buf ! (p + i) = (q @ [0]) ! i" by (simp add: at_pat_def)
qed

lemma at_pat_0:
  assumes "at_pat buf p q"
  shows "p < length buf" "buf ! p = (q @ [0]) ! 0"
  using at_pat_read [OF assms, of 0] by simp_all

lemma at_pat_1:
  assumes "at_pat buf p q" "q \<noteq> []"
  shows "Suc p < length buf" "buf ! Suc p = (q @ [0]) ! 1"
  using at_pat_read [OF assms(1), of 1] assms(2) by (simp_all add: Suc_le_eq)

lemma at_pat_drop: "at_pat buf p q \<Longrightarrow> i \<le> length q \<Longrightarrow> at_pat buf (p + i) (drop i q)"
  by (simp add: at_pat_def add.commute flip: drop_drop)

lemma at_pat_Suc: "at_pat buf p (a # q) \<Longrightarrow> at_pat buf (Suc p) q"
  using at_pat_drop [of buf p "a # q" 1] by simp

text \<open>The four kinds of rounds of the bracket loop.\<close>

lemma class_loop_escape:
  assumes "at_pat buf p (92 # b # r)"
  shows "class_loop nocase c buf p (int (length r) + 2) found
    = class_loop nocase c buf (p + 2) (int (length r)) (found \<or> b = c)"
  using at_pat_0 [OF assms] at_pat_1 [OF assms] by (subst class_loop.simps) auto

lemma class_loop_close:
  assumes "at_pat buf p (93 # r)"
  shows "class_loop nocase c buf p n found = Some (found, p, n)"
  using at_pat_0 [OF assms] by (subst class_loop.simps) simp

lemma class_loop_range:
  assumes "at_pat buf p (a # 45 # b # r)" "a \<noteq> 93" "a \<noteq> 92"
  shows "class_loop nocase c buf p (int (length r) + 3) found
    = class_loop nocase c buf (p + 3) (int (length r)) (found \<or> in_range nocase a b c)"
  using at_pat_0 [OF assms(1)] at_pat_1 [OF assms(1)] at_pat_read [OF assms(1), of 2] assms(2,3)
  by (subst class_loop.simps) auto

lemma class_loop_single:
  assumes "at_pat buf p (a # r)" "a \<noteq> 93" "a \<noteq> 92 \<or> r = []" "\<not> (2 \<le> length r \<and> hd r = 45)"
  shows "class_loop nocase c buf p (int (length r) + 1) found
    = class_loop nocase c buf (Suc p) (int (length r)) (found \<or> (if nocase then tolower a = tolower c else a = c))"
proof -
  have "\<not> (a = 92 \<and> int (length r) + 1 \<ge> 2)" using assms(3) by auto
  moreover have "\<not> ((r @ [0]) ! 0 = 45 \<and> int (length r) + 1 \<ge> 3)" using assms(4) by (cases r) auto
  ultimately show ?thesis
    using at_pat_0 [OF assms(1)] at_pat_1 [OF assms(1)] assms(2)
    by (subst class_loop.simps) (auto simp: disj_commute)
qed

text \<open>The bracket loop reads the members that \<open>parse_set\<close> reads, and stops before what is left.\<close>

lemma class_loop_spec:
  assumes "at_pat buf p q" "0 < p"
  shows "\<exists>r rlen. class_loop nocase c buf p (int (length q)) found
      = Some (found \<or> (\<exists>i \<in> set (fst (parse_set q)). set_item_ok nocase c i), r, rlen)
    \<and> at_pat buf (Suc r) (snd (parse_set q)) \<and> rlen = int (length (snd (parse_set q))) + 1"
  using assms
proof (induction q arbitrary: p found rule: parse_set.induct)
  case 1
  then show ?case using at_pat_0 [OF 1(1)] by (subst class_loop.simps) auto
next
  case (2 a q)
  consider (esc) b r where "a = 92" "q = b # r" | (stop) "a = 93" | (range) b r where "a \<noteq> 93" "a \<noteq> 92" "q = 45 # b # r"
    | (one) "a \<noteq> 93" "a \<noteq> 92 \<or> q = []" "\<not> (2 \<le> length q \<and> hd q = 45)"
    by (cases q; cases "tl q") auto
  then show ?case
  proof cases
    case (esc b r)
    with 2(4) have "at_pat buf (p + 2) r" using at_pat_drop [of buf p "a # q" 2] by simp
    with 2(1) [of "p + 2" "found \<or> b = c"] esc show ?thesis
      using class_loop_escape [of buf p b r nocase c found] 2(4) by (auto simp: disj_assoc add.commute)
  next
    case stop
    then show ?thesis using class_loop_close [of buf p q] at_pat_Suc [OF 2(4)] 2(4) by auto
  next
    case (range b r)
    with 2(4) have "at_pat buf (p + 3) r" using at_pat_drop [of buf p "a # q" 3] by simp
    with 2(2) [of "p + 3" "found \<or> in_range nocase a b c"] range show ?thesis
      using class_loop_range [of buf p a b r nocase c found] 2(4) by (auto simp: disj_assoc add.commute)
  next
    case one
    with 2(3) [of "Suc p" "found \<or> (if nocase then tolower a = tolower c else a = c)"] at_pat_Suc [OF 2(4)]
    show ?thesis
      using class_loop_single [of buf p a q nocase c found] 2(4) by (auto simp: disj_assoc add.commute)
  qed
qed

lemma skip_stars_spec:
  assumes "at_pat buf p (42 # q)"
  shows "\<exists>r. skip_stars buf p (int (length q) + 1) = Some (r, int (length (dropWhile (\<lambda>a. a = 42) q)) + 1)
    \<and> at_pat buf (Suc r) (dropWhile (\<lambda>a. a = 42) q)"
  using assms
proof (induction q arbitrary: p)
  case Nil
  then show ?case using at_pat_1 [OF Nil] at_pat_Suc [OF Nil] by (subst skip_stars.simps) auto
next
  case (Cons a q)
  note a1 = at_pat_1 [OF Cons.prems] and s1 = at_pat_Suc [OF Cons.prems]
  show ?case
  proof (cases "a = 42")
    case True
    with s1 Cons.IH [of "Suc p"] a1 show ?thesis by (subst skip_stars.simps) (auto simp: add.commute)
  next
    case False
    with s1 a1 show ?thesis by (subst skip_stars.simps) auto
  qed
qed

lemma final_stars_spec:
  assumes "at_pat buf p q"
  shows "final_stars buf p (int (length q)) = Some (int (length (dropWhile (\<lambda>a. a = 42) q)))"
  using assms
proof (induction q arbitrary: p)
  case Nil
  then show ?case using at_pat_0 [OF Nil] by (subst final_stars.simps) simp
next
  case (Cons a q)
  with at_pat_0 [OF Cons.prems] at_pat_Suc [OF Cons.prems] show ?case
    by (subst final_stars.simps) (auto simp: add.commute)
qed

lemma glob_match_Star_Star:
  "glob_match nocase (Star # Star # g) s = glob_match nocase (Star # g) s" (is "?l = ?r")
proof
  assume ?l
  then obtain j k where "j \<le> length s" "k \<le> length s - j" "glob_match nocase g (drop (j + k) s)"
    by (auto simp: add.commute)
  then show ?r by (auto intro!: exI [of _ "j + k"])
next
  assume ?r
  then show ?l by (force intro: exI [of _ 0])
qed

lemma glob_match_stars:
  "glob_match nocase (Star # parse_glob q) s = glob_match nocase (Star # parse_glob (dropWhile (\<lambda>a. a = 42) q)) s"
proof (induction q)
  case (Cons a q)
  show ?case
  proof (cases "a = 42")
    case True
    then show ?thesis using Cons glob_match_Star_Star [of nocase "parse_glob q" s]
      by (simp del: glob_match.simps)
  qed auto
qed simp

text \<open>An item other than the star: the code takes it from the pattern and tests it.\<close>

lemma match_one_spec:
  assumes "at_pat buf p (a # q)" "a \<noteq> 42"
  shows "\<exists>i rest. parse_glob (a # q) = i # parse_glob rest \<and> i \<noteq> Star \<and> length rest \<le> length q
    \<and> (if item_ok nocase c i
       then \<exists>r. match_one nocase buf p (int (length q) + 1) c = Some (Some (r, int (length rest) + 1)) \<and> at_pat buf (Suc r) rest
       else match_one nocase buf p (int (length q) + 1) c = Some None)"
proof -
  note a0 = at_pat_0 [OF assms(1)] and a1 = at_pat_1 [OF assms(1)] and s1 = at_pat_Suc [OF assms(1)]
  consider (any) "a = 63" | (set) "a = 91" | (esc) b r where "a = 92" "q = b # r"
    | (lit) "a \<noteq> 63" "a \<noteq> 91" "a \<noteq> 92 \<or> q = []" by (cases q) auto
  then show ?thesis
  proof cases
    case any
    then show ?thesis using a0 s1 by (intro exI [of _ AnyByte] exI [of _ q]) (auto simp: match_one_def)
  next
    case set
    define neg where "neg = (q \<noteq> [] \<and> hd q = 94)"
    define body where "body = (if neg then tl q else q)"
    define s where "s = (if neg then p + 2 else p + 1)"
    have n: "neg \<longleftrightarrow> buf ! (p + 1) = 94" using a1 by (cases q) (auto simp: neg_def)
    have s: "at_pat buf s body" "0 < s"
      using s1 at_pat_Suc [of buf "Suc p" "hd q" "tl q"] by (cases q; auto simp: s_def body_def neg_def)+
    have l: "int (length body) = (if neg then int (length q) + 1 - 2 else int (length q) + 1 - 1)"
      by (auto simp: body_def neg_def Suc_le_eq of_nat_diff)
    from class_loop_spec [OF s, of nocase c False] obtain r where
      r: "class_loop nocase c buf s (int (length body)) False
          = Some (\<exists>i \<in> set (fst (parse_set body)). set_item_ok nocase c i, r, int (length (snd (parse_set body))) + 1)"
        "at_pat buf (Suc r) (snd (parse_set body))" by auto
    have "match_one nocase buf p (int (length q) + 1) c
        = Some (if item_ok nocase c (SetOf neg (fst (parse_set body))) then Some (r, int (length (snd (parse_set body))) + 1) else None)"
      using a0 a1 set r(1) l n by (auto simp: match_one_def s_def Let_def)
    moreover have "parse_glob (a # q) = SetOf neg (fst (parse_set body)) # parse_glob (snd (parse_set body))"
      using set by (simp add: neg_def body_def Let_def split: prod.splits)
    moreover have "length (snd (parse_set body)) \<le> length q"
      using parse_set_shorter [of body] by (auto simp: body_def intro: order_trans)
    ultimately show ?thesis using r(2) by auto
  next
    case (esc b r)
    then have "at_pat buf (Suc (Suc p)) r" using at_pat_Suc [of buf "Suc p" b r] s1 by simp
    with esc a0 a1 show ?thesis
      by (intro exI [of _ "Literal b"] exI [of _ r]) (auto simp: match_one_def)
  next
    case lit
    with assms(2) have "parse_glob (a # q) = Literal a # parse_glob q" by auto
    with lit a0 s1 show ?thesis
      by (intro exI [of _ "Literal a"] exI [of _ q]) (auto simp: match_one_def)
  qed
qed

lemma glob_match_item:
  "i \<noteq> Star \<Longrightarrow> glob_match nocase (i # g) s \<longleftrightarrow> s \<noteq> [] \<and> item_ok nocase (hd s) i \<and> glob_match nocase g (tl s)"
  by (cases i) simp_all

lemma parse_glob_no_star:
  "q \<noteq> [] \<Longrightarrow> hd q \<noteq> 42 \<Longrightarrow> \<not> glob_match nocase (parse_glob q) []"
  by (cases q) (auto simp: Let_def split: prod.splits)

lemma glob_match_empty: "glob_match nocase (parse_glob q) [] \<longleftrightarrow> dropWhile (\<lambda>a. a = 42) q = []"
proof (induction q)
  case (Cons a q)
  then show ?case using parse_glob_no_star [of "a # q" nocase] by (cases "a = 42") auto
qed simp

lemma stringmatchlen_spec:
  assumes "at_pat buf p q" "str \<noteq> []"
  shows "stringmatchlen nocase buf p (int (length q)) str = Some (glob_match nocase (parse_glob q) str)"
  using assms
proof (induction "length q" arbitrary: q p str rule: less_induct)
  case less
  show ?case
  proof (cases q)
    case Nil
    then show ?thesis using less(3) by (subst stringmatchlen.simps) simp
  next
    case (Cons a q')
    note a0 = at_pat_0 [OF less(2)]
    show ?thesis
    proof (cases "a = 42")
      case star: True
      let ?t = "dropWhile (\<lambda>a. a = 42) q'"
      from skip_stars_spec [of buf p q'] less(2) Cons star obtain r where
        r: "skip_stars buf p (int (length q)) = Some (r, int (length ?t) + 1)" "at_pat buf (Suc r) ?t"
        by (auto simp: add.commute)
      have t: "length ?t < length q" using length_dropWhile_le [of _ q'] Cons by (simp add: le_imp_less_Suc)
      have loop: "star_loop nocase buf (Suc r) (int (length ?t)) s
          = Some (\<exists>k < length s. glob_match nocase (parse_glob ?t) (drop k s))" for s
      proof (induction s)
        case (Cons c s)
        show ?case
          using Cons less(1) [OF t r(2), of "c # s"] by (subst star_loop.simps) (auto simp: Ex_less_Suc2 split: bool.split)
      qed (subst star_loop.simps, simp)
      have "glob_match nocase (parse_glob q) str = glob_match nocase (Star # parse_glob ?t) str"
        using Cons star glob_match_stars [of nocase q' str] by (simp del: glob_match.simps)
      also have "\<dots> = (?t = [] \<or> (\<exists>k < length str. glob_match nocase (parse_glob ?t) (drop k str)))"
        using glob_match_empty [of nocase ?t] by (auto simp: le_less dropWhile_idem)
      finally show ?thesis
        using a0 Cons star r(1) loop [of str] less(3) by (subst stringmatchlen.simps) auto
    next
      case False
      have lq: "int (length q) = int (length q') + 1" using Cons by simp
      from match_one_spec [of buf p a q' nocase "hd str"] less(2) Cons False obtain i rest where
        i: "parse_glob q = i # parse_glob rest" "i \<noteq> Star" "length rest < length q"
          "if item_ok nocase (hd str) i
           then \<exists>r. match_one nocase buf p (int (length q)) (hd str) = Some (Some (r, int (length rest) + 1)) \<and> at_pat buf (Suc r) rest
           else match_one nocase buf p (int (length q)) (hd str) = Some None"
        unfolding lq by (metis length_Cons less_Suc_eq_le)
      show ?thesis
      proof (cases "item_ok nocase (hd str) i")
        case True
        with i(4) obtain r where r: "match_one nocase buf p (int (length q)) (hd str) = Some (Some (r, int (length rest) + 1))"
          "at_pat buf (Suc r) rest" by auto
        with less(1) [OF i(3) r(2), of "tl str"] a0 Cons False True less(3) i(1,2) show ?thesis
          using final_stars_spec [OF r(2)] glob_match_empty [of nocase rest]
          by (subst stringmatchlen.simps) (simp add: glob_match_item del: parse_glob.simps)
      next
        case False
        with i(1,2,4) a0 Cons \<open>a \<noteq> 42\<close> less(3) show ?thesis
          by (subst stringmatchlen.simps) (simp add: glob_match_item del: parse_glob.simps)
      qed
    qed
  qed
qed

text \<open>C11: on a terminated pattern the glob matcher never reads outside the pattern, always ends, and for every
  nonempty string its answer is that of the declarative glob semantics, with escapes, negated and
  unterminated bracket expressions, ranges and case folding. The empty string is matched by the
  empty pattern only, in particular not by \<^verbatim>\<open>*\<close>.\<close>

theorem stringmatchlen_meets_glob:
  "stringmatchlen nocase (pat @ [0]) 0 (int (length pat)) str
     = Some (if str = [] then pat = [] else glob_match nocase (parse_glob pat) str)"
proof (cases "str = []")
  case True
  then show ?thesis by (subst stringmatchlen.simps) simp
next
  case False
  then show ?thesis using stringmatchlen_spec [of "pat @ [0]" 0 pat str nocase] by (simp add: at_pat_def)
qed

end
