(* ===== verification/Client_Reply.thy ===== *)
theory Client_Reply
  imports Strobj Sds_Text
begin

text \<open>
  The output side of a client, \<^verbatim>\<open>networking.c\<close>: a static buffer followed by a list of reply
  blocks, filled by the \<^verbatim>\<open>addReply\<close> functions and drained by \<^verbatim>\<open>writeToClient\<close>. A node of the list
  has an identity, because \<^verbatim>\<open>addDeferredMultiBulkLength\<close> hands out a pointer to it. \<open>None\<close> as a
  result is an access outside a buffer, a null pointer or a failed assertion.
\<close>

section \<open>The client\<close>

datatype client_flag =
    CLIENT_SLAVE | CLIENT_MASTER | CLIENT_MONITOR | CLIENT_MULTI | CLIENT_BLOCKED | CLIENT_DIRTY_CAS
  | CLIENT_CLOSE_AFTER_REPLY | CLIENT_UNBLOCKED | CLIENT_LUA | CLIENT_ASKING | CLIENT_CLOSE_ASAP
  | CLIENT_UNIX_SOCKET | CLIENT_DIRTY_EXEC | CLIENT_MASTER_FORCE_REPLY | CLIENT_FORCE_AOF | CLIENT_FORCE_REPL
  | CLIENT_PRE_PSYNC | CLIENT_READONLY | CLIENT_PUBSUB | CLIENT_PREVENT_AOF_PROP | CLIENT_PREVENT_REPL_PROP
  | CLIENT_PENDING_WRITE | CLIENT_REPLY_OFF | CLIENT_REPLY_SKIP_NEXT | CLIENT_REPLY_SKIP | CLIENT_LUA_DEBUG
  | CLIENT_LUA_DEBUG_SYNC | CLIENT_MODULE | CLIENT_PROTECTED

datatype replstate =
  REPL_STATE_NONE | SLAVE_STATE_WAIT_BGSAVE_START | SLAVE_STATE_WAIT_BGSAVE_END | SLAVE_STATE_SEND_BULK | SLAVE_STATE_ONLINE

record clientReplyBlock =
  blk_size :: nat
  blk_used :: nat
  blk_buf :: "byte list"

text \<open>
  The node identities are numbered in the order of allocation. \<^verbatim>\<open>CLIENT_PENDING_WRITE\<close> stands for
  being in \<^verbatim>\<open>server.clients_pending_write\<close>, \<^verbatim>\<open>CLIENT_CLOSE_ASAP\<close> for being in
  \<^verbatim>\<open>server.clients_to_close\<close>: each list changes together with its flag.
\<close>

record client =
  c_fd :: int
  c_flags :: "client_flag set"
  c_replstate :: replstate
  c_put_online_on_ack :: bool
  c_buf :: "byte list"
  c_bufpos :: nat
  c_reply :: "(nat \<times> clientReplyBlock option) list"
  c_next_node :: nat
  c_reply_bytes :: nat
  c_sentlen :: nat
  c_soft_limit_time :: int
  c_lastinteraction :: int
  c_write_handler :: bool

datatype client_type = CLIENT_TYPE_NORMAL | CLIENT_TYPE_SLAVE | CLIENT_TYPE_PUBSUB | CLIENT_TYPE_MASTER

record obuf_limit =
  hard_limit_bytes :: nat
  soft_limit_bytes :: nat
  soft_limit_seconds :: int

text \<open>
  What the functions read of the server and the allocator: \<open>slack n\<close> is the internal
  fragmentation of an allocation of \<open>n\<close> bytes (\<^verbatim>\<open>zmalloc_usable\<close> minus the bytes asked for).
\<close>

record reply_env =
  slack :: "nat \<Rightarrow> nat"
  obuf_limits :: "client_type \<Rightarrow> obuf_limit"
  unixtime :: int

definition PROTO_REPLY_CHUNK_BYTES :: nat where "PROTO_REPLY_CHUNK_BYTES = 16384"
definition OBJ_SHARED_BULKHDR_LEN :: int where "OBJ_SHARED_BULKHDR_LEN = 32"
definition sizeof_listNode :: nat where "sizeof_listNode = 24"
definition sizeof_clientReplyBlock :: nat where "sizeof_clientReplyBlock = 16"

definition setflag :: "client_flag \<Rightarrow> ('a client_scheme) \<Rightarrow> 'a client_scheme" where
  "setflag f c = c\<lparr>c_flags := insert f (c_flags c)\<rparr>"

definition clrflag :: "client_flag \<Rightarrow> ('a client_scheme) \<Rightarrow> 'a client_scheme" where
  "clrflag f c = c\<lparr>c_flags := c_flags c - {f}\<rparr>"

definition getClientType :: "'a client_scheme \<Rightarrow> client_type" where
  "getClientType c =
     (if CLIENT_MASTER \<in> c_flags c then CLIENT_TYPE_MASTER
      else if CLIENT_SLAVE \<in> c_flags c \<and> CLIENT_MONITOR \<notin> c_flags c then CLIENT_TYPE_SLAVE
      else if CLIENT_PUBSUB \<in> c_flags c then CLIENT_TYPE_PUBSUB
      else CLIENT_TYPE_NORMAL)"

text \<open>A new client; \<open>buf0\<close> is the content of the buffer before it is written. The fields of other
  components are not part of this record.\<close>

definition createClient :: "byte list \<Rightarrow> int \<Rightarrow> int \<Rightarrow> client" where
  "createClient buf0 now fd =
     \<lparr>c_fd = fd, c_flags = {}, c_replstate = REPL_STATE_NONE, c_put_online_on_ack = False, c_buf = buf0, c_bufpos = 0,
      c_reply = [], c_next_node = 0, c_reply_bytes = 0, c_sentlen = 0, c_soft_limit_time = 0,
      c_lastinteraction = now, c_write_handler = False\<rparr>"

section \<open>Limits and write handlers\<close>

definition getClientOutputBufferMemoryUsage :: "'a client_scheme \<Rightarrow> nat" where
  "getClientOutputBufferMemoryUsage c =
     c_reply_bytes c + (sizeof_listNode + sizeof_clientReplyBlock) * length (c_reply c)"

definition checkClientOutputBufferLimits :: "reply_env \<Rightarrow> 'a client_scheme \<Rightarrow> bool \<times> 'a client_scheme" where
  "checkClientOutputBufferLimits env c =
     (let used_mem = getClientOutputBufferMemoryUsage c;
          cls = getClientType c;
          cls = (if cls = CLIENT_TYPE_MASTER then CLIENT_TYPE_NORMAL else cls);
          lim = obuf_limits env cls;
          hard = (hard_limit_bytes lim \<noteq> 0 \<and> used_mem \<ge> hard_limit_bytes lim);
          soft = (soft_limit_bytes lim \<noteq> 0 \<and> used_mem \<ge> soft_limit_bytes lim)
      in if soft then
           if c_soft_limit_time c = 0 then (hard, c\<lparr>c_soft_limit_time := unixtime env\<rparr>)
           else (unixtime env - c_soft_limit_time c > soft_limit_seconds lim \<or> hard, c)
         else (hard, c\<lparr>c_soft_limit_time := 0\<rparr>))"

definition freeClientAsync :: "'a client_scheme \<Rightarrow> 'a client_scheme" where
  "freeClientAsync c =
     (if CLIENT_CLOSE_ASAP \<in> c_flags c \<or> CLIENT_LUA \<in> c_flags c then c else setflag CLIENT_CLOSE_ASAP c)"

definition asyncCloseClientOnOutputBufferLimitReached :: "reply_env \<Rightarrow> 'a client_scheme \<Rightarrow> 'a client_scheme option" where
  "asyncCloseClientOnOutputBufferLimitReached env c =
     (if c_fd c = - 1 then Some c
      else if \<not> c_reply_bytes c < 2 ^ 64 - 1 - 1024 * 64 then None
      else if c_reply_bytes c = 0 \<or> CLIENT_CLOSE_ASAP \<in> c_flags c then Some c
      else let (reached, c) = checkClientOutputBufferLimits env c
           in Some (if reached then freeClientAsync c else c))"

definition clientHasPendingReplies :: "'a client_scheme \<Rightarrow> bool" where
  "clientHasPendingReplies c \<longleftrightarrow> c_bufpos c \<noteq> 0 \<or> length (c_reply c) \<noteq> 0"

definition clientInstallWriteHandler :: "'a client_scheme \<Rightarrow> 'a client_scheme" where
  "clientInstallWriteHandler c =
     (if CLIENT_PENDING_WRITE \<notin> c_flags c
         \<and> (c_replstate c = REPL_STATE_NONE \<or> c_replstate c = SLAVE_STATE_ONLINE \<and> \<not> c_put_online_on_ack c)
      then setflag CLIENT_PENDING_WRITE c else c)"

definition prepareClientToWrite :: "'a client_scheme \<Rightarrow> bool \<times> 'a client_scheme" where
  "prepareClientToWrite c =
     (if CLIENT_LUA \<in> c_flags c \<or> CLIENT_MODULE \<in> c_flags c then (True, c)
      else if CLIENT_REPLY_OFF \<in> c_flags c \<or> CLIENT_REPLY_SKIP \<in> c_flags c then (False, c)
      else if CLIENT_MASTER \<in> c_flags c \<and> CLIENT_MASTER_FORCE_REPLY \<notin> c_flags c then (False, c)
      else if c_fd c \<le> 0 then (False, c)
      else (True, if \<not> clientHasPendingReplies c then clientInstallWriteHandler c else c))"

section \<open>Adding bytes\<close>

definition addReplyToBuffer :: "'a client_scheme \<Rightarrow> byte list \<Rightarrow> (bool \<times> 'a client_scheme) option" where
  "addReplyToBuffer c s =
     (let available = nat ((int PROTO_REPLY_CHUNK_BYTES - int (c_bufpos c)) mod 2 ^ 64) in
      if CLIENT_CLOSE_AFTER_REPLY \<in> c_flags c then Some (True, c)
      else if length (c_reply c) > 0 then Some (False, c)
      else if length s > available then Some (False, c)
      else do {
        buf \<leftarrow> write_at (c_buf c) (c_bufpos c) s;
        Some (True, c\<lparr>c_buf := buf, c_bufpos := c_bufpos c + length s\<rparr>) })"

text \<open>A new block: \<^verbatim>\<open>zmalloc\<close> of \<open>n\<close> bytes behind the header, all of the allocation usable.\<close>

definition new_block :: "reply_env \<Rightarrow> nat \<Rightarrow> byte list \<Rightarrow> clientReplyBlock option" where
  "new_block env n s =
     (let size = n + slack env (n + sizeof_clientReplyBlock) in do {
        buf \<leftarrow> write_at (replicate size 0) 0 s;
        Some \<lparr>blk_size = size, blk_used = length s, blk_buf = buf\<rparr> })"

definition add_node :: "clientReplyBlock option \<Rightarrow> 'a client_scheme \<Rightarrow> 'a client_scheme" where
  "add_node v c = c\<lparr>c_reply := c_reply c @ [(c_next_node c, v)], c_next_node := c_next_node c + 1\<rparr>"

definition append_to_tail :: "'a client_scheme \<Rightarrow> byte list \<Rightarrow> ('a client_scheme \<times> byte list) option" where
  "append_to_tail c s =
     (if c_reply c = [] then Some (c, s)
      else case last (c_reply c) of
        (i, None) \<Rightarrow> Some (c, s)
      | (i, Some tail) \<Rightarrow>
          let avail = nat ((int (blk_size tail) - int (blk_used tail)) mod 2 ^ 64);
              copy = (if avail \<ge> length s then length s else avail)
          in do {
            buf \<leftarrow> write_at (blk_buf tail) (blk_used tail) (take copy s);
            Some (c\<lparr>c_reply := butlast (c_reply c) @ [(i, Some (tail\<lparr>blk_buf := buf, blk_used := blk_used tail + copy\<rparr>))]\<rparr>,
                  drop copy s) })"

definition addReplyStringToList :: "reply_env \<Rightarrow> 'a client_scheme \<Rightarrow> byte list \<Rightarrow> 'a client_scheme option" where
  "addReplyStringToList env c s =
     (if CLIENT_CLOSE_AFTER_REPLY \<in> c_flags c then Some c
      else do {
        (c, s) \<leftarrow> append_to_tail c s;
        c \<leftarrow> (if s \<noteq> [] then do {
                let size = (if length s < PROTO_REPLY_CHUNK_BYTES then PROTO_REPLY_CHUNK_BYTES else length s);
                tail \<leftarrow> new_block env size s;
                Some ((add_node (Some tail) c)\<lparr>c_reply_bytes := (c_reply_bytes c + blk_size tail) mod 2 ^ 64\<rparr>) }
              else Some c);
        asyncCloseClientOnOutputBufferLimitReached env c })"

definition addReplyString :: "reply_env \<Rightarrow> 'a client_scheme \<Rightarrow> byte list \<Rightarrow> 'a client_scheme option" where
  "addReplyString env c s =
     (let (ok, c) = prepareClientToWrite c in
      if \<not> ok then Some c
      else do {
        (done, c) \<leftarrow> addReplyToBuffer c s;
        (if done then Some c else addReplyStringToList env c s) })"

definition addReply :: "reply_env \<Rightarrow> 'a client_scheme \<Rightarrow> strobj \<Rightarrow> 'a client_scheme option" where
  "addReply env c obj =
     (let (ok, c) = prepareClientToWrite c in
      if \<not> ok then Some c
      else do {
        s \<leftarrow> (case so_ptr obj of
               RawPtr s _ \<Rightarrow> Some s
             | EmbPtr s \<Rightarrow> Some s
             | IntPtr v \<Rightarrow> do { (len, buf) \<leftarrow> ll2buf 32 v; Some (take len buf) });
        (done, c) \<leftarrow> addReplyToBuffer c s;
        (if done then Some c else addReplyStringToList env c s) })"

definition addReplySds :: "reply_env \<Rightarrow> 'a client_scheme \<Rightarrow> byte list \<Rightarrow> 'a client_scheme option" where
  "addReplySds env c s =
     (let (ok, c) = prepareClientToWrite c in
      if \<not> ok then Some c
      else do {
        (done, c) \<leftarrow> addReplyToBuffer c s;
        (if done then Some c else addReplyStringToList env c s) })"

section \<open>Protocol elements\<close>

abbreviation crlf :: "byte list" where "crlf \<equiv> [13, 10]"

definition addReplyErrorLength :: "reply_env \<Rightarrow> 'a client_scheme \<Rightarrow> byte list \<Rightarrow> 'a client_scheme option" where
  "addReplyErrorLength env c s = do {
     c \<leftarrow> (if s = [] \<or> hd s \<noteq> ch CHR ''-'' then addReplyString env c (bytes_of ''-ERR '') else Some c);
     c \<leftarrow> addReplyString env c s;
     addReplyString env c crlf }"

definition addReplyError :: "reply_env \<Rightarrow> 'a client_scheme \<Rightarrow> byte list \<Rightarrow> 'a client_scheme option" where
  "addReplyError env c err = do { n \<leftarrow> strlen err; addReplyErrorLength env c (take n err) }"

text \<open>The variants with a format take the formatted text.\<close>

definition addReplyErrorFormat :: "reply_env \<Rightarrow> 'a client_scheme \<Rightarrow> byte list \<Rightarrow> 'a client_scheme option" where
  "addReplyErrorFormat env c s =
     addReplyErrorLength env c (map (\<lambda>b. if b = 13 \<or> b = 10 then ch CHR '' '' else b) s)"

definition addReplyStatusLength :: "reply_env \<Rightarrow> 'a client_scheme \<Rightarrow> byte list \<Rightarrow> 'a client_scheme option" where
  "addReplyStatusLength env c s = do {
     c \<leftarrow> addReplyString env c [ch CHR ''+''];
     c \<leftarrow> addReplyString env c s;
     addReplyString env c crlf }"

definition addReplyStatus :: "reply_env \<Rightarrow> 'a client_scheme \<Rightarrow> byte list \<Rightarrow> 'a client_scheme option" where
  "addReplyStatus env c status = do { n \<leftarrow> strlen status; addReplyStatusLength env c (take n status) }"

definition addReplyStatusFormat :: "reply_env \<Rightarrow> 'a client_scheme \<Rightarrow> byte list \<Rightarrow> 'a client_scheme option" where
  "addReplyStatusFormat env c s = addReplyStatusLength env c s"

text \<open>The shared objects \<^verbatim>\<open>shared.mbulkhdr[j]\<close>, \<^verbatim>\<open>shared.bulkhdr[j]\<close> and the constants.\<close>

definition shared_mbulkhdr :: "int \<Rightarrow> strobj option" where
  "shared_mbulkhdr j = (if 0 \<le> j \<and> j < OBJ_SHARED_BULKHDR_LEN
     then Some (createRawStringObject (ch CHR ''*'' # dec_int j @ crlf)) else None)"

definition shared_bulkhdr :: "int \<Rightarrow> strobj option" where
  "shared_bulkhdr j = (if 0 \<le> j \<and> j < OBJ_SHARED_BULKHDR_LEN
     then Some (createRawStringObject (ch CHR ''$'' # dec_int j @ crlf)) else None)"

definition shared_crlf :: strobj where "shared_crlf = createRawStringObject crlf"
definition shared_czero :: strobj where "shared_czero = createRawStringObject (bytes_of '':0'' @ crlf)"
definition shared_cone :: strobj where "shared_cone = createRawStringObject (bytes_of '':1'' @ crlf)"
definition shared_nullbulk :: strobj where "shared_nullbulk = createRawStringObject (bytes_of ''$-1'' @ crlf)"

definition addReplyLongLongWithPrefix ::
  "reply_env \<Rightarrow> 'a client_scheme \<Rightarrow> int \<Rightarrow> byte \<Rightarrow> 'a client_scheme option" where
  "addReplyLongLongWithPrefix env c ll prefix =
     (if prefix = ch CHR ''*'' \<and> ll < OBJ_SHARED_BULKHDR_LEN \<and> ll \<ge> 0 then do {
        o1 \<leftarrow> shared_mbulkhdr ll; addReply env c o1 }
      else if prefix = ch CHR ''$'' \<and> ll < OBJ_SHARED_BULKHDR_LEN \<and> ll \<ge> 0 then do {
        o1 \<leftarrow> shared_bulkhdr ll; addReply env c o1 }
      else do {
        (len, digs) \<leftarrow> ll2string (replicate 127 0) 127 ll;
        buf \<leftarrow> Some (prefix # digs);
        buf \<leftarrow> write_at buf (len + 1) [13];
        buf \<leftarrow> write_at buf (len + 2) [10];
        addReplyString env c (take (len + 3) buf) })"

definition addReplyLongLong :: "reply_env \<Rightarrow> 'a client_scheme \<Rightarrow> int \<Rightarrow> 'a client_scheme option" where
  "addReplyLongLong env c ll =
     (if ll = 0 then addReply env c shared_czero
      else if ll = 1 then addReply env c shared_cone
      else addReplyLongLongWithPrefix env c ll (ch CHR '':''))"

definition addReplyMultiBulkLen :: "reply_env \<Rightarrow> 'a client_scheme \<Rightarrow> int \<Rightarrow> 'a client_scheme option" where
  "addReplyMultiBulkLen env c len =
     (if len < OBJ_SHARED_BULKHDR_LEN then do { o1 \<leftarrow> shared_mbulkhdr len; addReply env c o1 }
      else addReplyLongLongWithPrefix env c len (ch CHR ''*''))"

text \<open>The length of an integer in base 10, with the division of C, which truncates.\<close>

function count_digits :: "int \<Rightarrow> nat \<Rightarrow> nat" where
  "count_digits n len =
     (let q = (if n < 0 then - ((- n) div 10) else n div 10)
      in if q \<noteq> 0 then count_digits q (len + 1) else len)"
  by pat_completeness auto
termination
  by (relation "measure (\<lambda>(n, len). nat \<bar>n\<bar>)") auto

definition addReplyBulkLen :: "reply_env \<Rightarrow> 'a client_scheme \<Rightarrow> strobj \<Rightarrow> 'a client_scheme option" where
  "addReplyBulkLen env c obj =
     (let len = (case so_ptr obj of
                   RawPtr s _ \<Rightarrow> length s
                 | EmbPtr s \<Rightarrow> length s
                 | IntPtr n \<Rightarrow> if sint n < 0 then count_digits (sint (- n)) 2 else count_digits (sint n) 1)
      in if int len < OBJ_SHARED_BULKHDR_LEN then do { o1 \<leftarrow> shared_bulkhdr (int len); addReply env c o1 }
         else addReplyLongLongWithPrefix env c (int len) (ch CHR ''$''))"

definition addReplyBulk :: "reply_env \<Rightarrow> 'a client_scheme \<Rightarrow> strobj \<Rightarrow> 'a client_scheme option" where
  "addReplyBulk env c obj = do {
     c \<leftarrow> addReplyBulkLen env c obj;
     c \<leftarrow> addReply env c obj;
     addReply env c shared_crlf }"

definition addReplyBulkCBuffer :: "reply_env \<Rightarrow> 'a client_scheme \<Rightarrow> byte list \<Rightarrow> 'a client_scheme option" where
  "addReplyBulkCBuffer env c p = do {
     c \<leftarrow> addReplyLongLongWithPrefix env c (int (length p)) (ch CHR ''$'');
     c \<leftarrow> addReplyString env c p;
     addReply env c shared_crlf }"

definition addReplyBulkSds :: "reply_env \<Rightarrow> 'a client_scheme \<Rightarrow> byte list \<Rightarrow> 'a client_scheme option" where
  "addReplyBulkSds env c s = do {
     c \<leftarrow> addReplyLongLongWithPrefix env c (int (length s)) (ch CHR ''$'');
     c \<leftarrow> addReplySds env c s;
     addReply env c shared_crlf }"

definition addReplyBulkCString :: "reply_env \<Rightarrow> 'a client_scheme \<Rightarrow> byte list option \<Rightarrow> 'a client_scheme option" where
  "addReplyBulkCString env c s = (case s of
     None \<Rightarrow> addReply env c shared_nullbulk
   | Some s \<Rightarrow> do { n \<leftarrow> strlen s; addReplyBulkCBuffer env c (take n s) })"

definition addReplyBulkLongLong :: "reply_env \<Rightarrow> 'a client_scheme \<Rightarrow> int \<Rightarrow> 'a client_scheme option" where
  "addReplyBulkLongLong env c ll = do {
     (len, buf) \<leftarrow> ll2string (replicate 64 0) 64 ll;
     addReplyBulkCBuffer env c (take len buf) }"

section \<open>Arrays of unknown length\<close>

definition addDeferredMultiBulkLength :: "'a client_scheme \<Rightarrow> nat option \<times> 'a client_scheme" where
  "addDeferredMultiBulkLength c =
     (let (ok, c) = prepareClientToWrite c
      in if \<not> ok then (None, c) else (Some (c_next_node c), add_node None c))"

fun node_pos :: "nat \<Rightarrow> (nat \<times> 'b) list \<Rightarrow> nat option" where
  "node_pos i [] = None"
| "node_pos i ((j, v) # ns) = (if i = j then Some 0 else map_option Suc (node_pos i ns))"

text \<open>The block after a placeholder takes the length in front of its bytes.\<close>

definition glue_block :: "clientReplyBlock \<Rightarrow> byte list \<Rightarrow> clientReplyBlock option" where
  "glue_block b lenstr = do {
     buf \<leftarrow> memmove (blk_buf b) (length lenstr) 0 (blk_used b);
     buf \<leftarrow> write_at buf 0 lenstr;
     Some (b\<lparr>blk_buf := buf, blk_used := blk_used b + length lenstr\<rparr>) }"

definition setDeferredMultiBulkLength ::
  "reply_env \<Rightarrow> 'a client_scheme \<Rightarrow> nat option \<Rightarrow> int \<Rightarrow> 'a client_scheme option" where
  "setDeferredMultiBulkLength env c node len =
     (let lenstr = ch CHR ''*'' # dec_int len @ crlf in
      case node of
        None \<Rightarrow> Some c
      | Some i \<Rightarrow> do {
          p \<leftarrow> node_pos i (c_reply c);
          (if snd (c_reply c ! p) \<noteq> None then None
           else do {
             let nxt = (if p + 1 < length (c_reply c) then snd (c_reply c ! (p + 1)) else None);
             c \<leftarrow>
               (if (case nxt of None \<Rightarrow> False
                    | Some b \<Rightarrow> nat ((int (blk_size b) - int (blk_used b)) mod 2 ^ 64) \<ge> length lenstr
                        \<and> blk_used b < PROTO_REPLY_CHUNK_BYTES * 4)
                then do {
                  b \<leftarrow> nxt;
                  b \<leftarrow> glue_block b lenstr;
                  let c = c\<lparr>c_reply := (c_reply c)[p + 1 := (fst (c_reply c ! (p + 1)), Some b)]\<rparr>;
                  Some (c\<lparr>c_reply := take p (c_reply c) @ drop (p + 1) (c_reply c)\<rparr>) }
                else do {
                  b \<leftarrow> new_block env (length lenstr) lenstr;
                  Some (c\<lparr>c_reply := (c_reply c)[p := (i, Some b)],
                          c_reply_bytes := (c_reply_bytes c + blk_size b) mod 2 ^ 64\<rparr>) });
             asyncCloseClientOnOutputBufferLimitReached env c }) })"

fun help_lines :: "reply_env \<Rightarrow> 'a client_scheme \<Rightarrow> byte list list \<Rightarrow> nat \<Rightarrow> (nat \<times> 'a client_scheme) option" where
  "help_lines env c [] blen = Some (blen, c)"
| "help_lines env c (l # ls) blen = do { c \<leftarrow> addReplyStatus env c l; help_lines env c ls (blen + 1) }"

definition addReplyHelp :: "reply_env \<Rightarrow> 'a client_scheme \<Rightarrow> byte list \<Rightarrow> byte list list \<Rightarrow> 'a client_scheme option" where
  "addReplyHelp env c argv0 help =
     (let cmd = map toupper (cstring argv0);
          (blenp, c) = addDeferredMultiBulkLength c
      in do {
        c \<leftarrow> addReplyStatusFormat env c (cmd @ bytes_of '' <subcommand> arg arg ... arg. Subcommands are:'');
        (blen, c) \<leftarrow> help_lines env c help 0;
        setDeferredMultiBulkLength env c blenp (int (blen + 1)) })"

definition addReplySubcommandSyntaxError ::
  "reply_env \<Rightarrow> 'a client_scheme \<Rightarrow> byte list \<Rightarrow> byte list \<Rightarrow> 'a client_scheme option" where
  "addReplySubcommandSyntaxError env c argv0 argv1 =
     addReplyErrorFormat env c
       (bytes_of ''Unknown subcommand or wrong number of arguments for '' @ [39] @ cstring argv1
        @ [39] @ bytes_of ''. Try '' @ map toupper (cstring argv0) @ bytes_of '' HELP.'')"

section \<open>Writing to the socket\<close>

text \<open>
  What \<^verbatim>\<open>write\<close> returns: a number of bytes, or \<open>-1\<close> with \<^verbatim>\<open>EAGAIN\<close> or with another error. The
  \<open>k\<close>-th call is \<open>wr k n\<close> for \<open>n\<close> bytes; \<open>below k\<close> says whether the memory limit permits to stop early.
\<close>

datatype write_result = Wrote nat | WriteAgain | WriteError

definition NET_MAX_WRITES_PER_EVENT :: nat where "NET_MAX_WRITES_PER_EVENT = 65536"

definition del_first :: "clientReplyBlock \<Rightarrow> 'a client_scheme \<Rightarrow> 'a client_scheme" where
  "del_first b c = c\<lparr>c_reply := tl (c_reply c), c_reply_bytes := nat ((int (c_reply_bytes c) - int (blk_size b)) mod 2 ^ 64)\<rparr>"

text \<open>One round: the bytes offered to \<^verbatim>\<open>write\<close>, and the client after \<open>n\<close> of them were taken.\<close>

definition to_send :: "'a client_scheme \<Rightarrow> byte list option" where
  "to_send c =
     (if c_bufpos c > 0 then read_at (c_buf c) (c_sentlen c) (nat ((int (c_bufpos c) - int (c_sentlen c)) mod 2 ^ 64))
      else do {
        b \<leftarrow> snd (hd (c_reply c));
        read_at (blk_buf b) (c_sentlen c) (nat ((int (blk_used b) - int (c_sentlen c)) mod 2 ^ 64)) })"

definition after_send :: "nat \<Rightarrow> 'a client_scheme \<Rightarrow> 'a client_scheme option" where
  "after_send n c =
     (let c = c\<lparr>c_sentlen := c_sentlen c + n\<rparr> in
      if c_bufpos c > 0 then
        Some (if c_sentlen c = c_bufpos c then c\<lparr>c_bufpos := 0, c_sentlen := 0\<rparr> else c)
      else do {
        b \<leftarrow> snd (hd (c_reply c));
        (if c_sentlen c = blk_used b then
           let c = (del_first b c)\<lparr>c_sentlen := 0\<rparr>
           in if length (c_reply c) = 0 \<and> c_reply_bytes c \<noteq> 0 then None else Some c
         else Some c) })"

partial_function (option) write_loop ::
  "(nat \<Rightarrow> nat \<Rightarrow> write_result) \<Rightarrow> (nat \<Rightarrow> bool) \<Rightarrow> nat \<Rightarrow> write_result \<Rightarrow> byte list \<Rightarrow> 'a client_scheme
     \<Rightarrow> (write_result \<times> byte list \<times> 'a client_scheme) option" where
  "write_loop wr below k nwritten sent c =
     (if \<not> clientHasPendingReplies c then Some (nwritten, sent, c)
      else if c_bufpos c = 0 \<and> (case snd (hd (c_reply c)) of None \<Rightarrow> False | Some b \<Rightarrow> blk_used b = 0)
      then write_loop wr below k nwritten sent (del_first (the (snd (hd (c_reply c)))) c)
      else do {
        data \<leftarrow> to_send c;
        case wr k (length data) of
          Wrote n \<Rightarrow>
            if n = 0 then Some (Wrote 0, sent, c)
            else do {
              c \<leftarrow> after_send n c;
              let sent = sent @ take n data;
              (if length sent > NET_MAX_WRITES_PER_EVENT \<and> below k \<and> CLIENT_SLAVE \<notin> c_flags c
               then Some (Wrote n, sent, c)
               else write_loop wr below (k + 1) (Wrote n) sent c) }
        | r \<Rightarrow> Some (r, sent, c) })"

text \<open>The bytes that were sent, and the client unless it was freed.\<close>

definition writeToClient ::
  "reply_env \<Rightarrow> (nat \<Rightarrow> nat \<Rightarrow> write_result) \<Rightarrow> (nat \<Rightarrow> bool) \<Rightarrow> 'a client_scheme \<Rightarrow> bool
     \<Rightarrow> (byte list \<times> 'a client_scheme option) option" where
  "writeToClient env wr below c handler_installed = do {
     (nwritten, sent, c) \<leftarrow> write_loop wr below 0 (Wrote 0) [] c;
     (if nwritten = WriteError then Some (sent, None)
      else
        let c = (if length sent > 0 \<and> CLIENT_MASTER \<notin> c_flags c then c\<lparr>c_lastinteraction := unixtime env\<rparr> else c)
        in if \<not> clientHasPendingReplies c then
             let c = c\<lparr>c_sentlen := 0, c_write_handler := (if handler_installed then False else c_write_handler c)\<rparr>
             in Some (sent, if CLIENT_CLOSE_AFTER_REPLY \<in> c_flags c then None else Some c)
           else Some (sent, Some c)) }"

text \<open>What \<^verbatim>\<open>handleClientsWithPendingWrites\<close> does for one client of the list; \<open>ae_ok\<close> is the result of
  \<^verbatim>\<open>aeCreateFileEvent\<close>.\<close>

definition handle_pending_write ::
  "reply_env \<Rightarrow> (nat \<Rightarrow> nat \<Rightarrow> write_result) \<Rightarrow> (nat \<Rightarrow> bool) \<Rightarrow> bool \<Rightarrow> 'a client_scheme
     \<Rightarrow> (byte list \<times> 'a client_scheme option) option" where
  "handle_pending_write env wr below ae_ok c =
     (let c = clrflag CLIENT_PENDING_WRITE c in
      if CLIENT_PROTECTED \<in> c_flags c then Some ([], Some c)
      else do {
        (sent, r) \<leftarrow> writeToClient env wr below c False;
        Some (sent, map_option (\<lambda>c. if clientHasPendingReplies c
           then if ae_ok then c\<lparr>c_write_handler := True\<rparr> else freeClientAsync c
           else c) r) })"

section \<open>Representation\<close>

text \<open>The pending output as a sequence of bytes and placeholders.\<close>

datatype item = Byte byte | Hole nat

definition blk_bytes :: "clientReplyBlock \<Rightarrow> byte list" where
  "blk_bytes b = take (blk_used b) (blk_buf b)"

fun node_items :: "nat \<times> clientReplyBlock option \<Rightarrow> item list" where
  "node_items (i, None) = [Hole i]"
| "node_items (i, Some b) = map Byte (blk_bytes b)"

definition flat :: "'a client_scheme \<Rightarrow> item list" where
  "flat c = map Byte (take (c_bufpos c) (c_buf c)) @ concat (map node_items (c_reply c))"

definition blk_inv :: "clientReplyBlock \<Rightarrow> bool" where
  "blk_inv b \<longleftrightarrow> length (blk_buf b) = blk_size b \<and> blk_used b \<le> blk_size b \<and> 0 < blk_used b"

fun node_size :: "nat \<times> clientReplyBlock option \<Rightarrow> nat" where
  "node_size (i, None) = 0"
| "node_size (i, Some b) = blk_size b"

definition blocks_size :: "'a client_scheme \<Rightarrow> nat" where
  "blocks_size c = sum_list (map node_size (c_reply c))"

definition sent_ok :: "'a client_scheme \<Rightarrow> bool" where
  "sent_ok c \<longleftrightarrow>
     (if c_bufpos c > 0 then c_sentlen c < c_bufpos c
      else case c_reply c of
        (_, Some b) # _ \<Rightarrow> c_sentlen c < blk_used b
      | _ \<Rightarrow> c_sentlen c = 0)"

definition reply_inv :: "'a client_scheme \<Rightarrow> bool" where
  "reply_inv c \<longleftrightarrow> length (c_buf c) = PROTO_REPLY_CHUNK_BYTES \<and> c_bufpos c \<le> PROTO_REPLY_CHUNK_BYTES
     \<and> (\<forall>(i, v) \<in> set (c_reply c). i < c_next_node c \<and> (\<forall>b. v = Some b \<longrightarrow> blk_inv b))
     \<and> distinct (map fst (c_reply c)) \<and> c_reply_bytes c = blocks_size c \<and> blocks_size c < 2 ^ 63 \<and> sent_ok c"

text \<open>The client accepts replies.\<close>

definition accepting :: "'a client_scheme \<Rightarrow> bool" where
  "accepting c \<longleftrightarrow> CLIENT_CLOSE_AFTER_REPLY \<notin> c_flags c
     \<and> (CLIENT_LUA \<in> c_flags c \<or> CLIENT_MODULE \<in> c_flags c
        \<or> CLIENT_REPLY_OFF \<notin> c_flags c \<and> CLIENT_REPLY_SKIP \<notin> c_flags c
          \<and> (CLIENT_MASTER \<notin> c_flags c \<or> CLIENT_MASTER_FORCE_REPLY \<in> c_flags c) \<and> c_fd c > 0)"

text \<open>What the reply functions leave alone.\<close>

definition same_client :: "'a client_scheme \<Rightarrow> 'a client_scheme \<Rightarrow> bool" where
  "same_client c c' \<longleftrightarrow> c_fd c' = c_fd c
     \<and> c_flags c' - {CLIENT_PENDING_WRITE, CLIENT_CLOSE_ASAP} = c_flags c - {CLIENT_PENDING_WRITE, CLIENT_CLOSE_ASAP}
     \<and> c_replstate c' = c_replstate c \<and> client.more c' = client.more c"

text \<open>\<open>c'\<close> is \<open>c\<close> with \<open>xs\<close> appended to its output, in at most \<open>k\<close> new bytes of blocks.\<close>

definition grows :: "'a client_scheme \<Rightarrow> item list \<Rightarrow> nat \<Rightarrow> 'a client_scheme \<Rightarrow> bool" where
  "grows c xs k c' \<longleftrightarrow> reply_inv c' \<and> flat c' = flat c @ xs \<and> blocks_size c' \<le> blocks_size c + k
     \<and> same_client c c' \<and> c_sentlen c' = c_sentlen c \<and> c_next_node c \<le> c_next_node c'"

end
