(* ===== verification/Client_Reply_Spec.thy ===== *)
theory Client_Reply_Spec
  imports Client_Reply
begin

text \<open>
  What the reply functions do: each one appends the bytes of its protocol element to the pending
  output, whatever the split between the static buffer and the blocks; writing removes from the
  front exactly the bytes that were sent.
\<close>

section \<open>Adding bytes\<close>

lemma grows_refl: "reply_inv c \<Longrightarrow> grows c [] 0 c"
  by (simp add: grows_def same_client_def)

lemma grows_trans:
  "grows c xs k c' \<Longrightarrow> grows c' ys l c'' \<Longrightarrow> grows c (xs @ ys) (k + l) c''"
  by (auto simp: grows_def same_client_def)

lemma grows_mono: "grows c xs k c' \<Longrightarrow> k \<le> l \<Longrightarrow> grows c xs l c'"
  by (auto simp: grows_def)

lemma same_client_flags:
  "same_client c c' \<Longrightarrow> f \<noteq> CLIENT_PENDING_WRITE \<Longrightarrow> f \<noteq> CLIENT_CLOSE_ASAP \<Longrightarrow> f \<in> c_flags c' \<longleftrightarrow> f \<in> c_flags c"
  by (auto simp: same_client_def)

lemma accepting_same: "same_client c c' \<Longrightarrow> accepting c' = accepting c"
  by (simp add: accepting_def same_client_flags) (simp add: same_client_def)

lemma grows_accepting: "grows c xs k c' \<Longrightarrow> accepting c \<Longrightarrow> accepting c'"
  using accepting_same by (auto simp: grows_def)

text \<open>Changes of flags and times do not touch the output.\<close>

definition same_output :: "'a client_scheme \<Rightarrow> 'a client_scheme \<Rightarrow> bool" where
  "same_output c c' \<longleftrightarrow> c_buf c' = c_buf c \<and> c_bufpos c' = c_bufpos c \<and> c_reply c' = c_reply c
     \<and> c_next_node c' = c_next_node c \<and> c_reply_bytes c' = c_reply_bytes c \<and> c_sentlen c' = c_sentlen c \<and> same_client c c'"

lemma same_output_inv: "same_output c c' \<Longrightarrow> reply_inv c' = reply_inv c"
  by (simp add: same_output_def reply_inv_def sent_ok_def blocks_size_def split: list.split option.split)

lemma grows_same_output:
  assumes "grows c xs k c'" "same_output c' c''"
  shows "grows c xs k c''"
proof -
  have "reply_inv c''" using assms same_output_inv by (auto simp: grows_def)
  moreover have "flat c'' = flat c'" "blocks_size c'' = blocks_size c'"
    using assms(2) by (simp_all add: same_output_def flat_def blocks_size_def)
  moreover have "same_client c c''" using assms by (auto simp: grows_def same_output_def same_client_def)
  ultimately show ?thesis using assms by (simp add: grows_def same_output_def)
qed

lemma prepare_accepting:
  assumes "accepting c"
  shows "\<exists>c'. prepareClientToWrite c = (True, c') \<and> same_output c c'"
  using assms
  by (auto simp: prepareClientToWrite_def accepting_def same_output_def same_client_def clientInstallWriteHandler_def setflag_def)

lemma same_output_refl: "same_output c c"
  by (simp add: same_output_def same_client_def)

lemma same_output_trans: "same_output c c' \<Longrightarrow> same_output c' c'' \<Longrightarrow> same_output c c''"
  by (simp add: same_output_def same_client_def)

lemma same_output_soft: "same_output c (c\<lparr>c_soft_limit_time := t\<rparr>)"
  by (simp add: same_output_def same_client_def)

lemma check_limits_same: "same_output c (snd (checkClientOutputBufferLimits env c))"
  unfolding checkClientOutputBufferLimits_def Let_def by (simp add: same_output_soft same_output_refl)

lemma freeClientAsync_same: "same_output c (freeClientAsync c)"
  by (auto simp: freeClientAsync_def setflag_def same_output_def same_client_def)

lemma async_close_ok:
  assumes "reply_inv c"
  shows "\<exists>c'. asyncCloseClientOnOutputBufferLimitReached env c = Some c' \<and> same_output c c'"
proof -
  have "c_reply_bytes c < 2 ^ 64 - 1 - 1024 * 64" using assms by (simp add: reply_inv_def)
  then show ?thesis
    using check_limits_same [of c env] freeClientAsync_same same_output_refl [of c]
    by (cases "checkClientOutputBufferLimits env c")
      (auto simp: asyncCloseClientOnOutputBufferLimitReached_def intro: same_output_trans)
qed

lemma addReplyToBuffer_ok:
  assumes "reply_inv c" "CLIENT_CLOSE_AFTER_REPLY \<notin> c_flags c"
  shows "addReplyToBuffer c s = Some (False, c) \<or>
    (\<exists>c'. addReplyToBuffer c s = Some (True, c') \<and> grows c (map Byte s) 0 c')"
proof (cases "c_reply c = [] \<and> length s \<le> PROTO_REPLY_CHUNK_BYTES - c_bufpos c")
  case True
  let ?buf = "take (c_bufpos c) (c_buf c) @ s @ drop (c_bufpos c + length s) (c_buf c)"
  let ?c = "c\<lparr>c_buf := ?buf, c_bufpos := c_bufpos c + length s\<rparr>"
  have le: "c_bufpos c + length s \<le> length (c_buf c)" "c_bufpos c \<le> PROTO_REPLY_CHUNK_BYTES"
    "length (c_buf c) = PROTO_REPLY_CHUNK_BYTES" using True assms(1) by (auto simp: reply_inv_def)
  then have "addReplyToBuffer c s = Some (True, ?c)"
    using assms(2) True by (auto simp: addReplyToBuffer_def write_at_def PROTO_REPLY_CHUNK_BYTES_def)
  moreover have "grows c (map Byte s) 0 ?c"
    using assms(1) True le
    by (auto simp: grows_def reply_inv_def flat_def blocks_size_def same_client_def sent_ok_def split: if_splits)
  ultimately show ?thesis by blast
next
  case False
  then show ?thesis using assms
    by (auto simp: addReplyToBuffer_def reply_inv_def PROTO_REPLY_CHUNK_BYTES_def)
qed

text \<open>Allocations of blocks: at most half of an allocation is internal fragmentation.\<close>

definition tight :: "reply_env \<Rightarrow> bool" where
  "tight env \<longleftrightarrow> (\<forall>n. slack env n \<le> n)"

lemma new_block_ok:
  assumes "tight env" "s \<noteq> []" "length s \<le> n"
  shows "\<exists>b. new_block env n s = Some b \<and> blk_inv b \<and> blk_bytes b = s \<and> blk_size b \<le> 2 * n + 16"
proof -
  have "slack env (n + 16) \<le> n + 16" using assms(1) by (simp add: tight_def)
  then show ?thesis using assms(2,3)
    by (auto simp: new_block_def write_at_def blk_inv_def blk_bytes_def sizeof_clientReplyBlock_def Let_def)
qed

text \<open>A change of the list of blocks that extends the output.\<close>

lemma grows_nodes:
  assumes "reply_inv c" "\<forall>(i, v) \<in> set ns. i < n \<and> (\<forall>b. v = Some b \<longrightarrow> blk_inv b)" "distinct (map fst ns)"
    "r = sum_list (map node_size ns)" "r \<le> blocks_size c + k" "r < 2 ^ 63" "c_next_node c \<le> n"
    "concat (map node_items ns) = concat (map node_items (c_reply c)) @ xs"
    "sent_ok (c\<lparr>c_reply := ns, c_next_node := n, c_reply_bytes := r\<rparr>)"
  shows "grows c xs k (c\<lparr>c_reply := ns, c_next_node := n, c_reply_bytes := r\<rparr>)"
  using assms unfolding grows_def reply_inv_def flat_def blocks_size_def same_client_def by simp

lemma sent_ok_tail:
  assumes "sent_ok c" "c_reply c = ns @ [(i, Some b)]" "blk_used b \<le> blk_used b'"
  shows "sent_ok (c\<lparr>c_reply := ns @ [(i, Some b')], c_next_node := n, c_reply_bytes := r\<rparr>)"
  using assms by (cases ns) (auto simp: sent_ok_def split: option.splits)

lemma sent_ok_add:
  assumes "sent_ok c" "\<forall>b. v = Some b \<longrightarrow> 0 < blk_used b"
  shows "sent_ok (c\<lparr>c_reply := c_reply c @ [(i, v)], c_next_node := n, c_reply_bytes := r\<rparr>)"
  using assms by (cases "c_reply c") (auto simp: sent_ok_def split: option.splits)

lemma append_to_tail_ok:
  assumes "reply_inv c"
  shows "\<exists>c' t. append_to_tail c s = Some (c', t) \<and> grows c (map Byte (take (length s - length t) s)) 0 c'
    \<and> t = drop (length s - length t) s \<and> c_reply_bytes c' = c_reply_bytes c"
proof (cases "c_reply c = [] \<or> snd (last (c_reply c)) = None")
  case True
  then have "append_to_tail c s = Some (c, s)" by (cases "last (c_reply c)") (auto simp: append_to_tail_def)
  then show ?thesis using grows_refl [OF assms] by simp
next
  case False
  then obtain ns i b where ns: "c_reply c = ns @ [(i, Some b)]"
    by (metis append_butlast_last_id not_None_eq prod.exhaust_sel)
  with assms have b: "length (blk_buf b) = blk_size b" "blk_used b \<le> blk_size b" "0 < blk_used b"
    by (auto simp: reply_inv_def blk_inv_def)
  have "blk_size b < 2 ^ 63" using assms ns by (simp add: reply_inv_def blocks_size_def)
  then have av: "nat ((int (blk_size b) - int (blk_used b)) mod 2 ^ 64) = blk_size b - blk_used b"
    using b(2) by simp
  define n where "n = min (length s) (blk_size b - blk_used b)"
  have n: "n \<le> length s" "blk_used b + n \<le> blk_size b" using b(2) by (auto simp: n_def)
  let ?b = "b\<lparr>blk_buf := take (blk_used b) (blk_buf b) @ take n s @ drop (blk_used b + n) (blk_buf b), blk_used := blk_used b + n\<rparr>"
  have bb: "blk_inv ?b" "blk_bytes ?b = blk_bytes b @ take n s" "blk_size ?b = blk_size b" "blk_used b \<le> blk_used ?b"
    using b n by (auto simp: blk_inv_def blk_bytes_def)
  obtain b' where b': "b' = ?b" by simp
  let ?c = "c\<lparr>c_reply := ns @ [(i, Some b')], c_next_node := c_next_node c, c_reply_bytes := c_reply_bytes c\<rparr>"
  have cp: "(if length s \<le> blk_size b - blk_used b then length s else blk_size b - blk_used b) = n"
    by (simp add: n_def)
  have w: "write_at (blk_buf b) (blk_used b) (take n s) = Some (blk_buf b')"
    using b(1) n by (simp add: write_at_def b' min_def)
  have "append_to_tail c s = Some (?c, drop n s)"
    unfolding append_to_tail_def ns last_append_single prod.case option.case av Let_def cp w butlast_snoc
    by (simp add: b')
  moreover have "grows c (map Byte (take n s)) 0 ?c"
  proof (rule grows_nodes [OF assms])
    show "sent_ok ?c" using assms bb(4) by (intro sent_ok_tail [OF _ ns]) (simp_all add: b' reply_inv_def)
    show "concat (map node_items (ns @ [(i, Some b')])) = concat (map node_items (c_reply c)) @ map Byte (take n s)"
      by (simp add: ns b' bb(2))
    show "\<forall>(i, v) \<in> set (ns @ [(i, Some b')]). i < c_next_node c \<and> (\<forall>b. v = Some b \<longrightarrow> blk_inv b)"
      using assms bb(1) by (auto simp: reply_inv_def ns b')
  qed (use assms in \<open>simp_all add: reply_inv_def ns blocks_size_def b'\<close>)
  ultimately show ?thesis using n by auto
qed

lemma addReplyStringToList_ok:
  assumes "reply_inv c" "CLIENT_CLOSE_AFTER_REPLY \<notin> c_flags c" "tight env"
    "blocks_size c + 2 * length s + 32784 < 2 ^ 63"
  shows "\<exists>c'. addReplyStringToList env c s = Some c' \<and> grows c (map Byte s) (2 * length s + 32784) c'"
proof -
  from append_to_tail_ok [OF assms(1), of s] obtain c1 t where
    c1: "append_to_tail c s = Some (c1, t)" "grows c (map Byte (take (length s - length t) s)) 0 c1"
      "t = drop (length s - length t) s" "c_reply_bytes c1 = c_reply_bytes c" by blast
  define n where "n = length s - length t"
  have i1: "reply_inv c1" "blocks_size c1 \<le> blocks_size c" using c1(2) by (auto simp: grows_def)
  have "\<exists>c2. (if t \<noteq> [] then do {
          let size = (if length t < PROTO_REPLY_CHUNK_BYTES then PROTO_REPLY_CHUNK_BYTES else length t);
          tail \<leftarrow> new_block env size t;
          Some ((add_node (Some tail) c1)\<lparr>c_reply_bytes := (c_reply_bytes c1 + blk_size tail) mod 2 ^ 64\<rparr>) }
        else Some c1) = Some c2 \<and> grows c1 (map Byte t) (2 * length s + 32784) c2"
  proof (cases "t = []")
    case True
    then show ?thesis using grows_mono [OF grows_refl [OF i1(1)]] by simp
  next
    case False
    define size where "size = (if length t < PROTO_REPLY_CHUNK_BYTES then PROTO_REPLY_CHUNK_BYTES else length t)"
    have size: "length t \<le> size" "2 * size + 16 \<le> 2 * length s + 32784"
      using arg_cong [OF c1(3), of length] by (auto simp: size_def PROTO_REPLY_CHUNK_BYTES_def)
    from new_block_ok [OF assms(3) False size(1)] obtain b where
      b: "new_block env size t = Some b" "blk_inv b" "blk_bytes b = t" "blk_size b \<le> 2 * size + 16" by blast
    let ?c = "c1\<lparr>c_reply := c_reply c1 @ [(c_next_node c1, Some b)], c_next_node := c_next_node c1 + 1,
      c_reply_bytes := (c_reply_bytes c1 + blk_size b) mod 2 ^ 64\<rparr>"
    have s: "c_reply_bytes c1 = blocks_size c1" "blocks_size c1 + blk_size b < 2 ^ 63" "sent_ok c1" "0 < blk_used b"
      using i1 b(2,4) size(2) assms(4) by (auto simp: reply_inv_def blk_inv_def)
    have "grows c1 (map Byte t) (2 * length s + 32784) ?c"
      by (rule grows_nodes [OF i1(1)])
        (use i1(1) b s size(2) in \<open>auto simp: reply_inv_def blocks_size_def intro!: sent_ok_add\<close>)
    then show ?thesis using False b(1) by (simp add: size_def Let_def add_node_def)
  qed
  then obtain c2 where c2: "grows c1 (map Byte t) (2 * length s + 32784) c2" and ev:
    "addReplyStringToList env c s = asyncCloseClientOnOutputBufferLimitReached env c2"
    using assms(2) c1(1) by (auto simp: addReplyStringToList_def)
  from grows_trans [OF c1(2) c2] have g: "grows c (map Byte s) (2 * length s + 32784) c2"
    using c1(3) by (metis add_0 append_take_drop_id map_append)
  then have "reply_inv c2" by (simp add: grows_def)
  from async_close_ok [OF this, of env] ev grows_same_output [OF g] show ?thesis by metis
qed

text \<open>
  A reply function appends \<open>x\<close>: on every accepting client, with room for \<open>k\<close> more bytes of blocks,
  it succeeds and its effect is to append \<open>x\<close> to the output.
\<close>

definition appends :: "('a client_scheme \<Rightarrow> 'a client_scheme option) \<Rightarrow> byte list \<Rightarrow> nat \<Rightarrow> bool" where
  "appends f x k \<longleftrightarrow> (\<forall>c. reply_inv c \<and> accepting c \<and> blocks_size c + k < 2 ^ 63 \<longrightarrow>
     (\<exists>c'. f c = Some c' \<and> grows c (map Byte x) k c'))"

definition wcost :: "byte list \<Rightarrow> nat" where
  "wcost s = 2 * length s + 32784"

named_theorems appends_rules \<open>what the reply functions append\<close>

lemma appendsD:
  assumes "appends f x k" "reply_inv c" "accepting c" "blocks_size c + k < 2 ^ 63"
  shows "\<exists>c'. f c = Some c' \<and> grows c (map Byte x) k c'"
  using assms by (auto simp: appends_def)

lemma appends_bind:
  assumes "appends f x k" "appends g y l"
  shows "appends (\<lambda>c. do { c \<leftarrow> f c; g c }) (x @ y) (k + l)"
  unfolding appends_def
proof (intro allI impI)
  fix c :: "'a client_scheme"
  assume c: "reply_inv c \<and> accepting c \<and> blocks_size c + (k + l) < 2 ^ 63"
  then obtain c' where c': "f c = Some c'" "grows c (map Byte x) k c'"
    using appendsD [OF assms(1), of c] by auto
  then have "reply_inv c'" "accepting c'" "blocks_size c' + l < 2 ^ 63"
    using c grows_accepting [OF c'(2)] by (auto simp: grows_def)
  from appendsD [OF assms(2) this] c' grows_trans [OF c'(2)] c show "\<exists>c'. do { c \<leftarrow> f c; g c } = Some c' \<and> grows c (map Byte (x @ y)) (k + l) c'"
    by auto
qed

lemma appends_Some: "appends Some [] 0"
  by (auto simp: appends_def grows_refl)

lemma appends_mono:
  assumes "appends f x k" "k \<le> l"
  shows "appends f x l"
  unfolding appends_def
proof (intro allI impI)
  fix c :: "'a client_scheme"
  assume c: "reply_inv c \<and> accepting c \<and> blocks_size c + l < 2 ^ 63"
  then have "blocks_size c + k < 2 ^ 63" using assms(2) by linarith
  with c appendsD [OF assms(1)] grows_mono [OF _ assms(2)] show "\<exists>c'. f c = Some c' \<and> grows c (map Byte x) l c'"
    by blast
qed

lemma write_appends:
  assumes "tight env"
  shows "appends (\<lambda>c. let (ok, c) = prepareClientToWrite c in if \<not> ok then Some c
      else do { (done, c) \<leftarrow> addReplyToBuffer c s; (if done then Some c else addReplyStringToList env c s) }) s (wcost s)"
  unfolding appends_def
proof (intro allI impI)
  fix c :: "'a client_scheme"
  assume c: "reply_inv c \<and> accepting c \<and> blocks_size c + wcost s < 2 ^ 63"
  then obtain c1 where c1: "prepareClientToWrite c = (True, c1)" "same_output c c1" using prepare_accepting by blast
  then have g1: "grows c [] 0 c1" using grows_same_output [OF grows_refl] c by blast
  then have i1: "reply_inv c1" "accepting c1" "CLIENT_CLOSE_AFTER_REPLY \<notin> c_flags c1" "blocks_size c1 + wcost s < 2 ^ 63"
    using c grows_accepting [OF g1] by (auto simp: grows_def accepting_def)
  have "\<exists>c'. (do { (done, c) \<leftarrow> addReplyToBuffer c1 s; (if done then Some c else addReplyStringToList env c s) }) = Some c'
      \<and> grows c1 (map Byte s) (wcost s) c'"
    using addReplyToBuffer_ok [OF i1(1,3), of s] addReplyStringToList_ok [OF i1(1,3) assms, of s] i1(4) grows_mono [of c1 _ 0]
    by (auto simp: wcost_def)
  with c1(1) grows_trans [OF g1, of _ "wcost s"] show "\<exists>c'. (let (ok, c) = prepareClientToWrite c in if \<not> ok then Some c
      else do { (done, c) \<leftarrow> addReplyToBuffer c s; (if done then Some c else addReplyStringToList env c s) }) = Some c'
      \<and> grows c (map Byte s) (wcost s) c'" by auto
qed

lemma addReplyString_appends [appends_rules]: "tight env \<Longrightarrow> appends (\<lambda>c. addReplyString env c s) s (wcost s)"
  unfolding addReplyString_def by (rule write_appends)

lemma addReplySds_appends [appends_rules]: "tight env \<Longrightarrow> appends (\<lambda>c. addReplySds env c s) s (wcost s)"
  unfolding addReplySds_def by (rule write_appends)

lemma addReply_appends [appends_rules]:
  assumes "tight env"
  shows "appends (\<lambda>c. addReply env c o1) (obj_bytes o1) (wcost (obj_bytes o1))"
proof -
  have e: "(case so_ptr o1 of RawPtr s _ \<Rightarrow> Some s | EmbPtr s \<Rightarrow> Some s
      | IntPtr v \<Rightarrow> do { (len, buf) \<leftarrow> ll2buf 32 v; Some (take len buf) }) = Some (obj_bytes o1)"
    by (cases "so_ptr o1") (simp_all add: obj_bytes_def ll2buf_spec)
  show ?thesis unfolding addReply_def e Option.bind.simps by (rule write_appends [OF assms])
qed

section \<open>Protocol elements\<close>

text \<open>A bound for up to four writes.\<close>

definition ecost :: "byte list \<Rightarrow> nat" where
  "ecost x = 2 * length x + 150000"

lemma wcost_ecost: "wcost x \<le> ecost x"
  by (simp add: wcost_def ecost_def)

lemma obj_bytes_raw [simp]: "obj_bytes (createRawStringObject s) = s"
  by (simp add: obj_bytes_def createRawStringObject_def)

lemma shared_bytes [simp]:
  "obj_bytes shared_crlf = crlf" "obj_bytes shared_czero = bytes_of '':0'' @ crlf"
  "obj_bytes shared_cone = bytes_of '':1'' @ crlf" "obj_bytes shared_nullbulk = bytes_of ''$-1'' @ crlf"
  by (simp_all add: shared_crlf_def shared_czero_def shared_cone_def shared_nullbulk_def)

lemma appends_conv: "appends f x k \<Longrightarrow> x = y \<Longrightarrow> k \<le> l \<Longrightarrow> appends f y l"
  using appends_mono by blast

lemma status_appends [appends_rules]:
  assumes "tight env"
  shows "appends (\<lambda>c. addReplyStatusLength env c s) (ch CHR ''+'' # s @ crlf) (ecost (ch CHR ''+'' # s @ crlf))"
  unfolding addReplyStatusLength_def
  by (rule appends_conv [OF appends_bind [OF _ appends_bind]], (rule addReplyString_appends [OF assms])+)
    (auto simp: wcost_def ecost_def)

lemma error_appends [appends_rules]:
  assumes "tight env"
  shows "appends (\<lambda>c. addReplyErrorLength env c s)
      ((if s = [] \<or> hd s \<noteq> ch CHR ''-'' then bytes_of ''-ERR '' else []) @ s @ crlf)
      (ecost ((if s = [] \<or> hd s \<noteq> ch CHR ''-'' then bytes_of ''-ERR '' else []) @ s @ crlf))"
proof -
  note w = addReplyString_appends [OF assms]
  have "appends (\<lambda>c. if s = [] \<or> hd s \<noteq> ch CHR ''-'' then addReplyString env c (bytes_of ''-ERR '') else Some c)
      (if s = [] \<or> hd s \<noteq> ch CHR ''-'' then bytes_of ''-ERR '' else []) (wcost (bytes_of ''-ERR ''))"
    using w [of "bytes_of ''-ERR ''"] appends_mono [OF appends_Some] by auto
  then show ?thesis unfolding addReplyErrorLength_def
    by (rule appends_conv [OF appends_bind [OF _ appends_bind [OF w w]]]) (auto simp: wcost_def ecost_def)
qed

lemma long_prefix_appends [appends_rules]:
  assumes "tight env" "LLONG_MIN \<le> ll" "ll \<le> LLONG_MAX"
  shows "appends (\<lambda>c. addReplyLongLongWithPrefix env c ll prefix) (prefix # dec_int ll @ crlf) (ecost (prefix # dec_int ll @ crlf))"
proof (cases "(prefix = ch CHR ''*'' \<or> prefix = ch CHR ''$'') \<and> 0 \<le> ll \<and> ll < OBJ_SHARED_BULKHDR_LEN")
  case True
  then obtain o1 where "\<And>c :: 'a client_scheme. addReplyLongLongWithPrefix env c ll prefix = addReply env c o1" "obj_bytes o1 = prefix # dec_int ll @ crlf"
    by (auto simp: addReplyLongLongWithPrefix_def shared_mbulkhdr_def shared_bulkhdr_def)
  then show ?thesis using appends_mono [OF addReply_appends [OF assms(1), of o1] wcost_ecost] by simp
next
  case False
  have l: "length (dec_int ll) \<le> 20" using length_dec_int [OF assms(2,3)] .
  obtain d where d: "d = dec_int ll" by simp
  have ll: "ll2string (replicate 127 0) 127 ll = Some (length d, d @ 0 # replicate (126 - length d) 0)"
    using ll2string_spec [OF assms(2,3), of 127 "replicate 127 0"] l by (simp add: d)
  have w1: "write_at (prefix # d @ 0 # replicate (126 - length d) 0) (Suc (length d)) [13]
      = Some (prefix # d @ 13 # replicate (126 - length d) 0)"
    by (simp add: write_at_def)
  have w2: "write_at (prefix # d @ 13 # replicate (126 - length d) 0) (Suc (Suc (length d))) [10]
      = Some (prefix # d @ 13 # 10 # replicate (125 - length d) 0)"
    using l by (simp add: write_at_def d numeral_2_eq_2)
  have "addReplyLongLongWithPrefix env c ll prefix = addReplyString env c (prefix # d @ crlf)" for c :: "'a client_scheme"
  proof -
    have "(prefix = ch CHR ''*'' \<and> ll < OBJ_SHARED_BULKHDR_LEN \<and> 0 \<le> ll) = False"
      "(prefix = ch CHR ''$'' \<and> ll < OBJ_SHARED_BULKHDR_LEN \<and> 0 \<le> ll) = False" using False by auto
    moreover have "take (length d + 3) (prefix # d @ 13 # 10 # replicate (125 - length d) 0) = prefix # d @ crlf"
      by (simp add: numeral_3_eq_3)
    ultimately show ?thesis unfolding addReplyLongLongWithPrefix_def ll by (auto simp: w1 w2)
  qed
  then show ?thesis using appends_mono [OF addReplyString_appends [OF assms(1)] wcost_ecost] by (simp add: d)
qed

lemma integer_appends [appends_rules]:
  assumes "tight env" "LLONG_MIN \<le> ll" "ll \<le> LLONG_MAX"
  shows "appends (\<lambda>c. addReplyLongLong env c ll) (ch CHR '':'' # dec_int ll @ crlf) (ecost (ch CHR '':'' # dec_int ll @ crlf))"
proof -
  note o = appends_mono [OF addReply_appends [OF assms(1)] wcost_ecost]
  show ?thesis using o [of shared_czero] o [of shared_cone] long_prefix_appends [OF assms, of "ch CHR '':''"]
    by (cases "ll = 0"; cases "ll = 1") (simp_all add: addReplyLongLong_def dec_int_def dec_small)
qed

lemma multibulk_appends [appends_rules]:
  assumes "tight env" "0 \<le> n" "n \<le> LLONG_MAX"
  shows "appends (\<lambda>c. addReplyMultiBulkLen env c n) (ch CHR ''*'' # dec_int n @ crlf) (ecost (ch CHR ''*'' # dec_int n @ crlf))"
proof -
  have "addReplyMultiBulkLen env c n = addReplyLongLongWithPrefix env c n (ch CHR ''*'')" for c :: "'a client_scheme"
    using assms(2) by (simp add: addReplyMultiBulkLen_def addReplyLongLongWithPrefix_def)
  with long_prefix_appends [of env n] assms show ?thesis by (simp add: LLONG_MIN_def)
qed

lemma count_digits_length: "count_digits n len = len + length (dec (nat \<bar>n\<bar>)) - 1"
proof (induction n len rule: count_digits.induct)
  case (1 n len)
  define q where "q = (if n < 0 then - (- n div 10) else n div 10)"
  have q: "nat \<bar>q\<bar> = nat \<bar>n\<bar> div 10" by (simp add: q_def nat_div_distrib)
  show ?case
  proof (cases "nat \<bar>n\<bar> < 10")
    case True
    with q have "q = 0" by simp
    with True show ?thesis
      by (subst count_digits.simps) (simp only: q_def [symmetric] Let_def dec_small [OF True] simp_thms if_False list.size)
  next
    case False
    with q have "q \<noteq> 0" by auto
    moreover have "dec (nat \<bar>n\<bar> div 10) \<noteq> []" by (subst dec.simps) simp
    moreover have "length (dec (nat \<bar>n\<bar>)) = length (dec (nat \<bar>n\<bar> div 10)) + 1" using dec_step [of "nat \<bar>n\<bar>"] False by simp
    moreover have "count_digits n len = count_digits q (len + 1)"
      using \<open>q \<noteq> 0\<close> by (subst count_digits.simps) (simp only: q_def [symmetric] Let_def simp_thms if_True)
    ultimately show ?thesis using 1 [OF q_def] q by simp
  qed
qed

lemma bulk_len_digits:
  "(if sint n < 0 then count_digits (sint (- n)) 2 else count_digits (sint n) 1) = length (dec_int (sint (n :: u64)))"
proof (cases "sint n < 0")
  case True
  have "sint (- n) = signed_take_bit 63 (- sint n)" by (simp add: sint_word_ariths)
  moreover have "- (2 ^ 63) \<le> sint n" using sint_u64_range(1) [of n] by (simp add: LLONG_MIN_def)
  ultimately have "\<bar>sint (- n)\<bar> = - sint n"
    using True signed_take_bit_int_eq_self [of 63 "- sint n"] by (cases "sint n = - (2 ^ 63)") auto
  with True show ?thesis by (simp add: count_digits_length dec_int_def del: count_digits.simps)
next
  case False
  then show ?thesis by (simp add: count_digits_length dec_int_def del: count_digits.simps)
qed

lemma bulk_appends [appends_rules]:
  assumes "tight env" "length (obj_bytes o1) < 2 ^ 62"
  shows "appends (\<lambda>c. addReplyBulk env c o1)
      (ch CHR ''$'' # dec (length (obj_bytes o1)) @ crlf @ obj_bytes o1 @ crlf)
      (ecost (obj_bytes o1) + 150000)"
proof -
  let ?n = "int (length (obj_bytes o1))"
  have n: "LLONG_MIN \<le> ?n" "?n \<le> LLONG_MAX" using assms(2) by (auto simp: LLONG_MIN_def LLONG_MAX_def)
  have "addReplyBulkLen env c o1 = addReplyLongLongWithPrefix env c ?n (ch CHR ''$'')" for c :: "'a client_scheme"
  proof -
    have "(case so_ptr o1 of RawPtr s _ \<Rightarrow> length s | EmbPtr s \<Rightarrow> length s
        | IntPtr n \<Rightarrow> if sint n < 0 then count_digits (sint (- n)) 2 else count_digits (sint n) 1) = length (obj_bytes o1)"
      by (simp add: obj_bytes_def bulk_len_digits split: str_ptr.split)
    then show ?thesis unfolding addReplyBulkLen_def by (simp add: addReplyLongLongWithPrefix_def)
  qed
  then have "appends (\<lambda>c :: 'a client_scheme. addReplyBulkLen env c o1) (ch CHR ''$'' # dec_int ?n @ crlf) (ecost (ch CHR ''$'' # dec_int ?n @ crlf))"
    using long_prefix_appends [OF assms(1) n, of "ch CHR ''$''"] by simp
  from appends_bind [OF this appends_bind [OF addReply_appends addReply_appends], OF assms(1,1), of o1 shared_crlf]
  show ?thesis unfolding addReplyBulk_def
    by (rule appends_conv) (use length_dec_int [OF n] in \<open>auto simp: dec_int_def wcost_def ecost_def\<close>)
qed

lemma buffer_appends [appends_rules]:
  assumes "tight env" "length p < 2 ^ 62"
  shows "appends (\<lambda>c. addReplyBulkCBuffer env c p) (ch CHR ''$'' # dec (length p) @ crlf @ p @ crlf) (ecost p + 150000)"
proof -
  let ?n = "int (length p)"
  have n: "LLONG_MIN \<le> ?n" "?n \<le> LLONG_MAX" using assms(2) by (auto simp: LLONG_MIN_def LLONG_MAX_def)
  from appends_bind [OF long_prefix_appends [OF assms(1) n, of "ch CHR ''$''"]
      appends_bind [OF addReplyString_appends addReply_appends], OF assms(1,1), of p shared_crlf]
  show ?thesis unfolding addReplyBulkCBuffer_def
    by (rule appends_conv) (use length_dec_int [OF n] in \<open>auto simp: dec_int_def wcost_def ecost_def\<close>)
qed

end
