(* ===== verification/Client_Reply_Refine.thy ===== *)
theory Client_Reply_Refine
  imports Client_Reply_Spec
begin

text \<open>
  Replies as trees: emitting a reply with the functions of \<^verbatim>\<open>networking.c\<close>, nested arrays of unknown length
  included, appends its RESP encoding to the output of the client; and \<^verbatim>\<open>writeToClient\<close> sends the output
  in order, whatever the socket accepts at each call.
\<close>

section \<open>Arrays of unknown length\<close>

lemma hole_fresh:
  assumes "reply_inv c" "Hole i \<in> set (flat c)"
  shows "i < c_next_node c"
proof -
  from assms(2) obtain j v where "(j, v) \<in> set (c_reply c)" "Hole i \<in> set (node_items (j, v))"
    by (auto simp: flat_def)
  then show ?thesis using assms(1) by (cases v) (auto simp: reply_inv_def)
qed

lemma addDeferred_ok:
  assumes "reply_inv c" "accepting c"
  shows "\<exists>i c'. addDeferredMultiBulkLength c = (Some i, c') \<and> grows c [Hole i] 0 c' \<and> i = c_next_node c \<and> i < c_next_node c'"
proof -
  obtain c1 where c1: "prepareClientToWrite c = (True, c1)" "same_output c c1" using prepare_accepting [OF assms(2)] by blast
  then have g1: "grows c [] 0 c1" using grows_same_output [OF grows_refl] assms by blast
  then have i1: "reply_inv c1" "sent_ok c1" by (simp_all add: grows_def reply_inv_def)
  let ?c = "c1\<lparr>c_reply := c_reply c1 @ [(c_next_node c1, None)], c_next_node := c_next_node c1 + 1, c_reply_bytes := c_reply_bytes c1\<rparr>"
  have "grows c1 [Hole (c_next_node c1)] 0 ?c"
    by (rule grows_nodes [OF i1(1)])
      (use i1 in \<open>auto simp: reply_inv_def blocks_size_def intro!: sent_ok_add\<close>)
  moreover have "addDeferredMultiBulkLength c = (Some (c_next_node c1), ?c)"
    using c1(1) by (simp add: addDeferredMultiBulkLength_def add_node_def)
  moreover have "c_next_node c1 = c_next_node c" using c1(2) by (simp add: same_output_def)
  ultimately show ?thesis using grows_trans [OF g1, of "[Hole (c_next_node c1)]" 0] by auto
qed

lemma node_pos_split:
  assumes "i \<notin> fst ` set ns"
  shows "node_pos i (ns @ (i, v) # ms) = Some (length ns)"
  using assms by (induction ns) auto

lemma glue_block_ok:
  assumes "blk_inv b" "length l \<le> blk_size b - blk_used b"
  shows "\<exists>b'. glue_block b l = Some b' \<and> blk_inv b' \<and> blk_bytes b' = l @ blk_bytes b \<and> blk_size b' = blk_size b"
proof -
  let ?u = "take (blk_used b) (blk_buf b)"
  have le: "length l + blk_used b \<le> length (blk_buf b)" "length ?u = blk_used b" using assms by (auto simp: blk_inv_def)
  have m: "memmove (blk_buf b) (length l) 0 (blk_used b)
      = Some (take (length l) (blk_buf b) @ ?u @ drop (length l + blk_used b) (blk_buf b))"
    using le by (simp add: memmove_def read_at_def write_at_def)
  have w: "write_at (take (length l) (blk_buf b) @ ?u @ drop (length l + blk_used b) (blk_buf b)) 0 l
      = Some (l @ ?u @ drop (length l + blk_used b) (blk_buf b))"
    using le by (simp add: write_at_def)
  show ?thesis using assms(1) le unfolding glue_block_def m Option.bind.simps w
    by (auto simp: blk_inv_def blk_bytes_def)
qed

lemma flat_split:
  assumes "reply_inv c" "flat c = pre @ Hole i # post"
  shows "\<exists>ns ms. c_reply c = ns @ (i, None) # ms \<and> i \<notin> fst ` set ns
    \<and> pre = map Byte (take (c_bufpos c) (c_buf c)) @ concat (map node_items ns) \<and> post = concat (map node_items ms)"
proof -
  let ?st = "map Byte (take (c_bufpos c) (c_buf c))"
  have "Hole i \<in> set (flat c)" using assms(2) by simp
  then obtain j v where "(j, v) \<in> set (c_reply c)" "Hole i \<in> set (node_items (j, v))" by (auto simp: flat_def)
  then have "(i, None) \<in> set (c_reply c)" by (cases v) auto
  then obtain ns ms where s: "c_reply c = ns @ (i, None) # ms" by (meson split_list)
  have d: "i \<notin> fst ` set ns" "i \<notin> fst ` set ms" using assms(1) s by (auto simp: reply_inv_def)
  have h: "Hole i \<notin> set (concat (map node_items xs))" if "i \<notin> fst ` set xs" for xs
  proof
    assume "Hole i \<in> set (concat (map node_items xs))"
    then obtain j v where "(j, v) \<in> set xs" "Hole i \<in> set (node_items (j, v))" by auto
    then have "(i, None) \<in> set xs" by (cases v) auto
    with that show False by force
  qed
  have n: "Hole i \<notin> set (?st @ concat (map node_items ns))" using h [OF d(1)] by auto
  have "(?st @ concat (map node_items ns)) @ Hole i # concat (map node_items ms) = pre @ Hole i # post"
    using assms(2) s by (simp add: flat_def)
  then have "pre = ?st @ concat (map node_items ns)" "post = concat (map node_items ms)"
    unfolding append_Cons_eq_iff [OF n h [OF d(2)]] by auto
  with s d show ?thesis by (intro exI [of _ ns] exI [of _ ms]) simp
qed

text \<open>\<open>c'\<close> has the pending output \<open>xs\<close>, and at most \<open>k\<close> more bytes of blocks than \<open>c\<close>.\<close>

definition becomes :: "'a client_scheme \<Rightarrow> item list \<Rightarrow> nat \<Rightarrow> 'a client_scheme \<Rightarrow> bool" where
  "becomes c xs k c' \<longleftrightarrow> reply_inv c' \<and> flat c' = xs \<and> blocks_size c' \<le> blocks_size c + k
     \<and> same_client c c' \<and> c_sentlen c' = c_sentlen c \<and> c_next_node c \<le> c_next_node c'"

lemma grows_becomes: "grows c xs k c' \<longleftrightarrow> becomes c (flat c @ xs) k c'"
  by (simp add: grows_def becomes_def)

lemma becomes_same_output: "becomes c xs k c' \<Longrightarrow> same_output c' c'' \<Longrightarrow> becomes c xs k c''"
  using same_output_inv [of c' c''] by (auto simp: becomes_def same_output_def flat_def blocks_size_def same_client_def)

lemma becomes_nodes:
  assumes "reply_inv c" "\<forall>(i, v) \<in> set ns. i < c_next_node c \<and> (\<forall>b. v = Some b \<longrightarrow> blk_inv b)" "distinct (map fst ns)"
    "r = sum_list (map node_size ns)" "r \<le> blocks_size c + k" "r < 2 ^ 63"
    "sent_ok (c\<lparr>c_reply := ns, c_reply_bytes := r\<rparr>)"
  shows "becomes c (map Byte (take (c_bufpos c) (c_buf c)) @ concat (map node_items ns)) k (c\<lparr>c_reply := ns, c_reply_bytes := r\<rparr>)"
  using assms unfolding becomes_def reply_inv_def flat_def blocks_size_def same_client_def by simp

lemma sent_ok_fill:
  assumes "sent_ok c" "c_reply c = ns @ (i, None) # ms" "0 < blk_used b"
  shows "sent_ok (c\<lparr>c_reply := ns @ (j, Some b) # ms', c_reply_bytes := r\<rparr>)"
  using assms by (cases ns) (auto simp: sent_ok_def split: option.splits)

lemma avail_eq:
  assumes "reply_inv c" "(i, Some b) \<in> set (c_reply c)"
  shows "nat ((int (blk_size b) - int (blk_used b)) mod 2 ^ 64) = blk_size b - blk_used b"
proof -
  have "blk_used b \<le> blk_size b" using assms by (auto simp: reply_inv_def blk_inv_def)
  moreover have "blk_size b \<le> blocks_size c"
    using assms(2) member_le_sum_list [of "node_size (i, Some b)" "map node_size (c_reply c)"]
    by (force simp: blocks_size_def)
  then have "blk_size b < 2 ^ 63" using assms(1) by (simp add: reply_inv_def)
  ultimately show ?thesis by simp
qed

lemma setDeferred_eval:
  assumes "c_reply c = ns @ (i, None) # ms" "node_pos i (c_reply c) = Some (length ns)"
    "l = ch CHR ''*'' # dec_int n @ crlf"
  shows "setDeferredMultiBulkLength env c (Some i) n =
    (if (case ms of (_, Some b) # _ \<Rightarrow> nat ((int (blk_size b) - int (blk_used b)) mod 2 ^ 64) \<ge> length l
          \<and> blk_used b < PROTO_REPLY_CHUNK_BYTES * 4 | _ \<Rightarrow> False)
     then do {
       b \<leftarrow> glue_block (the (snd (hd ms))) l;
       asyncCloseClientOnOutputBufferLimitReached env (c\<lparr>c_reply := ns @ (fst (hd ms), Some b) # tl ms\<rparr>) }
     else do {
       b \<leftarrow> new_block env (length l) l;
       asyncCloseClientOnOutputBufferLimitReached env
         (c\<lparr>c_reply := ns @ (i, Some b) # ms, c_reply_bytes := (c_reply_bytes c + blk_size b) mod 2 ^ 64\<rparr>) })"
  unfolding setDeferredMultiBulkLength_def assms(3) [symmetric] Let_def option.case assms(2) Option.bind.simps
  unfolding assms(1)
  by (cases ms; cases "snd (hd ms)"; cases "hd ms") (simp_all add: nth_append list_update_append)

lemma setDeferred_ok:
  assumes inv: "reply_inv c" and tight: "tight env" and fl: "flat c = pre @ Hole i # post"
    and l: "l = ch CHR ''*'' # dec_int n @ crlf" and room: "blocks_size c + (2 * length l + 16) < 2 ^ 63"
  shows "\<exists>c'. setDeferredMultiBulkLength env c (Some i) n = Some c' \<and> becomes c (pre @ map Byte l @ post) (2 * length l + 16) c'"
proof -
  let ?st = "map Byte (take (c_bufpos c) (c_buf c))"
  from flat_split [OF inv fl] obtain ns ms where
    s: "c_reply c = ns @ (i, None) # ms" "i \<notin> fst ` set ns" "pre = ?st @ concat (map node_items ns)"
      "post = concat (map node_items ms)" by blast
  have pos: "node_pos i (c_reply c) = Some (length ns)" using s(1,2) node_pos_split by metis
  have ok: "sent_ok c" "c_reply_bytes c = blocks_size c" "distinct (map fst (c_reply c))"
    "\<forall>(j, v) \<in> set (c_reply c). j < c_next_node c \<and> (\<forall>b. v = Some b \<longrightarrow> blk_inv b)"
    using inv by (simp_all add: reply_inv_def)
  show ?thesis
  proof (cases "\<exists>j b ms'. ms = (j, Some b) # ms' \<and> length l \<le> blk_size b - blk_used b \<and> blk_used b < PROTO_REPLY_CHUNK_BYTES * 4")
    case True
    then obtain j b ms' where b: "ms = (j, Some b) # ms'" "length l \<le> blk_size b - blk_used b" "blk_used b < PROTO_REPLY_CHUNK_BYTES * 4"
      by blast
    then have bi: "blk_inv b" using ok(4) s(1) by auto
    from glue_block_ok [OF bi b(2)] obtain b' where
      b': "glue_block b l = Some b'" "blk_inv b'" "blk_bytes b' = l @ blk_bytes b" "blk_size b' = blk_size b" by blast
    let ?c = "c\<lparr>c_reply := ns @ (j, Some b') # ms', c_reply_bytes := c_reply_bytes c\<rparr>"
    have ev: "setDeferredMultiBulkLength env c (Some i) n = asyncCloseClientOnOutputBufferLimitReached env ?c"
      using b avail_eq [OF inv, of j b] s(1) b'(1) by (simp add: setDeferred_eval [OF s(1) pos l])
    have "becomes c (?st @ concat (map node_items (ns @ (j, Some b') # ms'))) (2 * length l + 16) ?c"
    proof (rule becomes_nodes [OF inv])
      show "sent_ok ?c" using b'(2) by (intro sent_ok_fill [OF ok(1) s(1)]) (simp add: blk_inv_def)
      show "c_reply_bytes c = sum_list (map node_size (ns @ (j, Some b') # ms'))"
        using ok(2) by (simp add: blocks_size_def s(1) b(1) b'(4))
    qed (use ok inv b' in \<open>auto simp: s(1) b(1) reply_inv_def\<close>)
    then have bc: "becomes c (pre @ map Byte l @ post) (2 * length l + 16) ?c"
      by (simp add: s(3,4) b(1) b'(3))
    then have "reply_inv ?c" by (simp add: becomes_def)
    from async_close_ok [OF this, of env] ev becomes_same_output [OF bc] show ?thesis by metis
  next
    case False
    have "l \<noteq> []" by (simp add: l)
    from new_block_ok [OF tight this order_refl] obtain b where
      b: "new_block env (length l) l = Some b" "blk_inv b" "blk_bytes b = l" "blk_size b \<le> 2 * length l + 16" by blast
    let ?c = "c\<lparr>c_reply := ns @ (i, Some b) # ms, c_reply_bytes := (c_reply_bytes c + blk_size b) mod 2 ^ 64\<rparr>"
    have ev: "setDeferredMultiBulkLength env c (Some i) n = asyncCloseClientOnOutputBufferLimitReached env ?c"
    proof -
      have "\<not> (case ms of (_, Some b) # _ \<Rightarrow> nat ((int (blk_size b) - int (blk_used b)) mod 2 ^ 64) \<ge> length l
          \<and> blk_used b < PROTO_REPLY_CHUNK_BYTES * 4 | _ \<Rightarrow> False)"
      proof (cases ms)
        case (Cons x ms')
        then show ?thesis using False avail_eq [OF inv, of "fst x" "the (snd x)"] s(1) by (cases "snd x"; cases x) auto
      qed simp
      then show ?thesis using b(1) by (simp add: setDeferred_eval [OF s(1) pos l])
    qed
    have r: "(c_reply_bytes c + blk_size b) mod 2 ^ 64 = blocks_size c + blk_size b" using ok(2) room b(4) by simp
    have "becomes c (?st @ concat (map node_items (ns @ (i, Some b) # ms))) (2 * length l + 16) ?c"
    proof (rule becomes_nodes [OF inv])
      show "sent_ok ?c" using b(2) by (intro sent_ok_fill [OF ok(1) s(1)]) (simp add: blk_inv_def)
    qed (use ok room b in \<open>auto simp: s(1) r blocks_size_def\<close>)
    then have bc: "becomes c (pre @ map Byte l @ post) (2 * length l + 16) ?c"
      by (simp add: s(3,4) b(3))
    then have "reply_inv ?c" by (simp add: becomes_def)
    from async_close_ok [OF this, of env] ev becomes_same_output [OF bc] show ?thesis by metis
  qed
qed

section \<open>Replies as trees\<close>

datatype reply =
    RStatus "byte list" | RError "byte list" | RInt int | RBulk strobj | RBuffer "byte list" | RNull
  | RArray "reply list"  \<comment> \<open>length known in advance\<close>
  | RDeferred "reply list"  \<comment> \<open>length filled in at the end\<close>

text \<open>The encoding of the protocol.\<close>

fun resp :: "reply \<Rightarrow> byte list" where
  "resp (RStatus s) = ch CHR ''+'' # s @ crlf"
| "resp (RError s) = (if s = [] \<or> hd s \<noteq> ch CHR ''-'' then bytes_of ''-ERR '' else []) @ s @ crlf"
| "resp (RInt z) = ch CHR '':'' # dec_int z @ crlf"
| "resp (RBulk o1) = ch CHR ''$'' # dec (length (obj_bytes o1)) @ crlf @ obj_bytes o1 @ crlf"
| "resp (RBuffer p) = ch CHR ''$'' # dec (length p) @ crlf @ p @ crlf"
| "resp RNull = bytes_of ''$-1'' @ crlf"
| "resp (RArray rs) = ch CHR ''*'' # dec (length rs) @ crlf @ concat (map resp rs)"
| "resp (RDeferred rs) = ch CHR ''*'' # dec (length rs) @ crlf @ concat (map resp rs)"

fun emit :: "reply_env \<Rightarrow> reply \<Rightarrow> 'a client_scheme \<Rightarrow> 'a client_scheme option"
  and emits :: "reply_env \<Rightarrow> reply list \<Rightarrow> 'a client_scheme \<Rightarrow> 'a client_scheme option" where
  "emit env (RStatus s) c = addReplyStatusLength env c s"
| "emit env (RError s) c = addReplyErrorLength env c s"
| "emit env (RInt z) c = addReplyLongLong env c z"
| "emit env (RBulk o1) c = addReplyBulk env c o1"
| "emit env (RBuffer p) c = addReplyBulkCBuffer env c p"
| "emit env RNull c = addReplyBulkCString env c None"
| "emit env (RArray rs) c = do { c \<leftarrow> addReplyMultiBulkLen env c (int (length rs)); emits env rs c }"
| "emit env (RDeferred rs) c =
     (let (node, c) = addDeferredMultiBulkLength c in do {
        c \<leftarrow> emits env rs c;
        setDeferredMultiBulkLength env c node (int (length rs)) })"
| "emits env [] c = Some c"
| "emits env (r # rs) c = do { c \<leftarrow> emit env r c; emits env rs c }"

text \<open>Integers and lengths of the C types.\<close>

fun reply_ok :: "reply \<Rightarrow> bool" where
  "reply_ok (RInt z) \<longleftrightarrow> LLONG_MIN \<le> z \<and> z \<le> LLONG_MAX"
| "reply_ok (RBulk o1) \<longleftrightarrow> length (obj_bytes o1) < 2 ^ 62"
| "reply_ok (RBuffer p) \<longleftrightarrow> length p < 2 ^ 62"
| "reply_ok (RArray rs) \<longleftrightarrow> length rs < 2 ^ 62 \<and> (\<forall>r \<in> set rs. reply_ok r)"
| "reply_ok (RDeferred rs) \<longleftrightarrow> length rs < 2 ^ 62 \<and> (\<forall>r \<in> set rs. reply_ok r)"
| "reply_ok _ \<longleftrightarrow> True"

text \<open>A bound for the memory a reply takes.\<close>

fun tnodes :: "reply \<Rightarrow> nat" where
  "tnodes (RArray rs) = 1 + sum_list (map tnodes rs)"
| "tnodes (RDeferred rs) = 1 + sum_list (map tnodes rs)"
| "tnodes _ = 1"

definition tcost :: "reply \<Rightarrow> nat" where
  "tcost r = 2 * length (resp r) + 300000 * tnodes r"

lemma deferred_appends:
  assumes "appends (emits env rs :: 'a client_scheme \<Rightarrow> _) x k" "tight env"
  shows "appends (emit env (RDeferred rs) :: 'a client_scheme \<Rightarrow> _) (ch CHR ''*'' # dec (length rs) @ crlf @ x) (k + (2 * length (dec (length rs)) + 22))"
  unfolding appends_def
proof (intro allI impI)
  fix c :: "'a client_scheme"
  let ?l = "ch CHR ''*'' # dec_int (int (length rs)) @ crlf"
  have l: "?l = ch CHR ''*'' # dec (length rs) @ crlf" by (simp add: dec_int_def)
  assume c: "reply_inv c \<and> accepting c \<and> blocks_size c + (k + (2 * length (dec (length rs)) + 22)) < 2 ^ 63"
  then obtain i c1 where c1: "addDeferredMultiBulkLength c = (Some i, c1)" "grows c [Hole i] 0 c1"
    using addDeferred_ok [of c] by blast
  then have "reply_inv c1" "accepting c1" "blocks_size c1 + k < 2 ^ 63"
    using c grows_accepting [OF c1(2)] by (auto simp: grows_def)
  from appendsD [OF assms(1) this] obtain c2 where c2: "emits env rs c1 = Some c2" "grows c1 (map Byte x) k c2" by blast
  from grows_trans [OF c1(2) c2(2)] have g2: "grows c (Hole i # map Byte x) k c2" by simp
  have "reply_inv c2" "flat c2 = flat c @ Hole i # map Byte x" "blocks_size c2 + (2 * length ?l + 16) < 2 ^ 63"
    using g2 c unfolding l by (auto simp: grows_def)
  from setDeferred_ok [OF this(1) assms(2) this(2) refl this(3)] obtain c3 where
    c3: "setDeferredMultiBulkLength env c2 (Some i) (int (length rs)) = Some c3"
      "becomes c2 (flat c @ map Byte ?l @ map Byte x) (2 * length ?l + 16) c3" by blast
  have "becomes c (flat c @ map Byte (?l @ x)) (k + (2 * length ?l + 16)) c3"
    using c3(2) g2 by (auto simp: becomes_def grows_def same_client_def)
  then show "\<exists>c'. emit env (RDeferred rs) c = Some c'
      \<and> grows c (map Byte (ch CHR ''*'' # dec (length rs) @ crlf @ x)) (k + (2 * length (dec (length rs)) + 22)) c'"
    using c1(1) c2(1) c3(1) unfolding grows_becomes l by (simp add: add.commute)
qed

lemma emits_appends:
  assumes "\<forall>r \<in> set rs. appends (emit env r :: 'a client_scheme \<Rightarrow> _) (resp r) (tcost r)"
  shows "appends (emits env rs :: 'a client_scheme \<Rightarrow> _) (concat (map resp rs)) (sum_list (map tcost rs))"
  using assms
proof (induction rs)
  case Nil
  have "emits env [] = (Some :: 'a client_scheme \<Rightarrow> _)" by (rule ext) simp
  then show ?case using appends_Some by simp
next
  case (Cons r rs)
  have "emits env (r # rs) = (\<lambda>c :: 'a client_scheme. do { c \<leftarrow> emit env r c; emits env rs c })" by (rule ext) simp
  moreover have "appends (\<lambda>c :: 'a client_scheme. do { c \<leftarrow> emit env r c; emits env rs c })
      (resp r @ concat (map resp rs)) (tcost r + sum_list (map tcost rs))"
    using Cons by (intro appends_bind) auto
  ultimately show ?case by simp
qed

lemma sum_tcost:
  "sum_list (map tcost rs) = 2 * length (concat (map resp rs)) + 300000 * sum_list (map tnodes rs)"
  by (induction rs) (simp_all add: tcost_def algebra_simps)

lemma emit_fun:
  "emit env (RStatus s) = (\<lambda>c :: 'a client_scheme. addReplyStatusLength env c s)"
  "emit env (RError s) = (\<lambda>c :: 'a client_scheme. addReplyErrorLength env c s)"
  "emit env (RInt z) = (\<lambda>c :: 'a client_scheme. addReplyLongLong env c z)"
  "emit env (RBulk o1) = (\<lambda>c :: 'a client_scheme. addReplyBulk env c o1)"
  "emit env (RBuffer p) = (\<lambda>c :: 'a client_scheme. addReplyBulkCBuffer env c p)"
  "emit env RNull = (\<lambda>c :: 'a client_scheme. addReply env c shared_nullbulk)"
  "emit env (RArray rs) = (\<lambda>c :: 'a client_scheme. do { c \<leftarrow> addReplyMultiBulkLen env c (int (length rs)); emits env rs c })"
  by (rule ext, simp add: addReplyBulkCString_def)+

lemma emit_appends:
  assumes "tight env"
  shows "reply_ok r \<Longrightarrow> appends (emit env r :: 'a client_scheme \<Rightarrow> _) (resp r) (tcost r)"
proof (induction r)
  case (RStatus s)
  show ?case unfolding emit_fun by (rule appends_conv [OF status_appends [OF assms]]) (auto simp: tcost_def ecost_def)
next
  case (RError s)
  show ?case unfolding emit_fun by (rule appends_conv [OF error_appends [OF assms]]) (auto simp: tcost_def ecost_def)
next
  case (RInt z)
  then show ?case unfolding emit_fun by (intro appends_conv [OF integer_appends [OF assms]]) (auto simp: tcost_def ecost_def)
next
  case (RBulk o1)
  then show ?case unfolding emit_fun by (intro appends_conv [OF bulk_appends [OF assms]]) (auto simp: tcost_def ecost_def)
next
  case (RBuffer p)
  then show ?case unfolding emit_fun by (intro appends_conv [OF buffer_appends [OF assms]]) (auto simp: tcost_def ecost_def)
next
  case RNull
  show ?case unfolding emit_fun by (rule appends_conv [OF addReply_appends [OF assms]]) (auto simp: tcost_def wcost_def)
next
  case (RArray rs)
  then have "appends (emits env rs :: 'a client_scheme \<Rightarrow> _) (concat (map resp rs)) (sum_list (map tcost rs))"
    by (intro emits_appends) auto
  moreover have "appends (\<lambda>c :: 'a client_scheme. addReplyMultiBulkLen env c (int (length rs)))
      (ch CHR ''*'' # dec_int (int (length rs)) @ crlf) (ecost (ch CHR ''*'' # dec_int (int (length rs)) @ crlf))"
    using RArray(2) by (intro multibulk_appends [OF assms]) (auto simp: LLONG_MAX_def)
  ultimately show ?case unfolding emit_fun
    by (intro appends_conv [OF appends_bind]) (auto simp: tcost_def ecost_def sum_tcost dec_int_def)
next
  case (RDeferred rs)
  then have "appends (emits env rs :: 'a client_scheme \<Rightarrow> _) (concat (map resp rs)) (sum_list (map tcost rs))"
    by (intro emits_appends) auto
  from deferred_appends [OF this assms] show ?case
    by (rule appends_conv) (auto simp: tcost_def sum_tcost)
qed

section \<open>Writing\<close>

definition pend :: "'a client_scheme \<Rightarrow> item list" where
  "pend c = drop (c_sentlen c) (flat c)"

definition filled :: "'a client_scheme \<Rightarrow> bool" where
  "filled c \<longleftrightarrow> (\<forall>(i, v) \<in> set (c_reply c). v \<noteq> None)"

lemma to_send_buf:
  assumes "reply_inv c" "c_bufpos c > 0"
  shows "to_send c = Some (drop (c_sentlen c) (take (c_bufpos c) (c_buf c)))"
    "c_sentlen c < c_bufpos c" "c_bufpos c \<le> length (c_buf c)"
    "pend c = map Byte (drop (c_sentlen c) (take (c_bufpos c) (c_buf c))) @ concat (map node_items (c_reply c))"
proof -
  show b: "c_sentlen c < c_bufpos c" "c_bufpos c \<le> length (c_buf c)"
    using assms by (auto simp: reply_inv_def sent_ok_def PROTO_REPLY_CHUNK_BYTES_def)
  have "c_bufpos c \<le> 16384" using assms(1) by (auto simp: reply_inv_def PROTO_REPLY_CHUNK_BYTES_def)
  with b have e: "nat ((int (c_bufpos c) - int (c_sentlen c)) mod 2 ^ 64) = c_bufpos c - c_sentlen c" by simp
  show "to_send c = Some (drop (c_sentlen c) (take (c_bufpos c) (c_buf c)))"
    unfolding to_send_def e using b assms(2) by (simp add: read_at_def drop_take)
  show "pend c = map Byte (drop (c_sentlen c) (take (c_bufpos c) (c_buf c))) @ concat (map node_items (c_reply c))"
    using b by (simp add: pend_def flat_def drop_map)
qed

lemma to_send_blk:
  assumes "reply_inv c" "c_bufpos c = 0" "c_reply c = (i, Some b) # ns"
  shows "to_send c = Some (drop (c_sentlen c) (blk_bytes b))" "c_sentlen c < blk_used b" "length (blk_bytes b) = blk_used b"
    "pend c = map Byte (drop (c_sentlen c) (blk_bytes b)) @ concat (map node_items ns)"
proof -
  have b: "blk_used b \<le> length (blk_buf b)" "blk_used b \<le> blk_size b"
    using assms by (auto simp: reply_inv_def blk_inv_def)
  show s: "c_sentlen c < blk_used b" "length (blk_bytes b) = blk_used b"
    using assms b by (auto simp: reply_inv_def sent_ok_def blk_bytes_def)
  have "blk_size b < 2 ^ 63" using assms by (simp add: reply_inv_def blocks_size_def)
  then have e: "nat ((int (blk_used b) - int (c_sentlen c)) mod 2 ^ 64) = blk_used b - c_sentlen c" using b s by simp
  show "to_send c = Some (drop (c_sentlen c) (blk_bytes b))"
    unfolding to_send_def assms(2,3) list.sel snd_conv Option.bind.simps e
    using b s by (simp add: read_at_def drop_take blk_bytes_def)
  show "pend c = map Byte (drop (c_sentlen c) (blk_bytes b)) @ concat (map node_items ns)"
    using b s assms by (simp add: pend_def flat_def drop_map)
qed

lemma pending_blk:
  assumes "filled c" "clientHasPendingReplies c" "c_bufpos c = 0"
  obtains i b ns where "c_reply c = (i, Some b) # ns"
  using assms by (cases "c_reply c") (auto simp: clientHasPendingReplies_def filled_def)

lemma to_send_ok:
  assumes "reply_inv c" "filled c" "clientHasPendingReplies c"
  shows "\<exists>data rest. to_send c = Some data \<and> data \<noteq> [] \<and> pend c = map Byte data @ rest"
proof (cases "c_bufpos c > 0")
  case True
  then show ?thesis using to_send_buf [OF assms(1) True] by simp
next
  case False
  with assms(2,3) obtain i b ns where r: "c_reply c = (i, Some b) # ns" using pending_blk by blast
  with to_send_blk [OF assms(1) _ r] False show ?thesis by simp
qed

lemma sent_ok_zero: "c_bufpos c = 0 \<Longrightarrow> c_sentlen c = 0 \<Longrightarrow> \<forall>(i, v) \<in> set (c_reply c). \<forall>b. v = Some b \<longrightarrow> blk_inv b \<Longrightarrow> sent_ok c"
  by (auto simp: sent_ok_def blk_inv_def split: list.split option.split)

lemma after_send_ok:
  assumes "reply_inv c" "filled c" "clientHasPendingReplies c" "to_send c = Some data" "0 < n" "n \<le> length data"
  shows "\<exists>c'. after_send n c = Some c' \<and> reply_inv c' \<and> filled c' \<and> pend c' = drop n (pend c) \<and> same_client c c'
    \<and> c_flags c' = c_flags c \<and> blocks_size c' \<le> blocks_size c"
proof (cases "c_bufpos c > 0")
  case True
  note b = to_send_buf [OF assms(1) True]
  have n: "c_sentlen c + n \<le> c_bufpos c" using assms(4,6) b(1-3) by auto
  show ?thesis
  proof (cases "c_sentlen c + n = c_bufpos c")
    case e: True
    let ?c = "c\<lparr>c_bufpos := 0, c_sentlen := 0\<rparr>"
    have "sent_ok ?c" using assms(1) by (intro sent_ok_zero) (auto simp: reply_inv_def)
    then have "reply_inv ?c" using assms(1) by (simp add: reply_inv_def blocks_size_def)
    moreover have "pend ?c = drop n (pend c)" unfolding b(4) using e b(3) by (simp add: pend_def flat_def)
    ultimately show ?thesis using e True assms(2)
      by (simp add: after_send_def filled_def same_client_def blocks_size_def)
  next
    case ne: False
    let ?c = "c\<lparr>c_sentlen := c_sentlen c + n\<rparr>"
    have "reply_inv ?c" using assms(1) True ne n by (simp add: reply_inv_def sent_ok_def blocks_size_def)
    moreover have "flat ?c = flat c" by (simp add: flat_def)
    then have "pend ?c = drop n (pend c)" by (simp add: pend_def add.commute)
    ultimately show ?thesis using ne True assms(2)
      by (simp add: after_send_def filled_def same_client_def blocks_size_def)
  qed
next
  case False
  then have z: "c_bufpos c = 0" by simp
  obtain i b ns where r: "c_reply c = (i, Some b) # ns" using pending_blk [OF assms(2,3) z] by blast
  note b = to_send_blk [OF assms(1) z r]
  have n: "c_sentlen c + n \<le> blk_used b" using assms(4,6) b(1-3) by auto
  have rb: "c_reply_bytes c = blk_size b + sum_list (map node_size ns)" "c_reply_bytes c < 2 ^ 63"
    using assms(1) r by (auto simp: reply_inv_def blocks_size_def)
  show ?thesis
  proof (cases "c_sentlen c + n = blk_used b")
    case e: True
    let ?c = "c\<lparr>c_sentlen := 0, c_reply := ns, c_reply_bytes := sum_list (map node_size ns)\<rparr>"
    have "sent_ok ?c" using assms(1) z r by (intro sent_ok_zero) (auto simp: reply_inv_def)
    then have "reply_inv ?c" using assms(1) r by (simp add: reply_inv_def blocks_size_def)
    moreover have "pend ?c = drop n (pend c)" unfolding b(4) using e b(3) z by (simp add: pend_def flat_def)
    moreover have "nat ((int (c_reply_bytes c) - int (blk_size b)) mod 2 ^ 64) = sum_list (map node_size ns)"
      using rb by simp
    then have "after_send n c = Some ?c"
      using e z r by (auto simp: after_send_def del_first_def Let_def)
    ultimately show ?thesis using e z assms(2) r
      by (simp add: filled_def same_client_def blocks_size_def)
  next
    case ne: False
    let ?c = "c\<lparr>c_sentlen := c_sentlen c + n\<rparr>"
    have "reply_inv ?c" using assms(1) z ne n r by (simp add: reply_inv_def sent_ok_def blocks_size_def)
    moreover have "flat ?c = flat c" by (simp add: flat_def)
    then have "pend ?c = drop n (pend c)" by (simp add: pend_def add.commute)
    ultimately show ?thesis using ne z assms(2) r
      by (simp add: after_send_def filled_def same_client_def blocks_size_def)
  qed
qed

text \<open>\<^verbatim>\<open>write\<close> takes at most the bytes it is offered.\<close>

definition legal_write :: "(nat \<Rightarrow> nat \<Rightarrow> write_result) \<Rightarrow> bool" where
  "legal_write wr \<longleftrightarrow> (\<forall>k n m. wr k n = Wrote m \<longrightarrow> m \<le> n)"

lemma write_loop_ok:
  assumes "legal_write wr" "reply_inv c" "filled c"
  shows "\<exists>r data c'. write_loop wr below k nw sent c = Some (r, sent @ data, c') \<and> reply_inv c' \<and> filled c'
    \<and> pend c = map Byte data @ pend c' \<and> same_client c c' \<and> c_flags c' = c_flags c \<and> blocks_size c' \<le> blocks_size c"
  using assms(2,3)
proof (induction "length (pend c)" arbitrary: c k nw sent rule: less_induct)
  case less
  show ?case
  proof (cases "clientHasPendingReplies c")
    case False
    then show ?thesis using less(2,3) by (subst write_loop.simps) (simp add: same_client_def)
  next
    case True
    from to_send_ok [OF less(2,3) True] obtain data rest where
      d: "to_send c = Some data" "data \<noteq> []" "pend c = map Byte data @ rest" by blast
    have u: "\<not> (c_bufpos c = 0 \<and> (case snd (hd (c_reply c)) of None \<Rightarrow> False | Some b \<Rightarrow> blk_used b = 0))"
      using less(2) True by (cases "c_reply c") (auto simp: reply_inv_def blk_inv_def clientHasPendingReplies_def split: option.splits)
    show ?thesis
    proof (cases "\<exists>n. wr k (length data) = Wrote n \<and> 0 < n")
      case wrote: True
      then obtain n where n: "wr k (length data) = Wrote n" "0 < n" "n \<le> length data"
        using assms(1) by (auto simp: legal_write_def)
      from after_send_ok [OF less(2,3) True d(1) n(2,3)] obtain c1 where
        c1: "after_send n c = Some c1" "reply_inv c1" "filled c1" "pend c1 = drop n (pend c)" "same_client c c1"
          "c_flags c1 = c_flags c" "blocks_size c1 \<le> blocks_size c" by blast
      have "take n (pend c) = map Byte (take n data)" using d(3) n(3) by (simp add: take_map)
      then have split: "pend c = map Byte (take n data) @ pend c1"
        using append_take_drop_id [of n "pend c"] c1(4) by simp
      have sh: "length (pend c1) < length (pend c)" using c1(4) d(2,3) n(2,3) by simp
      from less(1) [OF sh c1(2,3), of "k + 1" "Wrote n" "sent @ take n data"] obtain r data' c2 where
        c2: "write_loop wr below (k + 1) (Wrote n) (sent @ take n data) c1 = Some (r, (sent @ take n data) @ data', c2)"
          "reply_inv c2" "filled c2" "pend c1 = map Byte data' @ pend c2" "same_client c1 c2" "c_flags c2 = c_flags c1"
          "blocks_size c2 \<le> blocks_size c1" by blast
      show ?thesis
      proof (cases "length (sent @ take n data) > NET_MAX_WRITES_PER_EVENT \<and> below k \<and> CLIENT_SLAVE \<notin> c_flags c1")
        case stop: True
        then have "write_loop wr below k nw sent c = Some (Wrote n, sent @ take n data, c1)"
          using True u d(1) n(1,2) c1(1) by (subst write_loop.simps) (auto simp: Let_def)
        with c1 split show ?thesis by blast
      next
        case go: False
        then have "write_loop wr below k nw sent c = Some (r, sent @ (take n data @ data'), c2)"
          using True u d(1) n(1,2) c1(1) c2(1) by (subst write_loop.simps) (auto simp: Let_def)
        moreover have "pend c = map Byte (take n data @ data') @ pend c2" using split c2(4) by simp
        moreover have "same_client c c2" using c1(5) c2(5) by (simp add: same_client_def)
        moreover have "c_flags c2 = c_flags c" "blocks_size c2 \<le> blocks_size c" using c1(6,7) c2(6,7) by simp_all
        ultimately show ?thesis using c2(2,3) by blast
      qed
    next
      case False
      then have "\<exists>r. write_loop wr below k nw sent c = Some (r, sent, c)"
        using True u d(1) by (subst write_loop.simps) (auto split: write_result.split)
      with less(2,3) show ?thesis by (auto simp: same_client_def)
    qed
  qed
qed

lemma writeToClient_ok:
  assumes "legal_write wr" "reply_inv c" "filled c"
  shows "\<exists>sent r. writeToClient env wr below c h = Some (sent, r) \<and> (\<exists>rest. pend c = map Byte sent @ rest
    \<and> (\<forall>c'. r = Some c' \<longrightarrow> reply_inv c' \<and> filled c' \<and> rest = pend c' \<and> same_client c c' \<and> blocks_size c' \<le> blocks_size c))"
proof -
  from write_loop_ok [OF assms, of below 0 "Wrote 0" "[]"] obtain r data c1 where
    c1: "write_loop wr below 0 (Wrote 0) [] c = Some (r, data, c1)" "reply_inv c1" "filled c1"
      "pend c = map Byte data @ pend c1" "same_client c c1" "blocks_size c1 \<le> blocks_size c" by auto
  have z: "c_sentlen c1 = 0" if "\<not> clientHasPendingReplies c1"
    using c1(2) that by (auto simp: clientHasPendingReplies_def reply_inv_def sent_ok_def)
  have same: "reply_inv c' \<and> filled c' \<and> pend c1 = pend c' \<and> same_client c c' \<and> blocks_size c' \<le> blocks_size c"
    if "same_output c1 c'" for c'
  proof -
    have "reply_inv c'" using same_output_inv [OF that] c1(2) by simp
    with that c1 show ?thesis
      by (simp add: same_output_def filled_def pend_def flat_def blocks_size_def) (simp add: same_client_def)
  qed
  define c2 where "c2 = (if length data > 0 \<and> CLIENT_MASTER \<notin> c_flags c1 then c1\<lparr>c_lastinteraction := unixtime env\<rparr> else c1)"
  define c3 where "c3 = c2\<lparr>c_sentlen := 0, c_write_handler := (if h then False else c_write_handler c2)\<rparr>"
  have p: "clientHasPendingReplies c2 = clientHasPendingReplies c1" by (simp add: c2_def clientHasPendingReplies_def)
  have so: "same_output c1 c2" "\<not> clientHasPendingReplies c1 \<Longrightarrow> same_output c1 c3"
    using z by (auto simp: c2_def c3_def same_output_def same_client_def)
  define q where "q = (if r = WriteError then None
      else if clientHasPendingReplies c1 then Some c2
      else if CLIENT_CLOSE_AFTER_REPLY \<in> c_flags c3 then None else Some c3)"
  have "writeToClient env wr below c h = Some (data, q)"
    unfolding writeToClient_def c1(1) Option.bind.simps prod.case c2_def [symmetric] Let_def c3_def [symmetric] p q_def by simp
  moreover have "reply_inv c' \<and> filled c' \<and> pend c1 = pend c' \<and> same_client c c' \<and> blocks_size c' \<le> blocks_size c"
    if "q = Some c'" for c'
    using that same [OF so(1)] same [OF so(2)] unfolding q_def by (auto split: if_splits)
  ultimately show ?thesis using c1(4) by blast
qed

text \<open>A sequence of replies and of attempts to write, with the bytes sent.\<close>

datatype out_op = OutReply reply | OutFlush "nat \<Rightarrow> nat \<Rightarrow> write_result" "nat \<Rightarrow> bool"

fun out_run :: "reply_env \<Rightarrow> out_op list \<Rightarrow> 'a client_scheme \<Rightarrow> (byte list \<times> 'a client_scheme option) option" where
  "out_run env [] c = Some ([], Some c)"
| "out_run env (OutReply r # ops) c = do { c \<leftarrow> emit env r c; out_run env ops c }"
| "out_run env (OutFlush wr below # ops) c = do {
     (sent, r) \<leftarrow> writeToClient env wr below c False;
     (case r of
        None \<Rightarrow> Some (sent, None)
      | Some c \<Rightarrow> do { (sent', r) \<leftarrow> out_run env ops c; Some (sent @ sent', r) }) }"

fun out_bytes :: "out_op list \<Rightarrow> byte list" where
  "out_bytes [] = []"
| "out_bytes (OutReply r # ops) = resp r @ out_bytes ops"
| "out_bytes (OutFlush wr below # ops) = out_bytes ops"

fun out_cost :: "out_op list \<Rightarrow> nat" where
  "out_cost [] = 0"
| "out_cost (OutReply r # ops) = tcost r + out_cost ops"
| "out_cost (OutFlush wr below # ops) = out_cost ops"

fun out_ok :: "out_op \<Rightarrow> bool" where
  "out_ok (OutReply r) = reply_ok r"
| "out_ok (OutFlush wr below) = legal_write wr"

lemma grows_filled: "grows c (map Byte x) k c' \<Longrightarrow> filled c \<Longrightarrow> filled c'"
proof -
  assume g: "grows c (map Byte x) k c'" and f: "filled c"
  have h: "filled c \<longleftrightarrow> (\<forall>i. Hole i \<notin> set (flat c))" for c :: "'a client_scheme"
  proof
    assume "\<forall>i. Hole i \<notin> set (flat c)"
    have "v \<noteq> None" if "(i, v) \<in> set (c_reply c)" for i v
    proof
      assume "v = None"
      with that have "Hole i \<in> set (flat c)" by (auto simp: flat_def intro!: bexI [of _ "(i, None)"])
      with \<open>\<forall>i. Hole i \<notin> set (flat c)\<close> show False by blast
    qed
    then show "filled c" by (auto simp: filled_def)
  next
    assume f: "filled c"
    have "Hole i \<notin> set (node_items x)" if "x \<in> set (c_reply c)" for i x
      using f that by (cases x; cases "snd x") (auto simp: filled_def)
    then show "\<forall>i. Hole i \<notin> set (flat c)" by (auto simp: flat_def)
  qed
  show "filled c'" using g f unfolding h by (auto simp: grows_def)
qed

lemma out_run_ok:
  assumes "tight env" "\<forall>op \<in> set ops. out_ok op" "reply_inv c" "filled c" "accepting c"
    "blocks_size c + out_cost ops < 2 ^ 63"
  shows "\<exists>sent r. out_run env ops c = Some (sent, r) \<and> (\<exists>rest. pend c @ map Byte (out_bytes ops) = map Byte sent @ rest
    \<and> (\<forall>c'. r = Some c' \<longrightarrow> reply_inv c' \<and> rest = pend c'))"
  using assms(2-6)
proof (induction ops arbitrary: c)
  case Nil
  then show ?case by simp
next
  case (Cons op ops)
  show ?case
  proof (cases op)
    case (OutReply r)
    with Cons.prems obtain c1 where c1: "emit env r c = Some c1" "grows c (map Byte (resp r)) (tcost r) c1"
      using appendsD [OF emit_appends [OF assms(1)], of r c] by auto
    then have "filled c1" "accepting c1" "reply_inv c1" "blocks_size c1 + out_cost ops < 2 ^ 63"
      using grows_filled [OF c1(2)] grows_accepting [OF c1(2)] Cons.prems OutReply by (auto simp: grows_def)
    with Cons.IH [of c1] Cons.prems(1) obtain sent q rest where
      ih: "out_run env ops c1 = Some (sent, q)" "pend c1 @ map Byte (out_bytes ops) = map Byte sent @ rest"
        "\<forall>c'. q = Some c' \<longrightarrow> reply_inv c' \<and> rest = pend c'" by auto
    have "c_sentlen c \<le> length (flat c)"
      using Cons.prems(2) by (auto simp: reply_inv_def sent_ok_def flat_def blk_inv_def blk_bytes_def
          split: if_splits list.splits option.splits)
    then have "pend c1 = pend c @ map Byte (resp r)" using c1(2) by (simp add: pend_def grows_def)
    with ih c1(1) OutReply show ?thesis by auto
  next
    case (OutFlush wr below)
    with Cons.prems writeToClient_ok [of wr c env below False] obtain sent r rest where
      w: "writeToClient env wr below c False = Some (sent, r)" "pend c = map Byte sent @ rest"
        "\<forall>c'. r = Some c' \<longrightarrow> reply_inv c' \<and> filled c' \<and> rest = pend c' \<and> same_client c c' \<and> blocks_size c' \<le> blocks_size c"
      by auto
    show ?thesis
    proof (cases r)
      case None
      then show ?thesis using w OutFlush by auto
    next
      case (Some c1)
      with w(3) have c1: "reply_inv c1" "filled c1" "rest = pend c1" "same_client c c1" "blocks_size c1 \<le> blocks_size c" by auto
      with Cons.IH [of c1] Cons.prems OutFlush accepting_same [OF c1(4)] obtain sent' q rest' where
        "out_run env ops c1 = Some (sent', q)" "pend c1 @ map Byte (out_bytes ops) = map Byte sent' @ rest'"
        "\<forall>c'. q = Some c' \<longrightarrow> reply_inv c' \<and> rest' = pend c'" by fastforce
      with w Some c1(3) OutFlush show ?thesis by auto
    qed
  qed
qed

lemma createClient_ok:
  assumes "length buf0 = PROTO_REPLY_CHUNK_BYTES" "0 < fd"
  shows "reply_inv (createClient buf0 now fd)" "filled (createClient buf0 now fd)" "accepting (createClient buf0 now fd)"
    "blocks_size (createClient buf0 now fd) = 0" "pend (createClient buf0 now fd) = []"
  using assms
  by (simp_all add: createClient_def reply_inv_def filled_def accepting_def blocks_size_def pend_def flat_def sent_ok_def)

text \<open>C7: the output of a client is a first-in first-out stream: after any sequence of replies (nested arrays
  whose length is filled in later included) and of writes to the socket that accept any number
  of bytes each, the bytes sent followed by the bytes pending are the RESP encoding of the replies;
  when a write error frees the client, the bytes sent are a prefix of it. No buffer is overrun and no
  assertion fails, wherever the output crosses from the static buffer to the reply blocks.\<close>

theorem client_output_fifo:
  assumes "tight env" "0 < fd" "length buf0 = PROTO_REPLY_CHUNK_BYTES" "\<forall>op \<in> set ops. out_ok op" "out_cost ops < 2 ^ 63"
  shows "\<exists>sent r. out_run env ops (createClient buf0 now fd) = Some (sent, r)
    \<and> (case r of
         None \<Rightarrow> \<exists>rest. out_bytes ops = sent @ rest
       | Some c \<Rightarrow> map Byte (out_bytes ops) = map Byte sent @ pend c)"
proof -
  note c = createClient_ok [OF assms(3,2), of now]
  from out_run_ok [OF assms(1,4) c(1-3)] c(4,5) assms(5) obtain sent r rest where
    r: "out_run env ops (createClient buf0 now fd) = Some (sent, r)" "map Byte (out_bytes ops) = map Byte sent @ rest"
      "\<forall>c'. r = Some c' \<longrightarrow> reply_inv c' \<and> rest = pend c'" by auto
  from r(2) have "out_bytes ops = sent @ drop (length sent) (out_bytes ops)"
    by (metis append_take_drop_id append_eq_conv_conj length_map item.inject(1) list.inj_map_strong take_map)
  with r show ?thesis by (cases r) auto
qed

theorem client_output_fifo_witness:
  "\<exists>sent r. out_run \<lparr>slack = \<lambda>_. 0, obuf_limits = \<lambda>_. \<lparr>hard_limit_bytes = 0, soft_limit_bytes = 0, soft_limit_seconds = 0\<rparr>, unixtime = 5\<rparr>
      [OutReply (RDeferred [RInt 7, RNull]), OutFlush (\<lambda>k n. Wrote (min n 3)) (\<lambda>_. False)]
      (createClient (replicate 16384 0) 1 9) = Some (sent, r)
    \<and> (case r of
         None \<Rightarrow> \<exists>rest. out_bytes [OutReply (RDeferred [RInt 7, RNull]), OutFlush (\<lambda>k n. Wrote (min n 3)) (\<lambda>_. False)] = sent @ rest
       | Some c \<Rightarrow> map Byte (out_bytes [OutReply (RDeferred [RInt 7, RNull]), OutFlush (\<lambda>k n. Wrote (min n 3)) (\<lambda>_. False)])
           = map Byte sent @ pend c)"
  by (rule client_output_fifo)
    (auto simp: tight_def legal_write_def PROTO_REPLY_CHUNK_BYTES_def LLONG_MIN_def LLONG_MAX_def tcost_def dec_int_def dec_small)

end
