(* ===== verification/Client_Request.thy ===== *)
theory Client_Request
  imports Client_Reply_Refine Sds_Spec
begin

text \<open>
  The input side of a client, \<^verbatim>\<open>networking.c\<close>: the query buffer is an SDS string that is filled from the
  socket and parsed incrementally, by the inline or the multi-bulk parser, into argument vectors.
  \<^verbatim>\<open>processCommand\<close> is a parameter.
\<close>

section \<open>State\<close>

record rclient = client +
  q_buf :: sds
  q_pos :: nat
  q_peak :: nat
  q_reqtype :: nat
  q_argv :: "strobj list"
  q_argv_cap :: nat  \<comment> \<open>entries allocated for \<^verbatim>\<open>argv\<close>\<close>
  q_multibulklen :: int
  q_bulklen :: int
  q_pending :: sds
  q_reploff :: int
  q_read_reploff :: int
  q_repl_ack_time :: int
  q_asking :: bool  \<comment> \<open>\<^verbatim>\<open>c->cmd\<close> is \<^verbatim>\<open>askingCommand\<close>\<close>
  q_blocked_module :: bool

record request_env =
  e_reply :: reply_env
  e_junk :: "nat \<Rightarrow> byte"
  proto_max_bulk_len :: int
  client_max_querybuf_len :: nat
  clients_paused :: bool
  lua_timedout :: bool

definition PROTO_REQ_INLINE :: nat where "PROTO_REQ_INLINE = 1"
definition PROTO_REQ_MULTIBULK :: nat where "PROTO_REQ_MULTIBULK = 2"
definition PROTO_INLINE_MAX_SIZE :: nat where "PROTO_INLINE_MAX_SIZE = 65536"
definition PROTO_MBULK_BIG_ARG :: int where "PROTO_MBULK_BIG_ARG = 32768"
definition PROTO_IOBUF_LEN :: int where "PROTO_IOBUF_LEN = 16384"

text \<open>\<^verbatim>\<open>strchr\<close> from an offset: \<open>None\<close> when no terminator is found inside the buffer.\<close>

function strchr_at :: "byte list \<Rightarrow> nat \<Rightarrow> byte \<Rightarrow> nat option option" where
  "strchr_at buf i c =
     (if \<not> i < length buf then None
      else if buf ! i = c then Some (Some i)
      else if buf ! i = 0 then Some None
      else strchr_at buf (i + 1) c)"
  by pat_completeness auto
termination
  by (relation "measure (\<lambda>(buf, i, c). length buf - i)") auto

declare strchr_at.simps [simp del]

definition byte_at :: "byte list \<Rightarrow> nat \<Rightarrow> byte option" where
  "byte_at buf i = (if i < length buf then Some (buf ! i) else None)"

text \<open>The input side of a new client.\<close>

definition createClientInput :: "(nat \<Rightarrow> byte) \<Rightarrow> client \<Rightarrow> rclient option" where
  "createClientInput junk c = do {
     querybuf \<leftarrow> sdsempty junk;
     pending \<leftarrow> sdsempty junk;
     Some (client.extend c
       (rclient.fields querybuf 0 0 0 [] 0 0 (- 1) pending 0 0 0 False False)) }"

text \<open>The protocol error is logged and the connection closed after the reply.\<close>

definition setProtocolError :: "'a rclient_scheme \<Rightarrow> 'a rclient_scheme" where
  "setProtocolError c = setflag CLIENT_CLOSE_AFTER_REPLY c"

definition protocol_error :: "request_env \<Rightarrow> 'a rclient_scheme \<Rightarrow> string \<Rightarrow> (bool \<times> 'a rclient_scheme) option" where
  "protocol_error env c msg = do {
     c \<leftarrow> addReplyError (e_reply env) c (bytes_of (''Protocol error: '' @ msg) @ [0]);
     Some (False, setProtocolError c) }"

definition freeClientArgv :: "'a rclient_scheme \<Rightarrow> 'a rclient_scheme" where
  "freeClientArgv c = c\<lparr>q_argv := [], q_asking := False\<rparr>"

definition resetClient :: "'a rclient_scheme \<Rightarrow> 'a rclient_scheme" where
  "resetClient c =
     (let asking = q_asking c;
          c = (freeClientArgv c)\<lparr>q_reqtype := 0, q_multibulklen := 0, q_bulklen := - 1\<rparr>;
          c = (if CLIENT_MULTI \<notin> c_flags c \<and> \<not> asking then clrflag CLIENT_ASKING c else c);
          c = clrflag CLIENT_REPLY_SKIP c
      in if CLIENT_REPLY_SKIP_NEXT \<in> c_flags c
         then clrflag CLIENT_REPLY_SKIP_NEXT (setflag CLIENT_REPLY_SKIP c) else c)"

section \<open>Inline requests\<close>

text \<open>An SDS string as an object: it keeps its spare room.\<close>

definition sds_object :: "sds \<Rightarrow> strobj" where
  "sds_object s = \<lparr>so_ptr = RawPtr (sds_val s) (sdsavail s), refcount = 1\<rparr>"

definition processInlineBuffer :: "request_env \<Rightarrow> 'a rclient_scheme \<Rightarrow> (bool \<times> 'a rclient_scheme) option" where
  "processInlineBuffer env c = do {
     newline \<leftarrow> strchr_at (s_buf (q_buf c)) (q_pos c) 10;
     (case newline of
        None \<Rightarrow>
          if nat ((int (sdslen (q_buf c)) - int (q_pos c)) mod 2 ^ 64) > PROTO_INLINE_MAX_SIZE
          then protocol_error env c ''too big inline request'' else Some (False, c)
      | Some nl \<Rightarrow>
          let (nl, linefeed_chars) =
                (if nl \<noteq> q_pos c \<and> s_buf (q_buf c) ! (nl - 1) = 13 then (nl - 1, 2) else (nl, 1));
              querylen = nl - q_pos c
          in do {
            line \<leftarrow> read_at (s_buf (q_buf c)) (q_pos c) querylen;
            aux \<leftarrow> sdsnewlen (e_junk env) (InitFrom line) querylen;
            argv \<leftarrow> sdssplitargs (e_junk env) (s_buf aux);
            (case argv of
               None \<Rightarrow> protocol_error env c ''unbalanced quotes in request''
             | Some argv \<Rightarrow>
                 let c = (if querylen = 0 \<and> getClientType c = CLIENT_TYPE_SLAVE
                          then c\<lparr>q_repl_ack_time := unixtime (e_reply env)\<rparr> else c);
                     c = c\<lparr>q_pos := q_pos c + querylen + linefeed_chars\<rparr>
                 in Some (True, c\<lparr>q_argv := map sds_object argv,
                      q_argv_cap := (if argv \<noteq> [] then length argv else q_argv_cap c)\<rparr>)) }) }"

section \<open>Multi-bulk requests\<close>

text \<open>A line \<open>prefix number CRLF\<close> in the query buffer: \<open>HdrWait\<close> when it is incomplete.\<close>

datatype header = HdrWait | HdrTooBig | HdrLine nat

definition header_line :: "'a rclient_scheme \<Rightarrow> header option" where
  "header_line c = do {
     newline \<leftarrow> strchr_at (s_buf (q_buf c)) (q_pos c) 13;
     (case newline of
        None \<Rightarrow> Some (if nat ((int (sdslen (q_buf c)) - int (q_pos c)) mod 2 ^ 64) > PROTO_INLINE_MAX_SIZE
                     then HdrTooBig else HdrWait)
      | Some nl \<Rightarrow>
          Some (if int nl - int (q_pos c) > int (sdslen (q_buf c)) - int (q_pos c) - 2 then HdrWait else HdrLine nl)) }"

text \<open>The count of arguments; the result is \<open>Inl\<close> when the function returns here.\<close>

definition read_multibulklen ::
  "request_env \<Rightarrow> 'a rclient_scheme \<Rightarrow> ((bool \<times> 'a rclient_scheme) + 'a rclient_scheme) option" where
  "read_multibulklen env c =
     (if q_multibulklen c \<noteq> 0 then Some (Inr c)
      else if q_argv c \<noteq> [] then None
      else do {
        h \<leftarrow> header_line c;
        (case h of
           HdrTooBig \<Rightarrow> map_option Inl (protocol_error env c ''too big mbulk count string'')
         | HdrWait \<Rightarrow> Some (Inl (False, c))
         | HdrLine nl \<Rightarrow> do {
             star \<leftarrow> byte_at (s_buf (q_buf c)) (q_pos c);
             (if star \<noteq> ch CHR ''*'' then None
              else do {
                digs \<leftarrow> read_at (s_buf (q_buf c)) (q_pos c + 1) (nl - (q_pos c + 1));
                (case string2ll digs of
                   None \<Rightarrow> map_option Inl (protocol_error env c ''invalid multibulk length'')
                 | Some ll \<Rightarrow>
                     if ll > 1024 * 1024 then map_option Inl (protocol_error env c ''invalid multibulk length'')
                     else
                       let c = c\<lparr>q_pos := nl + 2\<rparr>
                       in if ll \<le> 0 then Some (Inl (True, c))
                          else Some (Inr (c\<lparr>q_multibulklen := ll, q_argv_cap := nat ll\<rparr>))) }) }) })"

definition read_bulklen ::
  "request_env \<Rightarrow> 'a rclient_scheme \<Rightarrow> ((bool \<times> 'a rclient_scheme) + 'a rclient_scheme) option" where
  "read_bulklen env c =
     (if q_bulklen c \<noteq> - 1 then Some (Inr c)
      else do {
        h \<leftarrow> header_line c;
        (case h of
           HdrTooBig \<Rightarrow> map_option Inl (protocol_error env c ''too big bulk count string'')
         | HdrWait \<Rightarrow> Some (Inl (False, c))
         | HdrLine nl \<Rightarrow> do {
             dollar \<leftarrow> byte_at (s_buf (q_buf c)) (q_pos c);
             (if dollar \<noteq> ch CHR ''$'' then do {
                c \<leftarrow> addReplyErrorFormat (e_reply env) c
                  (bytes_of ''Protocol error: expected '' @ [39, 36, 39] @ bytes_of '', got '' @ [39, dollar, 39]);
                Some (Inl (False, setProtocolError c)) }
              else do {
                digs \<leftarrow> read_at (s_buf (q_buf c)) (q_pos c + 1) (nl - (q_pos c + 1));
                (case string2ll digs of
                   None \<Rightarrow> map_option Inl (protocol_error env c ''invalid bulk length'')
                 | Some ll \<Rightarrow>
                     if ll < 0 \<or> ll > proto_max_bulk_len env then map_option Inl (protocol_error env c ''invalid bulk length'')
                     else do {
                       let c = c\<lparr>q_pos := nl + 2\<rparr>;
                       c \<leftarrow>
                         (if ll \<ge> PROTO_MBULK_BIG_ARG
                            \<and> nat ((int (sdslen (q_buf c)) - int (q_pos c)) mod 2 ^ 64) \<le> nat ll + 2
                          then do {
                            qb \<leftarrow> sdsrange (q_buf c) (int (q_pos c)) (- 1);
                            qb \<leftarrow> sdsMakeRoomFor (e_junk env) qb (nat ll + 2);
                            Some (c\<lparr>q_buf := qb, q_pos := 0\<rparr>) }
                          else Some c);
                       Some (Inr (c\<lparr>q_bulklen := ll\<rparr>)) }) }) }) })"

text \<open>One argument; the slot of \<^verbatim>\<open>argv\<close> must exist.\<close>

definition read_argument ::
  "request_env \<Rightarrow> 'a rclient_scheme \<Rightarrow> ((bool \<times> 'a rclient_scheme) + 'a rclient_scheme) option" where
  "read_argument env c =
     (if nat ((int (sdslen (q_buf c)) - int (q_pos c)) mod 2 ^ 64) < nat (q_bulklen c + 2) then Some (Inl (False, c))
      else if \<not> length (q_argv c) < q_argv_cap c then None
      else do {
        c \<leftarrow>
          (if q_pos c = 0 \<and> q_bulklen c \<ge> PROTO_MBULK_BIG_ARG \<and> sdslen (q_buf c) = nat (q_bulklen c + 2) then do {
             arg \<leftarrow> sdsIncrLen (q_buf c) (- 2);
             qb \<leftarrow> sdsnewlen (e_junk env) SDS_NOINIT (nat (q_bulklen c + 2));
             qb \<leftarrow> sdsclear qb;
             Some (c\<lparr>q_argv := q_argv c @ [sds_object arg], q_buf := qb\<rparr>) }
           else do {
             arg \<leftarrow> read_at (s_buf (q_buf c)) (q_pos c) (nat (q_bulklen c));
             Some (c\<lparr>q_argv := q_argv c @ [createStringObject arg], q_pos := q_pos c + nat (q_bulklen c + 2)\<rparr>) });
        Some (Inr (c\<lparr>q_bulklen := - 1, q_multibulklen := q_multibulklen c - 1\<rparr>)) })"

text \<open>The \<^verbatim>\<open>while\<close> loop, with the number of arguments left as fuel.\<close>

fun multibulk_loop :: "request_env \<Rightarrow> nat \<Rightarrow> 'a rclient_scheme \<Rightarrow> (bool \<times> 'a rclient_scheme) option" where
  "multibulk_loop env 0 c = Some (q_multibulklen c = 0, c)"
| "multibulk_loop env (Suc n) c = do {
     r \<leftarrow> read_bulklen env c;
     (case r of
        Inl res \<Rightarrow> Some res
      | Inr c \<Rightarrow> do {
          r \<leftarrow> read_argument env c;
          (case r of Inl res \<Rightarrow> Some res | Inr c \<Rightarrow> multibulk_loop env n c) }) }"

definition processMultibulkBuffer :: "request_env \<Rightarrow> 'a rclient_scheme \<Rightarrow> (bool \<times> 'a rclient_scheme) option" where
  "processMultibulkBuffer env c = do {
     r \<leftarrow> read_multibulklen env c;
     (case r of
        Inl res \<Rightarrow> Some res
      | Inr c \<Rightarrow> if \<not> q_multibulklen c > 0 then None else multibulk_loop env (nat (q_multibulklen c)) c) }"

section \<open>The query buffer\<close>

text \<open>
  \<open>exec\<close> is \<^verbatim>\<open>processCommand\<close>: whether it returned \<^verbatim>\<open>C_OK\<close>, the client, or \<open>None\<close> when the client was freed
  meanwhile (\<^verbatim>\<open>server.current_client == NULL\<close>), and the rest of the server.
\<close>

definition parse_request :: "request_env \<Rightarrow> 'a rclient_scheme \<Rightarrow> (bool \<times> 'a rclient_scheme) option" where
  "parse_request env c = do {
     first \<leftarrow> byte_at (s_buf (q_buf c)) (q_pos c);
     let c = (if q_reqtype c = 0
              then c\<lparr>q_reqtype := (if first = ch CHR ''*'' then PROTO_REQ_MULTIBULK else PROTO_REQ_INLINE)\<rparr> else c);
     (if q_reqtype c = PROTO_REQ_INLINE then processInlineBuffer env c
      else if q_reqtype c = PROTO_REQ_MULTIBULK then processMultibulkBuffer env c
      else None) }"

definition run_command ::
  "('a rclient_scheme \<Rightarrow> 's \<Rightarrow> bool \<times> 'a rclient_scheme option \<times> 's) \<Rightarrow> 'a rclient_scheme \<Rightarrow> 's \<Rightarrow> 'a rclient_scheme option \<times> 's" where
  "run_command exec c s =
     (if q_argv c = [] then (Some (resetClient c), s)
      else let (ok, oc, s) = exec c s in
        case oc of
          None \<Rightarrow> (None, s)
        | Some c \<Rightarrow>
            if ok then
              let c = (if CLIENT_MASTER \<in> c_flags c \<and> CLIENT_MULTI \<notin> c_flags c
                       then c\<lparr>q_reploff := q_read_reploff c - int (sdslen (q_buf c)) + int (q_pos c)\<rparr> else c)
              in (Some (if CLIENT_BLOCKED \<notin> c_flags c \<or> \<not> q_blocked_module c then resetClient c else c), s)
            else (Some c, s))"

definition must_wait :: "request_env \<Rightarrow> 'a rclient_scheme \<Rightarrow> bool" where
  "must_wait env c \<longleftrightarrow> CLIENT_SLAVE \<notin> c_flags c \<and> clients_paused env
     \<or> CLIENT_BLOCKED \<in> c_flags c
     \<or> lua_timedout env \<and> CLIENT_MASTER \<in> c_flags c
     \<or> CLIENT_CLOSE_AFTER_REPLY \<in> c_flags c \<or> CLIENT_CLOSE_ASAP \<in> c_flags c"

partial_function (option) input_loop ::
  "request_env \<Rightarrow> ('a rclient_scheme \<Rightarrow> 's \<Rightarrow> bool \<times> 'a rclient_scheme option \<times> 's) \<Rightarrow> 'a rclient_scheme \<Rightarrow> 's
     \<Rightarrow> ('a rclient_scheme option \<times> 's) option" where
  "input_loop env exec c s =
     (if \<not> q_pos c < sdslen (q_buf c) \<or> must_wait env c then Some (Some c, s)
      else do {
        r \<leftarrow> parse_request env c;
        (if \<not> fst r then Some (Some (snd r), s)
         else case run_command exec (snd r) s of
           (None, s) \<Rightarrow> Some (None, s)
         | (Some c, s) \<Rightarrow> input_loop env exec c s) })"

definition processInputBuffer ::
  "request_env \<Rightarrow> ('a rclient_scheme \<Rightarrow> 's \<Rightarrow> bool \<times> 'a rclient_scheme option \<times> 's) \<Rightarrow> 'a rclient_scheme \<Rightarrow> 's
     \<Rightarrow> ('a rclient_scheme option \<times> 's) option" where
  "processInputBuffer env exec c s = do {
     (oc, s) \<leftarrow> input_loop env exec c s;
     (case oc of
        None \<Rightarrow> Some (None, s)
      | Some c \<Rightarrow>
          if q_pos c \<noteq> 0 then do {
            qb \<leftarrow> sdsrange (q_buf c) (int (q_pos c)) (- 1);
            Some (Some (c\<lparr>q_buf := qb, q_pos := 0\<rparr>), s) }
          else Some (Some c, s)) }"

text \<open>
  What \<^verbatim>\<open>read\<close> returns: bytes, nothing (the peer closed the connection), or an error. A client that was
  freed is \<open>None\<close>.
\<close>

datatype read_result = ReadBytes "byte list" | ReadAgain | ReadError

definition read_length :: "'a rclient_scheme \<Rightarrow> int" where
  "read_length c =
     (if q_reqtype c = PROTO_REQ_MULTIBULK \<and> q_multibulklen c \<noteq> 0 \<and> q_bulklen c \<noteq> - 1 \<and> q_bulklen c \<ge> PROTO_MBULK_BIG_ARG
      then let remaining = q_bulklen c + 2 - int (sdslen (q_buf c))
           in if remaining > 0 \<and> remaining < PROTO_IOBUF_LEN then remaining else PROTO_IOBUF_LEN
      else PROTO_IOBUF_LEN)"

definition readQueryFromClient ::
  "request_env \<Rightarrow> (nat \<Rightarrow> read_result) \<Rightarrow> 'a rclient_scheme \<Rightarrow> 'a rclient_scheme option option" where
  "readQueryFromClient env rd c = do {
     let readlen = nat (read_length c);
     let qblen = sdslen (q_buf c);
     let c = (if q_peak c < qblen then c\<lparr>q_peak := qblen\<rparr> else c);
     qb \<leftarrow> sdsMakeRoomFor (e_junk env) (q_buf c) readlen;
     let c = c\<lparr>q_buf := qb\<rparr>;
     (case rd readlen of
        ReadAgain \<Rightarrow> Some (Some c)
      | ReadError \<Rightarrow> Some None
      | ReadBytes bs \<Rightarrow>
          if bs = [] then Some None
          else do {
            qb \<leftarrow> sds_write (q_buf c) qblen bs;
            c \<leftarrow> (if CLIENT_MASTER \<in> c_flags c then do {
                    pend \<leftarrow> sdscatlen (e_junk env) (q_pending c) bs (length bs);
                    Some (c\<lparr>q_pending := pend\<rparr>) }
                  else Some c);
            qb \<leftarrow> sdsIncrLen qb (int (length bs));
            let c = c\<lparr>q_buf := qb, c_lastinteraction := unixtime (e_reply env)\<rparr>;
            let c = (if CLIENT_MASTER \<in> c_flags c then c\<lparr>q_read_reploff := q_read_reploff c + int (length bs)\<rparr> else c);
            Some (if sdslen (q_buf c) > client_max_querybuf_len env then None else Some c) }) }"

end
