(* ===== verification/Client_Request_Spec.thy ===== *)
theory Client_Request_Spec
  imports Client_Request
begin

text \<open>
  The request parser reads back what a client writes: a stream of commands in the multi-bulk encoding, cut
  into reads in any way, is parsed into the same commands in the same order.
\<close>

section \<open>Scanning\<close>

lemma drop_Cons_nth: "drop i xs = y # ys \<Longrightarrow> i < length xs \<and> xs ! i = y \<and> drop (Suc i) xs = ys"
proof -
  assume d: "drop i xs = y # ys"
  then have l: "i < length xs" by (metis drop_all linorder_not_le list.distinct(1))
  with d show ?thesis by (metis Cons_nth_drop_Suc list.inject)
qed

lemma strchr_at_found:
  "drop i buf = pre @ c # post \<Longrightarrow> c \<notin> set pre \<Longrightarrow> 0 \<notin> set pre \<Longrightarrow> strchr_at buf i c = Some (Some (i + length pre))"
proof (induction pre arbitrary: i)
  case Nil
  then show ?case using drop_Cons_nth [of i buf c post] by (subst strchr_at.simps) simp
next
  case (Cons a pre)
  then show ?case using drop_Cons_nth [of i buf a "pre @ c # post"] by (subst strchr_at.simps) auto
qed

lemma strchr_at_none:
  "drop i buf = pre @ 0 # post \<Longrightarrow> c \<notin> set pre \<Longrightarrow> 0 \<notin> set pre \<Longrightarrow> c \<noteq> 0 \<Longrightarrow> strchr_at buf i c = Some None"
proof (induction pre arbitrary: i)
  case Nil
  then show ?case using drop_Cons_nth [of i buf 0 post] by (subst strchr_at.simps) simp
next
  case (Cons a pre)
  then show ?case using drop_Cons_nth [of i buf a "pre @ 0 # post"] by (subst strchr_at.simps) auto
qed

definition unparsed :: "'a rclient_scheme \<Rightarrow> byte list" where
  "unparsed c = drop (q_pos c) (sds_val (q_buf c))"

definition buf_ok :: "'a rclient_scheme \<Rightarrow> bool" where
  "buf_ok c \<longleftrightarrow> sds_inv (q_buf c) \<and> q_pos c \<le> length (sds_val (q_buf c)) \<and> length (sds_val (q_buf c)) < 2 ^ 61"

lemma buf_upd [simp]:
  "buf_ok (c\<lparr>q_bulklen := x\<rparr>) = buf_ok c" "unparsed (c\<lparr>q_bulklen := x\<rparr>) = unparsed c"
  "buf_ok (c\<lparr>q_multibulklen := x\<rparr>) = buf_ok c" "unparsed (c\<lparr>q_multibulklen := x\<rparr>) = unparsed c"
  "buf_ok (c\<lparr>q_argv := v\<rparr>) = buf_ok c" "unparsed (c\<lparr>q_argv := v\<rparr>) = unparsed c"
  "buf_ok (c\<lparr>q_argv_cap := n\<rparr>) = buf_ok c" "unparsed (c\<lparr>q_argv_cap := n\<rparr>) = unparsed c"
  "buf_ok (c\<lparr>q_reqtype := n\<rparr>) = buf_ok c" "unparsed (c\<lparr>q_reqtype := n\<rparr>) = unparsed c"
  by (simp_all add: buf_ok_def unparsed_def)

lemma buf_ok_len:
  assumes "buf_ok c"
  shows "nat ((int (sdslen (q_buf c)) - int (q_pos c)) mod 2 ^ 64) = length (unparsed c)"
    "int (sdslen (q_buf c)) - int (q_pos c) = int (length (unparsed c))"
    "drop (q_pos c) (s_buf (q_buf c)) = unparsed c @ 0 # drop (Suc (s_len (q_buf c))) (s_buf (q_buf c))"
    "sdslen (q_buf c) = length (sds_val (q_buf c))"
proof -
  have l: "sdslen (q_buf c) = length (sds_val (q_buf c))"
    using assms by (simp add: buf_ok_def sds_inv_def sds_shape_def sds_val_def sdslen_def)
  have le: "q_pos c \<le> length (sds_val (q_buf c))" "length (sds_val (q_buf c)) < 2 ^ 61" using assms by (auto simp: buf_ok_def)
  show "sdslen (q_buf c) = length (sds_val (q_buf c))" by (rule l)
  show i: "int (sdslen (q_buf c)) - int (q_pos c) = int (length (unparsed c))"
    using le by (simp add: l unparsed_def of_nat_diff)
  show "nat ((int (sdslen (q_buf c)) - int (q_pos c)) mod 2 ^ 64) = length (unparsed c)"
    unfolding i using le by (simp add: unparsed_def)
  have "sds_inv (q_buf c)" using assms by (simp add: buf_ok_def)
  from sds_split [OF this] have "drop (q_pos c) (s_buf (q_buf c))
      = drop (q_pos c) (sds_val (q_buf c) @ 0 # drop (Suc (s_len (q_buf c))) (s_buf (q_buf c)))" by simp
  also have "\<dots> = unparsed c @ 0 # drop (Suc (s_len (q_buf c))) (s_buf (q_buf c))"
    using le(1) by (simp add: unparsed_def)
  finally show "drop (q_pos c) (s_buf (q_buf c)) = unparsed c @ 0 # drop (Suc (s_len (q_buf c))) (s_buf (q_buf c))" .
qed

text \<open>Reading bytes of the unparsed part.\<close>

lemma read_unparsed:
  assumes "buf_ok c" "unparsed c = pre @ xs @ post"
  shows "read_at (s_buf (q_buf c)) (q_pos c + length pre) (length xs) = Some xs"
proof -
  let ?r = "0 # drop (Suc (s_len (q_buf c))) (s_buf (q_buf c))"
  have d: "drop (q_pos c) (s_buf (q_buf c)) = pre @ xs @ post @ ?r" using buf_ok_len(3) [OF assms(1)] assms(2) by simp
  have "length (s_buf (q_buf c)) - q_pos c = length (pre @ xs @ post @ ?r)" using arg_cong [OF d, of length] by simp
  then have "q_pos c + length pre + length xs \<le> length (s_buf (q_buf c))" by simp
  moreover have "drop (q_pos c + length pre) (s_buf (q_buf c)) = xs @ post @ ?r"
    using arg_cong [OF d, of "drop (length pre)"] by (simp add: add.commute)
  ultimately show ?thesis by (simp add: read_at_def)
qed

lemma byte_unparsed: "buf_ok c \<Longrightarrow> unparsed c = x # post \<Longrightarrow> byte_at (s_buf (q_buf c)) (q_pos c) = Some x"
  using drop_Cons_nth [of "q_pos c" "s_buf (q_buf c)" x] buf_ok_len(3) [of c] by (auto simp: byte_at_def)

lemma dec_clean: "x \<in> set (dec n) \<Longrightarrow> x \<noteq> 13 \<and> x \<noteq> 0"
  using dec_nonzero [of x n] by (auto simp: isdigit_def)

text \<open>The header line of a command or an argument, complete or cut.\<close>

lemma header_line_ok:
  assumes ok: "buf_ok c" and s: "unparsed c @ input = p # dec n @ crlf @ rest" and p: "p \<noteq> 13" "p \<noteq> 0"
    and n: "n < 10 ^ 19"
  shows "if length (dec n) + 3 \<le> length (unparsed c) then header_line c = Some (HdrLine (q_pos c + 1 + length (dec n)))
    else header_line c = Some HdrWait"
proof -
  let ?u = "unparsed c" and ?r = "drop (Suc (s_len (q_buf c))) (s_buf (q_buf c))"
  have d: "length (dec n) \<le> 19" using n length_dec_le [of n 18] by simp
  have clean: "13 \<notin> set (p # dec n)" "0 \<notin> set (p # dec n)" using p dec_clean by auto
  have u: "?u = take (length ?u) (p # dec n @ crlf @ rest)" using s by (metis append_eq_conv_conj)
  show ?thesis
  proof (cases "length ?u \<le> length (dec n) + 1")
    case True
    then have "?u = take (length ?u) (p # dec n)" using u by (simp add: take_Cons' split: if_splits)
    then have "13 \<notin> set ?u" "0 \<notin> set ?u" using clean in_set_takeD by metis+
    then have "strchr_at (s_buf (q_buf c)) (q_pos c) 13 = Some None"
      using buf_ok_len(3) [OF ok] by (intro strchr_at_none) auto
    then show ?thesis using True d unfolding header_line_def buf_ok_len(1) [OF ok] by (simp add: PROTO_INLINE_MAX_SIZE_def)
  next
    case False
    define k where "k = length (dec n) + 2"
    have "take k (?u @ input) = p # dec n @ [13]" unfolding s by (simp add: k_def)
    then have "take k ?u = p # dec n @ [13]" using False by (simp add: k_def)
    then obtain post where post: "?u = (p # dec n) @ 13 # post"
      using append_take_drop_id [of k ?u] by (metis append_Cons append_assoc self_append_conv2)
    then have "strchr_at (s_buf (q_buf c)) (q_pos c) 13 = Some (Some (q_pos c + length (p # dec n)))"
      using buf_ok_len(3) [OF ok] clean by (intro strchr_at_found) auto
    then show ?thesis unfolding header_line_def using buf_ok_len(2) [OF ok] by auto
  qed
qed

section \<open>Commands on the wire\<close>

definition enc_arg :: "byte list \<Rightarrow> byte list" where
  "enc_arg a = ch CHR ''$'' # dec (length a) @ crlf @ a @ crlf"

definition enc_cmd :: "byte list list \<Rightarrow> byte list" where
  "enc_cmd args = ch CHR ''*'' # dec (length args) @ crlf @ concat (map enc_arg args)"

definition enc_cmds :: "byte list list list \<Rightarrow> byte list" where
  "enc_cmds cmds = concat (map enc_cmd cmds)"

text \<open>The limits of the configuration admit the command.\<close>

definition arg_ok :: "request_env \<Rightarrow> byte list \<Rightarrow> bool" where
  "arg_ok env a \<longleftrightarrow> int (length a) \<le> proto_max_bulk_len env \<and> length a + 16500 \<le> client_max_querybuf_len env"

definition cmd_ok :: "request_env \<Rightarrow> byte list list \<Rightarrow> bool" where
  "cmd_ok env args \<longleftrightarrow> args \<noteq> [] \<and> length args \<le> 1024 * 1024
     \<and> (\<forall>a \<in> set args. arg_ok env a)"

definition env_ok :: "request_env \<Rightarrow> bool" where
  "env_ok env \<longleftrightarrow> proto_max_bulk_len env < 2 ^ 60 \<and> 16500 \<le> client_max_querybuf_len env \<and> client_max_querybuf_len env < 2 ^ 60
     \<and> \<not> clients_paused env \<and> \<not> lua_timedout env"

text \<open>The client is in the middle of a command: \<open>d\<close> was read, \<open>t\<close> and then \<open>rest\<close> will follow.\<close>

definition in_cmd ::
  "'a rclient_scheme \<Rightarrow> byte list \<Rightarrow> byte list list \<Rightarrow> byte list list \<Rightarrow> byte list list list \<Rightarrow> bool" where
  "in_cmd c input d t rest \<longleftrightarrow> buf_ok c \<and> q_reqtype c = PROTO_REQ_MULTIBULK \<and> map obj_bytes (q_argv c) = d
     \<and> q_multibulklen c = int (length t) \<and> length d + length t = q_argv_cap c
     \<and> (if q_bulklen c = - 1 then unparsed c @ input = concat (map enc_arg t) @ enc_cmds rest
        else t \<noteq> [] \<and> q_bulklen c = int (length (hd t))
          \<and> unparsed c @ input = hd t @ crlf @ concat (map enc_arg (tl t)) @ enc_cmds rest)"

definition idle :: "'a rclient_scheme \<Rightarrow> byte list \<Rightarrow> byte list list list \<Rightarrow> bool" where
  "idle c input cmds \<longleftrightarrow> buf_ok c \<and> (q_reqtype c = 0 \<or> q_reqtype c = PROTO_REQ_MULTIBULK) \<and> q_argv c = []
     \<and> q_multibulklen c = 0 \<and> q_bulklen c = - 1 \<and> unparsed c @ input = enc_cmds cmds"

text \<open>The parts of the client the parser does not touch.\<close>

definition same_rest :: "'a rclient_scheme \<Rightarrow> 'a rclient_scheme \<Rightarrow> bool" where
  "same_rest c c' \<longleftrightarrow> c_flags c' = c_flags c"

lemma string2ll_dec: "n < 2 ^ 62 \<Longrightarrow> string2ll (dec n) = Some (int n)"
  using string2ll_complete [of "int n"] by (simp add: dec_int_def LLONG_MIN_def LLONG_MAX_def)

lemma pos_buf_ok:
  assumes "buf_ok c" "unparsed c = xs @ ys"
  shows "buf_ok (c\<lparr>q_pos := q_pos c + length xs\<rparr>)" "unparsed (c\<lparr>q_pos := q_pos c + length xs\<rparr>) = ys"
proof -
  have "length (sds_val (q_buf c)) - q_pos c = length xs + length ys"
    using arg_cong [OF assms(2), of length] by (simp add: unparsed_def)
  then show "buf_ok (c\<lparr>q_pos := q_pos c + length xs\<rparr>)" using assms(1) by (auto simp: buf_ok_def)
  show "unparsed (c\<lparr>q_pos := q_pos c + length xs\<rparr>) = ys"
    using arg_cong [OF assms(2), of "drop (length xs)"] by (simp add: unparsed_def add.commute)
qed

lemma range_drop: "p \<le> length v \<Longrightarrow> range_of v (int p) (- 1) = drop p v"
  by (cases "v = []") (auto simp: range_of_def Let_def Suc_le_eq nat_diff_distrib)

lemma split_prefix: "u @ i = xs @ zs \<Longrightarrow> length xs \<le> length u \<Longrightarrow> \<exists>ys. u = xs @ ys \<and> ys @ i = zs"
  by (auto simp: append_eq_append_conv2)

lemma arg_small:
  assumes "env_ok env" "arg_ok env a"
  shows "length a < 2 ^ 60" "length (dec (length a)) \<le> 19" "length a < 10 ^ 19"
proof -
  show l: "length a < 2 ^ 60" using assms by (simp add: env_ok_def arg_ok_def)
  then show m: "length a < 10 ^ 19" by simp
  then show "length (dec (length a)) \<le> 19" using length_dec_le [of "length a" 18] by simp
qed

text \<open>Dropping the parsed part of the query buffer.\<close>

lemma sds_len_val: "sds_inv s \<Longrightarrow> s_len s = length (sds_val s)"
  by (simp add: sds_inv_def sds_shape_def sds_val_def)

lemma compact_ok:
  assumes "buf_ok c"
  shows "\<exists>qb. sdsrange (q_buf c) (int (q_pos c)) (- 1) = Some qb \<and> sds_inv qb \<and> sds_val qb = unparsed c
    \<and> length (unparsed c) < 2 ^ 61"
  using assms sdsrange_ok [of "q_buf c" "int (q_pos c)" "- 1"] by (auto simp: buf_ok_def unparsed_def range_drop)

lemma compact_room_ok:
  assumes "buf_ok c" "n < 2 ^ 61"
  shows "\<exists>qb qb'. sdsrange (q_buf c) (int (q_pos c)) (- 1) = Some qb \<and> sdsMakeRoomFor junk qb n = Some qb'
    \<and> buf_ok (c\<lparr>q_buf := qb', q_pos := 0\<rparr>) \<and> unparsed (c\<lparr>q_buf := qb', q_pos := 0\<rparr>) = unparsed c"
proof -
  from compact_ok [OF assms(1)] obtain qb where
    qb: "sdsrange (q_buf c) (int (q_pos c)) (- 1) = Some qb" "sds_inv qb" "sds_val qb = unparsed c" "length (unparsed c) < 2 ^ 61"
    by auto
  from sdsMakeRoomFor_ok [OF qb(2), of n junk] qb assms(2) obtain qb' where
    "sdsMakeRoomFor junk qb n = Some qb'" "sds_inv qb'" "sds_val qb' = unparsed c"
    by (auto simp: sds_len_val)
  with qb show ?thesis by (simp add: buf_ok_def unparsed_def)
qed

text \<open>The header of an argument.\<close>

lemma read_bulklen_ok:
  assumes env: "env_ok env" and inv: "in_cmd c input d t rest" and t: "t \<noteq> []" "arg_ok env (hd t)"
  shows "read_bulklen env c = Some (Inl (False, c)) \<and> input \<noteq> [] \<and> length (unparsed c) < 30
    \<or> (\<exists>c'. read_bulklen env c = Some (Inr c') \<and> in_cmd c' input d t rest \<and> q_bulklen c' = int (length (hd t)) \<and> same_rest c c')"
proof (cases "q_bulklen c = - 1")
  case False
  then show ?thesis using inv by (auto simp: read_bulklen_def in_cmd_def same_rest_def)
next
  case True
  define a where "a = hd t"
  define tl' where "tl' = a @ crlf @ concat (map enc_arg (tl t)) @ enc_cmds rest"
  note small = arg_small [OF env t(2), folded a_def]
  have ok: "buf_ok c" using inv by (simp add: in_cmd_def)
  have s: "unparsed c @ input = ch CHR ''$'' # dec (length a) @ crlf @ tl'"
    using inv True t(1) by (cases t) (simp_all add: in_cmd_def enc_arg_def a_def tl'_def)
  note h = header_line_ok [OF ok s _ _ small(3)]
  show ?thesis
  proof (cases "length (dec (length a)) + 3 \<le> length (unparsed c)")
    case cut: False
    then have "length (unparsed c) < length (unparsed c @ input)" unfolding s by simp
    then show ?thesis using h cut True small(2) by (auto simp: read_bulklen_def)
  next
    case full: True
    let ?xs = "ch CHR ''$'' # dec (length a) @ crlf"
    from split_prefix [of "unparsed c" input ?xs tl'] s full obtain ys where
      ys: "unparsed c = ?xs @ ys" "ys @ input = tl'" by auto
    define c1 where "c1 = c\<lparr>q_pos := q_pos c + length ?xs\<rparr>"
    have c1: "buf_ok c1" "unparsed c1 = ys" using pos_buf_ok [OF ok ys(1)] by (simp_all add: c1_def)
    have rd: "read_at (s_buf (q_buf c)) (q_pos c + 1) (length (dec (length a))) = Some (dec (length a))"
      using read_unparsed [OF ok, of "[ch CHR ''$'']" "dec (length a)" "crlf @ ys"] ys(1) by simp
    have by0: "byte_at (s_buf (q_buf c)) (q_pos c) = Some (ch CHR ''$'')" using byte_unparsed [OF ok] ys(1) by simp
    have ll: "string2ll (dec (length a)) = Some (int (length a))" using string2ll_dec small(1) by simp
    have lim: "\<not> (int (length a) < 0 \<or> int (length a) > proto_max_bulk_len env)" using t(2) by (simp add: arg_ok_def a_def)
    have nl: "header_line c = Some (HdrLine (q_pos c + 1 + length (dec (length a))))" using h full by simp
    have c1_eq: "c\<lparr>q_pos := q_pos c + 1 + length (dec (length a)) + 2\<rparr> = c1" by (simp add: c1_def)
    have ev: "read_bulklen env c = do {
        c \<leftarrow> (if int (length a) \<ge> PROTO_MBULK_BIG_ARG \<and> length (unparsed c1) \<le> length a + 2
              then do {
                qb \<leftarrow> sdsrange (q_buf c1) (int (q_pos c1)) (- 1);
                qb \<leftarrow> sdsMakeRoomFor (e_junk env) qb (length a + 2);
                Some (c1\<lparr>q_buf := qb, q_pos := 0\<rparr>) }
              else Some c1);
        Some (Inr (c\<lparr>q_bulklen := int (length a)\<rparr>)) }"
      unfolding read_bulklen_def nl using True lim
      by (simp only: bind.bind_lunit header.case by0 add_diff_cancel_left' rd ll option.case Let_def c1_eq
          buf_ok_len(1) [OF c1(1)] nat_int if_False if_True not_True_eq_False simp_thms)
    have fin: "in_cmd (c2\<lparr>q_bulklen := int (length a)\<rparr>) input d t rest \<and> same_rest c (c2\<lparr>q_bulklen := int (length a)\<rparr>)"
      if "buf_ok c2" "unparsed c2 = ys" "\<exists>qb p. c2 = c\<lparr>q_buf := qb, q_pos := p\<rparr>" for c2
    proof -
      from that(3) obtain qb p where c2: "c2 = c\<lparr>q_buf := qb, q_pos := p\<rparr>" by auto
      have "buf_ok (c2\<lparr>q_bulklen := int (length a)\<rparr>)" "unparsed (c2\<lparr>q_bulklen := int (length a)\<rparr>) = ys"
        using that(1,2) by simp_all
      then show ?thesis using inv t(1) ys(2) by (simp add: in_cmd_def same_rest_def c2 a_def tl'_def)
    qed
    show ?thesis
    proof (cases "int (length a) \<ge> PROTO_MBULK_BIG_ARG \<and> length (unparsed c1) \<le> length a + 2")
      case True
      from compact_room_ok [OF c1(1), of "length a + 2" "e_junk env"] small(1) obtain qb qb' where
        q: "sdsrange (q_buf c1) (int (q_pos c1)) (- 1) = Some qb" "sdsMakeRoomFor (e_junk env) qb (length a + 2) = Some qb'"
          "buf_ok (c1\<lparr>q_buf := qb', q_pos := 0\<rparr>)" "unparsed (c1\<lparr>q_buf := qb', q_pos := 0\<rparr>) = unparsed c1" by auto
      have "read_bulklen env c = Some (Inr (c1\<lparr>q_buf := qb', q_pos := 0, q_bulklen := int (length a)\<rparr>))"
        unfolding ev using True q(1,2) by simp
      moreover have "\<exists>qb p. c1\<lparr>q_buf := qb', q_pos := 0\<rparr> = c\<lparr>q_buf := qb, q_pos := p\<rparr>" by (auto simp: c1_def)
      ultimately show ?thesis using fin [of "c1\<lparr>q_buf := qb', q_pos := 0\<rparr>"] q(3,4) c1(2) by (auto simp: a_def)
    next
      case False
      then have "read_bulklen env c = Some (Inr (c1\<lparr>q_bulklen := int (length a)\<rparr>))" unfolding ev by auto
      moreover have "\<exists>qb p. c1 = c\<lparr>q_buf := qb, q_pos := p\<rparr>" unfolding c1_def by (rule exI [of _ "q_buf c"]) auto
      ultimately show ?thesis using fin [of c1] c1 by (auto simp: a_def)
    qed
  qed
qed

text \<open>The argument itself, with the path that hands over the whole query buffer.\<close>

lemma obj_bytes_created [simp]: "obj_bytes (createStringObject bs) = bs" "obj_bytes (sds_object s) = sds_val s"
  by (simp_all add: obj_bytes_def createStringObject_def createEmbeddedStringObject_def createRawStringObject_def sds_object_def)

lemma in_cmd_next:
  assumes "in_cmd c input d t rest" "t \<noteq> []" "buf_ok c'" "unparsed c' @ input = concat (map enc_arg (tl t)) @ enc_cmds rest"
    and "\<exists>qb p ob. c' = c\<lparr>q_argv := q_argv c @ [ob], q_buf := qb, q_pos := p\<rparr> \<and> obj_bytes ob = hd t"
  shows "in_cmd (c'\<lparr>q_bulklen := - 1, q_multibulklen := q_multibulklen c' - 1\<rparr>) input (d @ [hd t]) (tl t) rest
    \<and> same_rest c (c'\<lparr>q_bulklen := - 1, q_multibulklen := q_multibulklen c' - 1\<rparr>)"
proof -
  from assms(5) obtain qb p ob where c': "c' = c\<lparr>q_argv := q_argv c @ [ob], q_buf := qb, q_pos := p\<rparr>" "obj_bytes ob = hd t" by auto
  define c2 where "c2 = c'\<lparr>q_bulklen := - 1, q_multibulklen := q_multibulklen c' - 1\<rparr>"
  have "buf_ok c2" "unparsed c2 @ input = concat (map enc_arg (tl t)) @ enc_cmds rest" using assms(3,4) by (simp_all add: c2_def)
  moreover have "q_bulklen c2 = - 1" "q_reqtype c2 = q_reqtype c" "map obj_bytes (q_argv c2) = map obj_bytes (q_argv c) @ [hd t]"
    "q_multibulklen c2 = q_multibulklen c - 1" "q_argv_cap c2 = q_argv_cap c" "c_flags c2 = c_flags c"
    using c' by (simp_all add: c2_def)
  moreover obtain x r where "t = x # r" using assms(2) by (cases t) auto
  moreover have "q_reqtype c = PROTO_REQ_MULTIBULK" "map obj_bytes (q_argv c) = d" "q_multibulklen c = int (length t)"
    "length d + length t = q_argv_cap c" using assms(1) by (simp_all add: in_cmd_def)
  ultimately show ?thesis unfolding in_cmd_def same_rest_def c2_def [symmetric] by simp
qed

lemma big_arg_ok:
  assumes ok: "buf_ok c" and u: "unparsed c = a @ crlf" and p: "q_pos c = 0" and a: "a \<noteq> []" "length a < 2 ^ 60"
  shows "\<exists>arg qb qb'. sdsIncrLen (q_buf c) (- 2) = Some arg \<and> sds_val arg = a
    \<and> sdsnewlen junk SDS_NOINIT (length a + 2) = Some qb \<and> sdsclear qb = Some qb' \<and> sds_inv qb' \<and> sds_val qb' = []"
proof -
  have inv: "sds_inv (q_buf c)" and v: "sds_val (q_buf c) = a @ crlf" using ok u p by (simp_all add: buf_ok_def unparsed_def)
  have l: "s_len (q_buf c) = length a + 2" using sds_len_val [OF inv] v by simp
  have r: "sds_room (q_buf c) (length a)" using sds_inv_room [OF inv] l by (auto simp: sds_room_def)
  have n: "nat (int (s_len (q_buf c)) + - 2) = length a" using l by simp
  have "sds_shape (q_buf c)" using inv by (simp add: sds_inv_def)
  from sdsIncrLen_ok [OF this, of "- 2"] r n l obtain arg where
    arg: "sdsIncrLen (q_buf c) (- 2) = Some arg" "sds_val arg = take (length a) (s_buf (q_buf c))" by auto
  have "take (length a) (s_buf (q_buf c)) = take (length a) (sds_val (q_buf c))" using l by (simp add: sds_val_def)
  then have "sds_val arg = a" using arg(2) v by simp
  moreover from sdsnewlen_ok [of "length a + 2" SDS_NOINIT junk] a(2) obtain qb where
    qb: "sdsnewlen junk SDS_NOINIT (length a + 2) = Some qb" "sds_inv qb" by auto
  ultimately show ?thesis using arg(1) sdsclear_ok [OF qb(2)] by auto
qed

lemma read_argument_ok:
  assumes env: "env_ok env" and inv: "in_cmd c input d t rest" and t: "t \<noteq> []" "arg_ok env (hd t)"
    and bl: "q_bulklen c = int (length (hd t))"
  shows "read_argument env c = Some (Inl (False, c)) \<and> input \<noteq> [] \<and> length (unparsed c) < length (hd t) + 2
    \<or> (\<exists>c'. read_argument env c = Some (Inr c') \<and> in_cmd c' input (d @ [hd t]) (tl t) rest \<and> q_bulklen c' = - 1 \<and> same_rest c c')"
proof (cases "length (unparsed c) < length (hd t) + 2")
  case True
  have s: "unparsed c @ input = hd t @ crlf @ concat (map enc_arg (tl t)) @ enc_cmds rest"
    using inv bl by (simp add: in_cmd_def)
  have "length (unparsed c) + length input \<ge> length (hd t) + 2" using arg_cong [OF s, of length] by simp
  moreover have "nat (q_bulklen c + 2) = length (hd t) + 2" using bl by simp
  ultimately show ?thesis using True buf_ok_len(1) [of c] inv by (auto simp: read_argument_def in_cmd_def)
next
  case False
  define a where "a = hd t"
  define more where "more = concat (map enc_arg (tl t)) @ enc_cmds rest"
  have ok: "buf_ok c" using inv by (simp add: in_cmd_def)
  have cap: "length (q_argv c) < q_argv_cap c"
  proof -
    have "length (q_argv c) + length t = q_argv_cap c" using inv by (auto simp: in_cmd_def)
    then show ?thesis using t(1) by (cases t) simp_all
  qed
  have s: "unparsed c @ input = (a @ crlf) @ more" using inv bl by (simp add: in_cmd_def a_def more_def)
  from split_prefix [OF s] False obtain ys where ys: "unparsed c = (a @ crlf) @ ys" "ys @ input = more" by (auto simp: a_def)
  have n: "nat (q_bulklen c + 2) = length a + 2" "nat (q_bulklen c) = length a" using bl by (simp_all add: a_def)
  have small: "length a < 2 ^ 60" using arg_small [OF env t(2)] by (simp add: a_def)
  note next_ok = in_cmd_next [OF inv t(1), folded a_def more_def]
  show ?thesis
  proof (cases "q_pos c = 0 \<and> q_bulklen c \<ge> PROTO_MBULK_BIG_ARG \<and> sdslen (q_buf c) = length a + 2")
    case True
    have "length (unparsed c) = length a + 2" using True buf_ok_len(4) [OF ok] by (simp add: unparsed_def)
    then have y: "ys = []" using ys(1) by simp
    have "a \<noteq> []" using True bl by (auto simp: PROTO_MBULK_BIG_ARG_def a_def)
    from big_arg_ok [OF ok, of a "e_junk env"] ys y True small this obtain arg qb qb' where
      q: "sdsIncrLen (q_buf c) (- 2) = Some arg" "sds_val arg = a"
        "sdsnewlen (e_junk env) SDS_NOINIT (length a + 2) = Some qb" "sdsclear qb = Some qb'" "sds_inv qb'" "sds_val qb' = []" by auto
    define c' where "c' = c\<lparr>q_argv := q_argv c @ [sds_object arg], q_buf := qb'\<rparr>"
    have e: "read_argument env c = Some (Inr (c'\<lparr>q_bulklen := - 1, q_multibulklen := q_multibulklen c' - 1\<rparr>))"
      using False True cap q(1,3,4) unfolding read_argument_def n buf_ok_len(1) [OF ok] by (simp add: c'_def a_def)
    have "buf_ok c'" "unparsed c' @ input = more" using q True y ys(2) by (auto simp: buf_ok_def unparsed_def c'_def)
    moreover have "\<exists>qb p ob. c' = c\<lparr>q_argv := q_argv c @ [ob], q_buf := qb, q_pos := p\<rparr> \<and> obj_bytes ob = a"
      unfolding c'_def using q(2) by (intro exI [of _ qb'] exI [of _ "q_pos c"] exI [of _ "sds_object arg"]) simp
    ultimately show ?thesis using next_ok e by (auto simp: a_def)
  next
    case small_path: False
    define c' where "c' = c\<lparr>q_argv := q_argv c @ [createStringObject a], q_pos := q_pos c + length (a @ crlf)\<rparr>"
    have rd: "read_at (s_buf (q_buf c)) (q_pos c) (length a) = Some a"
      using read_unparsed [OF ok, of "[]" a "crlf @ ys"] ys(1) by simp
    have e: "read_argument env c = Some (Inr (c'\<lparr>q_bulklen := - 1, q_multibulklen := q_multibulklen c' - 1\<rparr>))"
      using False cap rd unfolding read_argument_def n buf_ok_len(1) [OF ok] if_not_P [OF small_path] by (simp add: c'_def a_def)
    have c': "c' = c\<lparr>q_pos := q_pos c + length (a @ crlf), q_argv := q_argv c @ [createStringObject a]\<rparr>" by (simp add: c'_def)
    have "buf_ok c'" "unparsed c' @ input = more"
      unfolding c' buf_upd using pos_buf_ok [OF ok ys(1)] ys(2) by blast+
    moreover have "\<exists>qb p ob. c' = c\<lparr>q_argv := q_argv c @ [ob], q_buf := qb, q_pos := p\<rparr> \<and> obj_bytes ob = a"
      unfolding c'_def by (intro exI [of _ "q_buf c"] exI [of _ "q_pos c + length (a @ crlf)"] exI [of _ "createStringObject a"]) simp
    ultimately show ?thesis using next_ok e by (auto simp: a_def)
  qed
qed

section \<open>One command\<close>

text \<open>The parser stops because the command is incomplete; then the next read does not exceed the limit.\<close>

definition waiting :: "request_env \<Rightarrow> 'a rclient_scheme \<Rightarrow> bool" where
  "waiting env c \<longleftrightarrow> length (unparsed c) + 16384 < client_max_querybuf_len env"

lemma same_rest_trans: "same_rest a b \<Longrightarrow> same_rest b c \<Longrightarrow> same_rest a c"
  by (simp add: same_rest_def)

lemma multibulk_loop_ok:
  assumes env: "env_ok env"
  shows "in_cmd c input d t rest \<Longrightarrow> \<forall>a \<in> set t. arg_ok env a \<Longrightarrow>
    \<exists>ok c'. multibulk_loop env (length t) c = Some (ok, c') \<and> same_rest c c'
      \<and> (if ok then in_cmd c' input (d @ t) [] rest
         else input \<noteq> [] \<and> waiting env c' \<and> (\<exists>d' t'. d @ t = d' @ t' \<and> t' \<noteq> [] \<and> in_cmd c' input d' t' rest))"
proof (induction t arbitrary: c d)
  case Nil
  then have "q_multibulklen c = 0" by (simp add: in_cmd_def)
  with Nil show ?case by (intro exI [of _ True] exI [of _ c]) (simp add: same_rest_def)
next
  case (Cons a t)
  have a: "arg_ok env (hd (a # t))" "a # t \<noteq> []" using Cons.prems(2) by simp_all
  from read_bulklen_ok [OF env Cons.prems(1) a(2,1)] show ?case
  proof (elim disjE exE conjE)
    assume "read_bulklen env c = Some (Inl (False, c))" "input \<noteq> []" "length (unparsed c) < 30"
    with Cons.prems(1) env show ?thesis by (auto simp: waiting_def env_ok_def same_rest_def)
  next
    fix c1 assume c1: "read_bulklen env c = Some (Inr c1)" "in_cmd c1 input d (a # t) rest" "q_bulklen c1 = int (length (hd (a # t)))" "same_rest c c1"
    from read_argument_ok [OF env c1(2) a(2,1) c1(3)] show ?thesis
    proof (elim disjE exE conjE)
      assume "read_argument env c1 = Some (Inl (False, c1))" "input \<noteq> []" "length (unparsed c1) < length (hd (a # t)) + 2"
      with c1 a env show ?thesis by (auto simp: waiting_def arg_ok_def)
    next
      fix c2 assume c2: "read_argument env c1 = Some (Inr c2)" "in_cmd c2 input (d @ [hd (a # t)]) (tl (a # t)) rest" "same_rest c1 c2"
      have dat: "(d @ [a]) @ t = d @ a # t" by simp
      from Cons.IH [of c2 "d @ [a]", unfolded dat] c2(2) Cons.prems(2) obtain ok c' where
        "multibulk_loop env (length t) c2 = Some (ok, c')" "same_rest c2 c'"
        "if ok then in_cmd c' input (d @ a # t) [] rest
         else input \<noteq> [] \<and> waiting env c' \<and> (\<exists>d' t'. d @ a # t = d' @ t' \<and> t' \<noteq> [] \<and> in_cmd c' input d' t' rest)" by auto
      with c1 c2 show ?thesis by (intro exI [of _ ok] exI [of _ c']) (auto intro: same_rest_trans)
    qed
  qed
qed

text \<open>What the client has read and will read is the commands \<open>cmds\<close>.\<close>

definition expects :: "'a rclient_scheme \<Rightarrow> byte list \<Rightarrow> byte list list list \<Rightarrow> bool" where
  "expects c input cmds \<longleftrightarrow>
     idle c input cmds \<or> (\<exists>d t rest. in_cmd c input d t rest \<and> t \<noteq> [] \<and> cmds = (d @ t) # rest)"

lemma read_multibulklen_ok:
  assumes env: "env_ok env" and inv: "idle c input (args # rest)" "q_reqtype c = PROTO_REQ_MULTIBULK" and args: "cmd_ok env args"
  shows "read_multibulklen env c = Some (Inl (False, c)) \<and> input \<noteq> [] \<and> length (unparsed c) < 30
    \<or> (\<exists>c'. read_multibulklen env c = Some (Inr c') \<and> in_cmd c' input [] args rest \<and> same_rest c c')"
proof -
  define more where "more = concat (map enc_arg args) @ enc_cmds rest"
  let ?n = "length args"
  have ok: "buf_ok c" using inv by (simp add: idle_def)
  have n: "0 < ?n" "?n \<le> 1024 * 1024" using args by (simp_all add: cmd_ok_def)
  have s: "unparsed c @ input = ch CHR ''*'' # dec ?n @ crlf @ more"
    using inv by (simp add: idle_def enc_cmds_def enc_cmd_def more_def)
  have n19: "?n < 10 ^ 19" using n by simp
  have d: "length (dec ?n) \<le> 19" using n19 length_dec_le [of ?n 18] by simp
  note h = header_line_ok [OF ok s _ _ n19]
  show ?thesis
  proof (cases "length (dec ?n) + 3 \<le> length (unparsed c)")
    case cut: False
    then have "length (unparsed c) < length (unparsed c @ input)" unfolding s by simp
    then show ?thesis using h cut inv(1) d by (auto simp: read_multibulklen_def idle_def)
  next
    case full: True
    let ?xs = "ch CHR ''*'' # dec ?n @ crlf"
    from split_prefix [of "unparsed c" input ?xs more] s full obtain ys where
      ys: "unparsed c = ?xs @ ys" "ys @ input = more" by auto
    have rd: "read_at (s_buf (q_buf c)) (q_pos c + 1) (length (dec ?n)) = Some (dec ?n)"
      using read_unparsed [OF ok, of "[ch CHR ''*'']" "dec ?n" "crlf @ ys"] ys(1) by simp
    have by0: "byte_at (s_buf (q_buf c)) (q_pos c) = Some (ch CHR ''*'')" using byte_unparsed [OF ok] ys(1) by simp
    have ll: "string2ll (dec ?n) = Some (int ?n)" using string2ll_dec [of ?n] n by simp
    have nl: "header_line c = Some (HdrLine (q_pos c + 1 + length (dec ?n)))" using h full by simp
    define c1 where "c1 = c\<lparr>q_pos := q_pos c + length ?xs\<rparr>"
    define c2 where "c2 = c1\<lparr>q_multibulklen := int ?n, q_argv_cap := ?n\<rparr>"
    have c1: "buf_ok c1" "unparsed c1 = ys" using pos_buf_ok [OF ok ys(1)] by (simp_all add: c1_def)
    have "read_multibulklen env c = Some (Inr c2)"
      using inv n unfolding read_multibulklen_def nl
      by (simp add: idle_def by0 rd [simplified] ll c2_def c1_def)
    moreover have "in_cmd c2 input [] args rest"
    proof -
      have "buf_ok c2" "unparsed c2 @ input = more" using c1 ys(2) by (simp_all add: c2_def)
      moreover have "q_reqtype c2 = PROTO_REQ_MULTIBULK" "q_argv c2 = []" "q_bulklen c2 = - 1" "q_multibulklen c2 = int ?n" "q_argv_cap c2 = ?n"
        using inv by (simp_all add: c2_def c1_def idle_def)
      ultimately show ?thesis by (simp add: in_cmd_def more_def)
    qed
    moreover have "same_rest c c2" by (simp add: same_rest_def c2_def c1_def)
    ultimately show ?thesis by blast
  qed
qed

lemma enc_cmds_Cons [simp]: "enc_cmds [] = []" "enc_cmds (args # rest) = ch CHR ''*'' # dec (length args) @ crlf @ concat (map enc_arg args) @ enc_cmds rest"
  by (simp_all add: enc_cmds_def enc_cmd_def)

lemma processMultibulkBuffer_ok:
  assumes env: "env_ok env" and inv: "expects c input cmds" "q_reqtype c = PROTO_REQ_MULTIBULK" "unparsed c \<noteq> []"
    and cmds: "\<forall>args \<in> set cmds. cmd_ok env args"
  shows "\<exists>ok c'. processMultibulkBuffer env c = Some (ok, c') \<and> same_rest c c'
    \<and> (if ok then \<exists>args rest. cmds = args # rest \<and> in_cmd c' input args [] rest
       else input \<noteq> [] \<and> waiting env c' \<and> expects c' input cmds)"
proof -
  have loop: "\<exists>ok c'. processMultibulkBuffer env c = Some (ok, c') \<and> same_rest c c'
      \<and> (if ok then \<exists>args rest. cmds = args # rest \<and> in_cmd c' input args [] rest
         else input \<noteq> [] \<and> waiting env c' \<and> expects c' input cmds)"
    if r: "read_multibulklen env c = Some (Inr c1)" "same_rest c c1" "in_cmd c1 input d t rest" "t \<noteq> []" "cmds = (d @ t) # rest" for c1 d t rest
  proof -
    have "\<forall>a \<in> set t. arg_ok env a" using cmds r(5) by (simp add: cmd_ok_def)
    from multibulk_loop_ok [OF env r(3) this] obtain ok c' where
      l: "multibulk_loop env (length t) c1 = Some (ok, c')" "same_rest c1 c'"
        "if ok then in_cmd c' input (d @ t) [] rest
         else input \<noteq> [] \<and> waiting env c' \<and> (\<exists>d' t'. d @ t = d' @ t' \<and> t' \<noteq> [] \<and> in_cmd c' input d' t' rest)" by auto
    have "q_multibulklen c1 = int (length t)" using r(3) by (simp add: in_cmd_def)
    then have e: "processMultibulkBuffer env c = Some (ok, c')" using r(1,4) l(1) by (simp add: processMultibulkBuffer_def)
    show ?thesis
    proof (cases ok)
      case True
      then show ?thesis using e l r(5) same_rest_trans [OF r(2) l(2)] by auto
    next
      case False
      then have "expects c' input cmds" using l(3) r(5) unfolding expects_def by auto
      then show ?thesis using e l(3) False same_rest_trans [OF r(2) l(2)] by auto
    qed
  qed
  from inv(1) consider (idle) "idle c input cmds" | (mid) d t rest where "in_cmd c input d t rest" "t \<noteq> []" "cmds = (d @ t) # rest"
    by (auto simp: expects_def)
  then show ?thesis
  proof cases
    case idle
    from idle inv(3) obtain args rest where cs: "cmds = args # rest" by (cases cmds) (auto simp: idle_def)
    have "cmd_ok env args" using cmds cs by simp
    from read_multibulklen_ok [OF env idle [unfolded cs] inv(2) this] show ?thesis
    proof (elim disjE exE conjE)
      assume "read_multibulklen env c = Some (Inl (False, c))" "input \<noteq> []" "length (unparsed c) < 30"
      then show ?thesis using inv(1) env
        by (auto simp: processMultibulkBuffer_def same_rest_def waiting_def env_ok_def)
    next
      fix c1 assume "read_multibulklen env c = Some (Inr c1)" "in_cmd c1 input [] args rest" "same_rest c c1"
      then show ?thesis using loop [of c1 "[]" args rest] cs \<open>cmd_ok env args\<close> by (auto simp: cmd_ok_def)
    qed
  next
    case mid
    then have "q_multibulklen c \<noteq> 0" by (simp add: in_cmd_def)
    then have "read_multibulklen env c = Some (Inr c)" by (simp add: read_multibulklen_def)
    then show ?thesis using loop [of c d t rest] mid by (simp add: same_rest_def)
  qed
qed

lemma parse_request_ok:
  assumes env: "env_ok env" and inv: "expects c input cmds" "unparsed c \<noteq> []" and cmds: "\<forall>args \<in> set cmds. cmd_ok env args"
  shows "\<exists>ok c'. parse_request env c = Some (ok, c') \<and> same_rest c c'
    \<and> (if ok then \<exists>args rest. cmds = args # rest \<and> in_cmd c' input args [] rest
       else input \<noteq> [] \<and> waiting env c' \<and> expects c' input cmds)"
proof -
  define c1 where "c1 = c\<lparr>q_reqtype := PROTO_REQ_MULTIBULK\<rparr>"
  obtain x post where x: "unparsed c = x # post" using inv(2) by (cases "unparsed c") auto
  have ok: "buf_ok c" using inv(1) by (auto simp: expects_def idle_def in_cmd_def)
  note b = byte_unparsed [OF ok x]
  have e: "expects c1 input cmds"
  proof -
    have "idle c input cmds \<Longrightarrow> idle c1 input cmds" by (simp add: idle_def c1_def)
    moreover have "in_cmd c input d t rest \<Longrightarrow> in_cmd c1 input d t rest" for d t rest
      unfolding in_cmd_def c1_def buf_upd by simp
    ultimately show ?thesis using inv(1) unfolding expects_def by blast
  qed
  have sr: "same_rest c c1" by (simp add: same_rest_def c1_def)
  have "q_reqtype c = PROTO_REQ_MULTIBULK \<or> q_reqtype c = 0 \<and> x = ch CHR ''*''"
  proof -
    from inv(1) show ?thesis unfolding expects_def
    proof (elim disjE exE conjE)
      assume i: "idle c input cmds"
      then have "(x # post) @ input = enc_cmds cmds" using x by (simp add: idle_def)
      then have "x = ch CHR ''*''" by (cases cmds) auto
      then show ?thesis using i by (auto simp: idle_def)
    qed (simp add: in_cmd_def)
  qed
  then have "parse_request env c = processMultibulkBuffer env c1"
  proof
    assume m: "q_reqtype c = PROTO_REQ_MULTIBULK"
    then have "c1 = c" by (cases c) (simp add: c1_def)
    then show ?thesis unfolding parse_request_def b using m by (simp add: PROTO_REQ_MULTIBULK_def PROTO_REQ_INLINE_def)
  qed (simp add: parse_request_def b c1_def PROTO_REQ_MULTIBULK_def PROTO_REQ_INLINE_def)
  then show ?thesis
    using processMultibulkBuffer_ok [OF env e _ _ cmds] inv(2) same_rest_trans [OF sr]
    by (fastforce simp: c1_def)
qed

section \<open>The loop over the query buffer\<close>

definition flags_ok :: "'a rclient_scheme \<Rightarrow> bool" where
  "flags_ok c \<longleftrightarrow> c_flags c \<inter> {CLIENT_BLOCKED, CLIENT_CLOSE_AFTER_REPLY, CLIENT_CLOSE_ASAP, CLIENT_MASTER} = {}"

text \<open>
  A command that runs to its end: it acts on the server by the values of its arguments and leaves the query
  buffer of the client alone.
\<close>

definition runs_commands ::
  "('a rclient_scheme \<Rightarrow> 's \<Rightarrow> bool \<times> 'a rclient_scheme option \<times> 's) \<Rightarrow> (byte list list \<Rightarrow> 's \<Rightarrow> 's) \<Rightarrow> bool" where
  "runs_commands exec f \<longleftrightarrow> (\<forall>c s. flags_ok c \<longrightarrow> (\<exists>c'. exec c s = (True, Some c', f (map obj_bytes (q_argv c)) s)
     \<and> q_buf c' = q_buf c \<and> q_pos c' = q_pos c \<and> flags_ok c'))"

lemma resetClient_ok:
  "buf_ok (resetClient c) = buf_ok c" "unparsed (resetClient c) = unparsed c" "q_argv (resetClient c) = []"
  "q_reqtype (resetClient c) = 0" "q_multibulklen (resetClient c) = 0" "q_bulklen (resetClient c) = - 1"
  "flags_ok c \<Longrightarrow> flags_ok (resetClient c)"
  by (auto simp: resetClient_def freeClientArgv_def clrflag_def setflag_def Let_def buf_ok_def unparsed_def flags_ok_def)

lemma run_command_ok:
  assumes "runs_commands exec f" "flags_ok c" "in_cmd c input args [] rest" "args \<noteq> []"
  shows "\<exists>c'. run_command exec c s = (Some c', f args s) \<and> idle c' input rest \<and> flags_ok c'"
proof -
  have a: "map obj_bytes (q_argv c) = args" and u: "unparsed c @ input = enc_cmds rest" and b: "buf_ok c"
    using assms(3) by (simp_all add: in_cmd_def split: if_splits)
  from assms(1,2) a obtain c1 where
    c1: "exec c s = (True, Some c1, f args s)" "q_buf c1 = q_buf c" "q_pos c1 = q_pos c" "flags_ok c1"
    unfolding runs_commands_def by blast
  have nb: "CLIENT_BLOCKED \<notin> c_flags c1" "CLIENT_MASTER \<notin> c_flags c1" using c1(4) by (auto simp: flags_ok_def)
  have "q_argv c \<noteq> []" using a assms(4) by auto
  then have "run_command exec c s = (Some (resetClient c1), f args s)" using c1(1) nb by (simp add: run_command_def)
  moreover have "buf_ok c1" "unparsed c1 = unparsed c" using b unfolding buf_ok_def unparsed_def c1(2,3) by blast+
  ultimately show ?thesis using resetClient_ok [of c1] c1(4) u by (simp add: idle_def)
qed

lemma expects_empty:
  assumes "expects c input cmds" "unparsed c = []" "cmds \<noteq> []"
  shows "input \<noteq> []"
proof -
  from assms(1) show ?thesis unfolding expects_def
  proof (elim disjE exE conjE)
    assume "idle c input cmds"
    then show ?thesis using assms(2,3) by (cases cmds) (auto simp: idle_def)
  next
    fix d t rest assume "in_cmd c input d t rest" "t \<noteq> []"
    then show ?thesis using assms(2) by (cases t) (auto simp: in_cmd_def enc_arg_def split: if_splits)
  qed
qed

lemma input_loop_ok:
  assumes env: "env_ok env" and ex: "runs_commands exec f"
  shows "expects c input cmds \<Longrightarrow> flags_ok c \<Longrightarrow> \<forall>args \<in> set cmds. cmd_ok env args \<Longrightarrow>
    \<exists>c' ran rest. input_loop env exec c s = Some (Some c', fold f ran s) \<and> cmds = ran @ rest
      \<and> expects c' input rest \<and> flags_ok c' \<and> waiting env c' \<and> (rest \<noteq> [] \<longrightarrow> input \<noteq> [])"
proof (induction cmds arbitrary: c s rule: length_induct)
  case (1 cmds)
  have ok: "buf_ok c" using 1(2) by (auto simp: expects_def idle_def in_cmd_def)
  have w: "\<not> must_wait env c" using 1(3) env by (auto simp: must_wait_def flags_ok_def env_ok_def)
  show ?case
  proof (cases "unparsed c = []")
    case True
    then have "\<not> q_pos c < sdslen (q_buf c)" using buf_ok_len(4) [OF ok] by (simp add: unparsed_def)
    then have "input_loop env exec c s = Some (Some c, s)" by (subst input_loop.simps) simp
    then show ?thesis using 1(2,3) True expects_empty [OF 1(2) True] env
      by (intro exI [of _ c] exI [of _ "[]"] exI [of _ cmds]) (auto simp: waiting_def env_ok_def)
  next
    case False
    then have lt: "q_pos c < sdslen (q_buf c)" using buf_ok_len(4) [OF ok] by (simp add: unparsed_def)
    from parse_request_ok [OF env 1(2) False 1(4)] obtain ok c1 where
      p: "parse_request env c = Some (ok, c1)" "same_rest c c1"
        "if ok then \<exists>args rest. cmds = args # rest \<and> in_cmd c1 input args [] rest
         else input \<noteq> [] \<and> waiting env c1 \<and> expects c1 input cmds" by auto
    have f1: "flags_ok c1" using 1(3) p(2) by (simp add: flags_ok_def same_rest_def)
    show ?thesis
    proof (cases ok)
      case False
      then have "input_loop env exec c s = Some (Some c1, s)" using p(1) lt w by (subst input_loop.simps) simp
      then show ?thesis using p(3) False f1 by (intro exI [of _ c1] exI [of _ "[]"] exI [of _ cmds]) simp
    next
      case True
      with p(3) obtain args rest where r: "cmds = args # rest" "in_cmd c1 input args [] rest" by auto
      have "args \<noteq> []" using 1(4) r(1) by (simp add: cmd_ok_def)
      from run_command_ok [OF ex f1 r(2) this] obtain c2 where
        c2: "run_command exec c1 s = (Some c2, f args s)" "idle c2 input rest" "flags_ok c2" by auto
      have e: "input_loop env exec c s = input_loop env exec c2 (f args s)"
        using p(1) lt w True c2(1) by (subst input_loop.simps) simp
      have "expects c2 input rest" using c2(2) by (simp add: expects_def)
      from 1(1) [rule_format, OF _ this c2(3), of "f args s"] r(1) 1(4) obtain c' ran rest' where
        "input_loop env exec c2 (f args s) = Some (Some c', fold f ran (f args s))" "rest = ran @ rest'"
        "expects c' input rest'" "flags_ok c'" "waiting env c'" "rest' \<noteq> [] \<longrightarrow> input \<noteq> []" by auto
      then show ?thesis using r(1) e by (intro exI [of _ c'] exI [of _ "args # ran"] exI [of _ rest']) simp
    qed
  qed
qed

lemma processInputBuffer_ok:
  assumes env: "env_ok env" and ex: "runs_commands exec f"
    and inv: "expects c input cmds" "flags_ok c" "\<forall>args \<in> set cmds. cmd_ok env args"
  shows "\<exists>c' ran rest. processInputBuffer env exec c s = Some (Some c', fold f ran s) \<and> cmds = ran @ rest
      \<and> expects c' input rest \<and> flags_ok c' \<and> waiting env c' \<and> q_pos c' = 0 \<and> (rest \<noteq> [] \<longrightarrow> input \<noteq> [])"
proof -
  from input_loop_ok [OF env ex inv] obtain c1 ran rest where
    l: "input_loop env exec c s = Some (Some c1, fold f ran s)" "cmds = ran @ rest"
      "expects c1 input rest" "flags_ok c1" "waiting env c1" "rest \<noteq> [] \<longrightarrow> input \<noteq> []" by blast
  show ?thesis
  proof (cases "q_pos c1 = 0")
    case True
    then show ?thesis using l by (intro exI [of _ c1] exI [of _ ran] exI [of _ rest]) (simp add: processInputBuffer_def)
  next
    case False
    have "buf_ok c1" using l(3) by (auto simp: expects_def idle_def in_cmd_def)
    from compact_ok [OF this] obtain qb where
      q: "sdsrange (q_buf c1) (int (q_pos c1)) (- 1) = Some qb" "sds_inv qb" "sds_val qb = unparsed c1" "length (unparsed c1) < 2 ^ 61" by auto
    define c2 where "c2 = c1\<lparr>q_buf := qb, q_pos := 0\<rparr>"
    have b: "buf_ok c2" "unparsed c2 = unparsed c1" using q by (simp_all add: c2_def buf_ok_def unparsed_def)
    have same: "q_reqtype c2 = q_reqtype c1" "q_argv c2 = q_argv c1" "q_multibulklen c2 = q_multibulklen c1" "q_bulklen c2 = q_bulklen c1"
      "q_argv_cap c2 = q_argv_cap c1" "c_flags c2 = c_flags c1" "q_pos c2 = 0" by (simp_all add: c2_def)
    have "expects c2 input rest" using l(3) unfolding expects_def idle_def in_cmd_def same b(2) using b(1) by blast
    moreover have "processInputBuffer env exec c s = Some (Some c2, fold f ran s)"
      using l(1) False q(1) by (simp add: processInputBuffer_def c2_def)
    moreover have "flags_ok c2" "waiting env c2" using l(4,5) same b by (simp_all add: flags_ok_def waiting_def)
    ultimately show ?thesis using l(2,6) same(7) by blast
  qed
qed

section \<open>Reading from the socket\<close>

lemma sds_receive_ok:
  assumes inv: "sds_inv s" and n: "length (sds_val s) + n < 2 ^ 61" and bs: "length bs \<le> n" "bs \<noteq> []"
  shows "\<exists>s1 s2 s3. sdsMakeRoomFor junk s n = Some s1 \<and> sds_write s1 (sdslen s) bs = Some s2
    \<and> sdsIncrLen s2 (int (length bs)) = Some s3 \<and> sds_inv s3 \<and> sds_val s3 = sds_val s @ bs"
proof -
  from sdsMakeRoomFor_ok [OF inv, of n junk] n obtain s1 where
    s1: "sdsMakeRoomFor junk s n = Some s1" "sds_inv s1" "sds_val s1 = sds_val s" "s_len s1 = s_len s" "sds_room s1 (s_len s + n)"
    by (auto simp: sds_len_val [OF inv])
  let ?k = "s_len s + length bs" and ?rest = "drop (s_len s + length bs) (s_buf s1)"
  have lt: "?k < length (s_buf s1)" using s1(5) bs(1) by (simp add: sds_room_def)
  have "s_buf s1 = take (s_len s) (s_buf s1) @ take (length bs) (drop (s_len s) (s_buf s1)) @ ?rest"
    by (metis append_take_drop_id drop_drop add.commute)
  then have w: "sds_write s1 (sdslen s) bs = Some (s1\<lparr>s_buf := take (s_len s) (s_buf s1) @ bs @ ?rest\<rparr>)"
    using lt by (intro sds_write_at [where ys = "take (length bs) (drop (s_len s) (s_buf s1))"]) (simp_all add: sdslen_def)
  define s2 where "s2 = s1\<lparr>s_buf := take (s_len s) (s_buf s1) @ bs @ ?rest\<rparr>"
  have f: "s_len s2 = s_len s" "s_type s2 = s_type s1" "s_alloc s2 = s_alloc s1" "length (s_buf s2) = length (s_buf s1)"
    using s1(4) lt by (simp_all add: s2_def)
  have t: "take ?k (s_buf s2) = sds_val s @ bs" unfolding s1(3) [symmetric] using lt s1(4) by (simp add: s2_def sds_val_def)
  have sh: "sds_shape s2" using s1(2,4) f by (simp add: sds_inv_def sds_shape_def)
  have r: "sds_room s2 ?k" using s1(5) f bs(1) lt by (auto simp: sds_room_def)
  have k: "nat (int (s_len s2) + int (length bs)) = ?k" using f by simp
  from sdsIncrLen_ok [OF sh, of "int (length bs)"] r bs(2) obtain s3 where
    "sdsIncrLen s2 (int (length bs)) = Some s3" "sds_inv s3" "sds_val s3 = sds_val s @ bs"
    unfolding k t by auto
  with s1(1) w show ?thesis unfolding s2_def [symmetric] by blast
qed

lemma expects_cong:
  assumes "expects c i cmds" "buf_ok c'" "unparsed c' @ i' = unparsed c @ i"
    and "q_reqtype c' = q_reqtype c" "q_argv c' = q_argv c" "q_multibulklen c' = q_multibulklen c" "q_bulklen c' = q_bulklen c"
      "q_argv_cap c' = q_argv_cap c"
  shows "expects c' i' cmds"
  using assms(1) unfolding expects_def idle_def in_cmd_def assms(3-) using assms(2) by blast

lemma read_length_range: "0 < read_length c" "read_length c \<le> 16384"
  by (auto simp: read_length_def Let_def PROTO_IOBUF_LEN_def)

lemma readQueryFromClient_ok:
  assumes env: "env_ok env" and inv: "expects c (bs @ input) cmds" "flags_ok c" "waiting env c" "q_pos c = 0"
    and rd: "rd (nat (read_length c)) = ReadBytes bs" "bs \<noteq> []" "length bs \<le> nat (read_length c)"
  shows "\<exists>c'. readQueryFromClient env rd c = Some (Some c') \<and> expects c' input cmds \<and> flags_ok c'"
proof -
  have ok: "buf_ok c" using inv(1) by (auto simp: expects_def idle_def in_cmd_def)
  have u: "unparsed c = sds_val (q_buf c)" using inv(4) by (simp add: unparsed_def)
  have lim: "length (sds_val (q_buf c)) + 16384 < client_max_querybuf_len env" "client_max_querybuf_len env < 2 ^ 60"
    using inv(3) env by (simp_all add: waiting_def u env_ok_def)
  have n: "nat (read_length c) \<le> 16384" using read_length_range(2) [of c] by simp
  have b: "sds_inv (q_buf c)" "length (sds_val (q_buf c)) + nat (read_length c) < 2 ^ 61"
    using ok lim n by (simp_all add: buf_ok_def)
  from sds_receive_ok [OF b rd(3,2), of "e_junk env"] obtain s1 s2 s3 where
    s: "sdsMakeRoomFor (e_junk env) (q_buf c) (nat (read_length c)) = Some s1" "sds_write s1 (sdslen (q_buf c)) bs = Some s2"
      "sdsIncrLen s2 (int (length bs)) = Some s3" "sds_inv s3" "sds_val s3 = sds_val (q_buf c) @ bs" by auto
  have l: "\<not> sdslen s3 > client_max_querybuf_len env"
    using sds_len_val [OF s(4)] s(5) lim(1) rd(3) n by (simp add: sdslen_def)
  have m: "CLIENT_MASTER \<notin> c_flags c" using inv(2) by (auto simp: flags_ok_def)
  define c0 where "c0 = (if q_peak c < sdslen (q_buf c) then c\<lparr>q_peak := sdslen (q_buf c)\<rparr> else c)"
  define c' where "c' = c0\<lparr>q_buf := s3, c_lastinteraction := unixtime (e_reply env)\<rparr>"
  have c0: "q_buf c0 = q_buf c" "c_flags c0 = c_flags c" by (simp_all add: c0_def)
  have "readQueryFromClient env rd c = Some (Some c')"
    unfolding readQueryFromClient_def Let_def c0_def [symmetric] using s(1,2,3) rd(1,2) m l c0 by (simp add: c'_def)
  moreover have "expects c' input cmds"
  proof (rule expects_cong [OF inv(1)])
    have p: "q_pos c' = 0" "q_buf c' = s3" using inv(4) by (simp_all add: c'_def c0_def)
    show "unparsed c' @ input = unparsed c @ bs @ input" unfolding u by (simp add: unparsed_def p s(5))
    have "length (sds_val s3) < 2 ^ 61" using s(5) lim rd(3) n by simp
    then show "buf_ok c'" using s(4) p by (simp add: buf_ok_def)
  qed (simp_all add: c'_def c0_def)
  moreover have "flags_ok c'" using inv(2) by (simp add: flags_ok_def c'_def c0_def)
  ultimately show ?thesis by blast
qed

text \<open>
  The socket: each call of the read handler finds at least one byte and at most \<open>Suc k\<close> bytes of the stream, and
  what was read is processed at once.
\<close>

fun serve ::
  "request_env \<Rightarrow> ('a rclient_scheme \<Rightarrow> 's \<Rightarrow> bool \<times> 'a rclient_scheme option \<times> 's) \<Rightarrow> nat list \<Rightarrow> byte list
     \<Rightarrow> 'a rclient_scheme \<Rightarrow> 's \<Rightarrow> ('a rclient_scheme \<times> 's \<times> byte list) option" where
  "serve env exec [] input c s = Some (c, s, input)"
| "serve env exec (k # ks) input c s =
     (if input = [] then Some (c, s, [])
      else do {
        let n = min (nat (read_length c)) (Suc k);
        oc \<leftarrow> readQueryFromClient env (\<lambda>len. ReadBytes (take (min len (Suc k)) input)) c;
        c \<leftarrow> oc;
        (oc, s) \<leftarrow> processInputBuffer env exec c s;
        c \<leftarrow> oc;
        serve env exec ks (drop n input) c s })"

lemma serve_ok:
  assumes env: "env_ok env" and ex: "runs_commands exec f"
  shows "expects c input cmds \<Longrightarrow> flags_ok c \<Longrightarrow> waiting env c \<Longrightarrow> q_pos c = 0 \<Longrightarrow> \<forall>args \<in> set cmds. cmd_ok env args \<Longrightarrow>
    cmds \<noteq> [] \<longrightarrow> input \<noteq> [] \<Longrightarrow> length input \<le> length ks \<Longrightarrow>
    \<exists>c'. serve env exec ks input c s = Some (c', fold f cmds s, []) \<and> expects c' [] []"
proof (induction ks arbitrary: c input cmds s)
  case Nil
  then show ?case by auto
next
  case (Cons k ks)
  show ?case
  proof (cases "input = []")
    case True
    then show ?thesis using Cons.prems by auto
  next
    case False
    define n where "n = min (nat (read_length c)) (Suc k)"
    have n: "0 < n" "n \<le> nat (read_length c)" using read_length_range(1) [of c] by (simp_all add: n_def)
    have e: "expects c (take n input @ drop n input) cmds" using Cons.prems(1) by simp
    have l: "length (take n input) \<le> nat (read_length c)" "take n input \<noteq> []" using n False by auto
    from readQueryFromClient_ok [OF env e Cons.prems(2,3,4) _ l(2,1), of "\<lambda>len. ReadBytes (take (min len (Suc k)) input)"]
    obtain c1 where c1: "readQueryFromClient env (\<lambda>len. ReadBytes (take (min len (Suc k)) input)) c = Some (Some c1)"
      "expects c1 (drop n input) cmds" "flags_ok c1" by (auto simp: n_def)
    from processInputBuffer_ok [OF env ex c1(2,3) Cons.prems(5), of s] obtain c2 ran rest where
      c2: "processInputBuffer env exec c1 s = Some (Some c2, fold f ran s)" "cmds = ran @ rest" "expects c2 (drop n input) rest"
        "flags_ok c2" "waiting env c2" "q_pos c2 = 0" "rest \<noteq> [] \<longrightarrow> drop n input \<noteq> []" by blast
    have "length (drop n input) \<le> length ks" using Cons.prems(7) n(1) False by simp
    from Cons.IH [OF c2(3-6) _ c2(7) this, of "fold f ran s"] Cons.prems(5) c2(2) obtain c' where
      "serve env exec ks (drop n input) c2 (fold f ran s) = Some (c', fold f rest (fold f ran s), [])" "expects c' [] []" by auto
    with c1(1) c2(1,2) False show ?thesis by (simp add: n_def [symmetric])
  qed
qed

section \<open>A stream of commands\<close>

lemma createClientInput_ok:
  "\<exists>c0. createClientInput junk (createClient buf now fd) = Some c0 \<and> idle c0 (enc_cmds cmds) cmds \<and> flags_ok c0
    \<and> unparsed c0 = [] \<and> q_pos c0 = 0"
proof -
  from sdsnewlen_ok [of 0 "InitFrom [0]" junk] obtain e where e: "sdsempty junk = Some e" "sds_inv e" "sds_val e = []"
    by (auto simp: sdsempty_def)
  then show ?thesis
    by (auto simp: createClientInput_def createClient_def idle_def flags_ok_def buf_ok_def unparsed_def client.defs rclient.defs)
qed

text \<open>C5: the commands a client writes are the commands the server runs. The multi-bulk encoding of any sequence
  of commands, delivered to the read handler in pieces of any size, is parsed without an access outside the query
  buffer or a protocol error, and the commands run in their order, each with exactly the arguments that
  were written; at the end nothing is left in the query buffer. \<open>exec\<close> stands for \<^verbatim>\<open>processCommand\<close>; the hypothesis
  on it is that commands act through the values of their arguments and do not block or close the
  client. One call of the handler per byte is always enough.\<close>

theorem request_stream_parsed:
  assumes "env_ok env" "runs_commands exec f" "\<forall>args \<in> set cmds. cmd_ok env args"
    and "length (enc_cmds cmds) \<le> length ks"
  shows "\<exists>c0 c'. createClientInput junk (createClient buf now fd) = Some c0
    \<and> serve env exec ks (enc_cmds cmds) c0 s = Some (c', fold f cmds s, []) \<and> unparsed c' = [] \<and> q_argv c' = []"
proof -
  obtain c0 where c0: "createClientInput junk (createClient buf now fd) = Some c0" "idle c0 (enc_cmds cmds) cmds" "flags_ok c0"
    "unparsed c0 = []" "q_pos c0 = 0" using createClientInput_ok by blast
  have "waiting env c0" using assms(1) c0(4) by (simp add: waiting_def env_ok_def)
  moreover have "expects c0 (enc_cmds cmds) cmds" using c0(2) by (simp add: expects_def)
  moreover have "cmds \<noteq> [] \<longrightarrow> enc_cmds cmds \<noteq> []" by (cases cmds) simp_all
  ultimately obtain c' where c': "serve env exec ks (enc_cmds cmds) c0 s = Some (c', fold f cmds s, [])" "expects c' [] []"
    using serve_ok [OF assms(1,2) _ c0(3) _ c0(5) assms(3) _ assms(4)] by blast
  have "unparsed c' = [] \<and> q_argv c' = []" using c'(2) by (auto simp: expects_def idle_def)
  with c0(1) c'(1) show ?thesis by blast
qed

theorem request_stream_parsed_witness:
  "\<exists>c0 c'. createClientInput (\<lambda>_. 0) (createClient (replicate 16384 0) 1 9) = Some c0
    \<and> serve \<lparr>e_reply = \<lparr>slack = \<lambda>_. 0, obuf_limits = \<lambda>_. \<lparr>hard_limit_bytes = 0, soft_limit_bytes = 0, soft_limit_seconds = 0\<rparr>,
          unixtime = 5\<rparr>, e_junk = \<lambda>_. 7, proto_max_bulk_len = 536870912, client_max_querybuf_len = 1073741824,
          clients_paused = False, lua_timedout = False\<rparr>
        (\<lambda>c s. (True, Some c, s @ [map obj_bytes (q_argv c)])) (replicate 60 2)
        (enc_cmds [[bytes_of ''GET'', bytes_of ''k''], [bytes_of ''PING'']]) c0 []
      = Some (c', fold (\<lambda>args s. s @ [args]) [[bytes_of ''GET'', bytes_of ''k''], [bytes_of ''PING'']] [], [])
    \<and> unparsed c' = [] \<and> q_argv c' = []"
  by (rule request_stream_parsed) (auto simp: env_ok_def runs_commands_def cmd_ok_def arg_ok_def enc_arg_def dec_small)

end
