(* ===== verification/Replication.thy ===== *)
theory Replication
  imports Client_Request Client_Reply_Refine Server_Dict
begin

text \<open>
  The master side of replication, \<^verbatim>\<open>replication.c\<close>: the backlog, a circular buffer with the end of the replication
  stream; feeding replicas; full and partial resynchronisation; acknowledgements and \<^verbatim>\<open>WAIT\<close>. The
  clients are a store indexed by addresses, because the lists of replicas and of waiting clients hold
  pointers to them. Offsets are \<^verbatim>\<open>long long\<close>; they are integers here, as a stream does not reach \<open>2 ^ 63\<close>
  bytes. Log messages are left out.
\<close>

section \<open>State\<close>

datatype slave_capa = SLAVE_CAPA_EOF | SLAVE_CAPA_PSYNC2

text \<open>\<open>sl_wire\<close> is what was written to the socket of the client.\<close>

record slave = rclient +
  sl_wire :: "byte list"
  sl_ack_off :: int
  sl_psync_initial_offset :: int
  sl_capa :: "slave_capa set"
  sl_listening_port :: int
  sl_ip :: "byte list"
  sl_woff :: int
  b_wait :: bool  \<comment> \<open>\<^verbatim>\<open>btype == BLOCKED_WAIT\<close>\<close>
  b_timeout :: int
  b_reploffset :: int
  b_numreplicas :: int

datatype rdb_child = NoChild | DiskChild | SocketChild

record repl_srv =
  clients :: "nat \<Rightarrow> slave"
  slaves :: "nat list"
  repl_backlog :: "byte list option"
  repl_backlog_size :: int
  repl_backlog_histlen :: int
  repl_backlog_idx :: int
  repl_backlog_off :: int
  master_repl_offset :: int
  slaveseldb :: int
  masterhost :: "byte list option"
  repl_connected :: bool  \<comment> \<open>\<^verbatim>\<open>repl_state == REPL_STATE_CONNECTED\<close>\<close>
  the_master :: "nat option"
  cached_master :: "nat option"
  replid :: "byte list"
  replid2 :: "byte list"
  second_replid_offset :: int
  repl_min_slaves_to_write :: int
  repl_min_slaves_max_lag :: int
  repl_good_slaves_count :: int
  repl_no_slaves_since :: int
  rdb_child_type :: rdb_child
  aof_child :: bool
  repl_diskless_sync :: bool
  clients_waiting_acks :: "nat list"
  unblocked_clients :: "nat list"
  blocked_clients :: int
  blocked_wait :: int  \<comment> \<open>\<^verbatim>\<open>blocked_clients_by_type[BLOCKED_WAIT]\<close>\<close>
  get_ack_from_slaves :: bool
  repl_scriptcache_size :: nat
  repl_scriptcache_dict :: "byte list set"
  repl_scriptcache_fifo :: "byte list list"
  stat_sync_full :: nat
  stat_sync_partial_ok :: nat
  stat_sync_partial_err :: nat

definition set_client :: "nat \<Rightarrow> slave \<Rightarrow> repl_srv \<Rightarrow> repl_srv" where
  "set_client i c s = s\<lparr>clients := (clients s)(i := c)\<rparr>"

text \<open>The state at the start of the server, with the defaults of the configuration.\<close>

definition initServer_repl :: "(nat \<Rightarrow> slave) \<Rightarrow> byte list \<Rightarrow> int \<Rightarrow> repl_srv" where
  "initServer_repl cl rnd now =
     \<lparr>clients = cl, slaves = [], repl_backlog = None, repl_backlog_size = 1024 * 1024, repl_backlog_histlen = 0,
      repl_backlog_idx = 0, repl_backlog_off = 0, master_repl_offset = 0, slaveseldb = - 1, masterhost = None,
      repl_connected = False, the_master = None, cached_master = None, replid = rnd, replid2 = replicate 40 (ch CHR ''0''),
      second_replid_offset = - 1, repl_min_slaves_to_write = 0, repl_min_slaves_max_lag = 10, repl_good_slaves_count = 0,
      repl_no_slaves_since = now, rdb_child_type = NoChild, aof_child = False, repl_diskless_sync = False,
      clients_waiting_acks = [], unblocked_clients = [], blocked_clients = 0, blocked_wait = 0, get_ack_from_slaves = False, repl_scriptcache_size = 10000,
      repl_scriptcache_dict = {}, repl_scriptcache_fifo = [], stat_sync_full = 0, stat_sync_partial_ok = 0,
      stat_sync_partial_err = 0\<rparr>"

definition createReplClient :: "(nat \<Rightarrow> byte) \<Rightarrow> client \<Rightarrow> slave option" where
  "createReplClient junk c =
     map_option (\<lambda>r. rclient.extend r (slave.fields [] 0 0 {} 0 [] 0 False 0 0 0)) (createClientInput junk c)"

text \<open>An operation on a client of the store.\<close>

definition on_client :: "nat \<Rightarrow> (slave \<Rightarrow> slave option) \<Rightarrow> repl_srv \<Rightarrow> repl_srv option" where
  "on_client i f s = map_option (\<lambda>c. set_client i c s) (f (clients s i))"

text \<open>The loops over the list of replicas that skip the ones waiting for a BGSAVE.\<close>

fun feed_each :: "(slave \<Rightarrow> slave option) \<Rightarrow> nat list \<Rightarrow> repl_srv \<Rightarrow> repl_srv option" where
  "feed_each f [] s = Some s"
| "feed_each f (i # is) s = do {
     s \<leftarrow> (if c_replstate (clients s i) = SLAVE_STATE_WAIT_BGSAVE_START then Some s else on_client i f s);
     feed_each f is s }"

section \<open>The backlog\<close>

definition CONFIG_REPL_BACKLOG_MIN_SIZE :: int where "CONFIG_REPL_BACKLOG_MIN_SIZE = 16384"
definition CONFIG_RUN_ID_SIZE :: nat where "CONFIG_RUN_ID_SIZE = 40"
definition PROTO_SHARED_SELECT_CMDS :: int where "PROTO_SHARED_SELECT_CMDS = 10"
definition LONG_STR_SIZE :: nat where "LONG_STR_SIZE = 21"

text \<open>\<open>junk\<close> is the contents of new memory.\<close>

definition createReplicationBacklog :: "(nat \<Rightarrow> byte) \<Rightarrow> repl_srv \<Rightarrow> repl_srv option" where
  "createReplicationBacklog junk s =
     (if repl_backlog s \<noteq> None then None
      else Some (s\<lparr>repl_backlog := Some (map junk [0..<nat (repl_backlog_size s)]), repl_backlog_histlen := 0,
        repl_backlog_idx := 0, repl_backlog_off := master_repl_offset s + 1\<rparr>))"

definition resizeReplicationBacklog :: "(nat \<Rightarrow> byte) \<Rightarrow> int \<Rightarrow> repl_srv \<Rightarrow> repl_srv" where
  "resizeReplicationBacklog junk newsize s =
     (let newsize = (if newsize < CONFIG_REPL_BACKLOG_MIN_SIZE then CONFIG_REPL_BACKLOG_MIN_SIZE else newsize) in
      if repl_backlog_size s = newsize then s
      else
        let s = s\<lparr>repl_backlog_size := newsize\<rparr>
        in if repl_backlog s \<noteq> None then
             s\<lparr>repl_backlog := Some (map junk [0..<nat (repl_backlog_size s)]), repl_backlog_histlen := 0,
               repl_backlog_idx := 0, repl_backlog_off := master_repl_offset s + 1\<rparr>
           else s)"

definition freeReplicationBacklog :: "repl_srv \<Rightarrow> repl_srv option" where
  "freeReplicationBacklog s = (if slaves s \<noteq> [] then None else Some (s\<lparr>repl_backlog := None\<rparr>))"

partial_function (option) feed_loop :: "byte list \<Rightarrow> repl_srv \<Rightarrow> repl_srv option" where
  "feed_loop p s =
     (if p = [] then Some s
      else do {
        b \<leftarrow> repl_backlog s;
        let thislen = nat ((repl_backlog_size s - repl_backlog_idx s) mod 2 ^ 64);
        let thislen = (if thislen > length p then length p else thislen);
        b \<leftarrow> write_at b (nat (repl_backlog_idx s)) (take thislen p);
        let idx = repl_backlog_idx s + int thislen;
        let idx = (if idx = repl_backlog_size s then 0 else idx);
        feed_loop (drop thislen p)
          (s\<lparr>repl_backlog := Some b, repl_backlog_idx := idx, repl_backlog_histlen := repl_backlog_histlen s + int thislen\<rparr>) })"

definition feedReplicationBacklog :: "byte list \<Rightarrow> repl_srv \<Rightarrow> repl_srv option" where
  "feedReplicationBacklog p s = do {
     let s = s\<lparr>master_repl_offset := master_repl_offset s + int (length p)\<rparr>;
     s \<leftarrow> feed_loop p s;
     let s = (if repl_backlog_histlen s > repl_backlog_size s then s\<lparr>repl_backlog_histlen := repl_backlog_size s\<rparr> else s);
     Some (s\<lparr>repl_backlog_off := master_repl_offset s - repl_backlog_histlen s + 1\<rparr>) }"

definition feedReplicationBacklogWithObject :: "strobj \<Rightarrow> repl_srv \<Rightarrow> repl_srv option" where
  "feedReplicationBacklogWithObject o1 s =
     (case so_ptr o1 of
        IntPtr v \<Rightarrow> do { (len, buf) \<leftarrow> ll2buf LONG_STR_SIZE v; feedReplicationBacklog (take len buf) s }
      | RawPtr p _ \<Rightarrow> feedReplicationBacklog p s
      | EmbPtr p \<Rightarrow> feedReplicationBacklog p s)"

section \<open>Feeding replicas\<close>

text \<open>The SELECT command, shared or built for the occasion: the text is the same.\<close>

definition select_cmd :: "int \<Rightarrow> strobj option" where
  "select_cmd dictid = do {
     (len, llstr) \<leftarrow> ll2buf LONG_STR_SIZE (of_int dictid);
     Some (createRawStringObject (bytes_of ''*2'' @ crlf @ bytes_of ''$6'' @ crlf @ bytes_of ''SELECT'' @ crlf
       @ ch CHR ''$'' # dec len @ crlf @ cstring llstr @ crlf)) }"

text \<open>A prefix, a number and a line end, built in the buffer \<^verbatim>\<open>aux\<close>.\<close>

definition aux_header :: "byte \<Rightarrow> int \<Rightarrow> byte list option" where
  "aux_header prefix n = do {
     (len, buf) \<leftarrow> ll2buf (LONG_STR_SIZE + 2) (of_int n);
     (if len + 2 < LONG_STR_SIZE + 3 then Some (prefix # take len buf @ crlf) else None) }"

fun feed_args :: "strobj list \<Rightarrow> repl_srv \<Rightarrow> repl_srv option" where
  "feed_args [] s = Some s"
| "feed_args (o1 # argv) s = do {
     aux \<leftarrow> aux_header (ch CHR ''$'') (int (stringObjectLen o1));
     s \<leftarrow> feedReplicationBacklog aux s;
     s \<leftarrow> feedReplicationBacklogWithObject o1 s;
     s \<leftarrow> feedReplicationBacklog crlf s;
     feed_args argv s }"

fun add_bulks :: "reply_env \<Rightarrow> strobj list \<Rightarrow> slave \<Rightarrow> slave option" where
  "add_bulks env [] c = Some c"
| "add_bulks env (o1 # argv) c = do { c \<leftarrow> addReplyBulk env c o1; add_bulks env argv c }"

definition replicationFeedSlaves :: "reply_env \<Rightarrow> nat list \<Rightarrow> int \<Rightarrow> strobj list \<Rightarrow> repl_srv \<Rightarrow> repl_srv option" where
  "replicationFeedSlaves env sls dictid argv s =
     (if masterhost s \<noteq> None then Some s
      else if repl_backlog s = None \<and> sls = [] then Some s
      else if sls \<noteq> [] \<and> repl_backlog s = None then None
      else do {
        s \<leftarrow> (if slaveseldb s \<noteq> dictid then do {
               selectcmd \<leftarrow> select_cmd dictid;
               s \<leftarrow> (if repl_backlog s \<noteq> None then feedReplicationBacklogWithObject selectcmd s else Some s);
               feed_each (\<lambda>c. addReply env c selectcmd) sls s }
             else Some s);
        let s = s\<lparr>slaveseldb := dictid\<rparr>;
        s \<leftarrow> (if repl_backlog s \<noteq> None then do {
               aux \<leftarrow> aux_header (ch CHR ''*'') (int (length argv));
               s \<leftarrow> feedReplicationBacklog aux s;
               feed_args argv s }
             else Some s);
        feed_each (\<lambda>c. do { c \<leftarrow> addReplyMultiBulkLen env c (int (length argv)); add_bulks env argv c }) sls s })"

definition replicationFeedSlavesFromMasterStream :: "reply_env \<Rightarrow> nat list \<Rightarrow> byte list \<Rightarrow> repl_srv \<Rightarrow> repl_srv option" where
  "replicationFeedSlavesFromMasterStream env sls buf s = do {
     s \<leftarrow> (if repl_backlog s \<noteq> None then feedReplicationBacklog buf s else Some s);
     feed_each (\<lambda>c. addReplyString env c buf) sls s }"

section \<open>Partial resynchronisation\<close>

text \<open>The second part starts at the beginning of the buffer.\<close>

partial_function (option) backlog_loop :: "reply_env \<Rightarrow> byte list \<Rightarrow> int \<Rightarrow> int \<Rightarrow> int \<Rightarrow> slave \<Rightarrow> slave option" where
  "backlog_loop env b bsize j len c =
     (if len = 0 then Some c
      else do {
        let thislen = (if bsize - j < len then bsize - j else len);
        data \<leftarrow> read_at b (nat j) (nat thislen);
        c \<leftarrow> addReplySds env c data;
        backlog_loop env b bsize 0 (len - thislen) c })"

text \<open>C's \<^verbatim>\<open>%\<close> and Isabelle's \<open>mod\<close> agree on the operands here, which are not negative.\<close>

definition addReplyReplicationBacklog :: "reply_env \<Rightarrow> nat \<Rightarrow> int \<Rightarrow> repl_srv \<Rightarrow> (int \<times> repl_srv) option" where
  "addReplyReplicationBacklog env i offset s =
     (if repl_backlog_histlen s = 0 then Some (0, s)
      else do {
        b \<leftarrow> repl_backlog s;
        let skip = offset - repl_backlog_off s;
        let j = (repl_backlog_idx s + (repl_backlog_size s - repl_backlog_histlen s)) mod repl_backlog_size s;
        let j = (j + skip) mod repl_backlog_size s;
        let len = repl_backlog_histlen s - skip;
        s \<leftarrow> on_client i (backlog_loop env b (repl_backlog_size s) j len) s;
        Some (repl_backlog_histlen s - skip, s) })"

definition getPsyncInitialOffset :: "repl_srv \<Rightarrow> int" where
  "getPsyncInitialOffset s = master_repl_offset s"

text \<open>\<open>wrote\<close> tells whether the direct write to the socket took all the bytes.\<close>

definition direct_write :: "bool \<Rightarrow> byte list \<Rightarrow> slave \<Rightarrow> slave" where
  "direct_write wrote bs c = (if wrote then c\<lparr>sl_wire := sl_wire c @ bs\<rparr> else freeClientAsync c)"

definition replicationSetupSlaveForFullResync :: "bool \<Rightarrow> nat \<Rightarrow> int \<Rightarrow> repl_srv \<Rightarrow> bool \<times> repl_srv" where
  "replicationSetupSlaveForFullResync wrote i offset s =
     (let c = (clients s i)\<lparr>sl_psync_initial_offset := offset, c_replstate := SLAVE_STATE_WAIT_BGSAVE_END\<rparr>;
          s = (set_client i c s)\<lparr>slaveseldb := - 1\<rparr>
      in if CLIENT_PRE_PSYNC \<notin> c_flags c then
           (wrote, set_client i (direct_write wrote
              (bytes_of ''+FULLRESYNC '' @ replid s @ ch CHR '' '' # dec_int offset @ crlf) c) s)
         else (True, s))"

definition refreshGoodSlavesCount :: "reply_env \<Rightarrow> repl_srv \<Rightarrow> repl_srv" where
  "refreshGoodSlavesCount env s =
     (if repl_min_slaves_to_write s = 0 \<or> repl_min_slaves_max_lag s = 0 then s
      else s\<lparr>repl_good_slaves_count := int (length (filter (\<lambda>i.
        c_replstate (clients s i) = SLAVE_STATE_ONLINE
        \<and> unixtime env - q_repl_ack_time (clients s i) \<le> repl_min_slaves_max_lag s) (slaves s)))\<rparr>)"

text \<open>The result is whether no full resynchronisation is needed.\<close>

definition masterTryPartialResynchronization :: "reply_env \<Rightarrow> bool \<Rightarrow> nat \<Rightarrow> repl_srv \<Rightarrow> (bool \<times> repl_srv) option" where
  "masterTryPartialResynchronization env wrote i s =
     (let c = clients s i; argv = q_argv c in
      if \<not> 2 < length argv then None
      else
        let master_replid = sds_of (argv ! 1) in
        case getLongLongFromObjectOrReply (Some (argv ! 2)) None of
          Inl msg \<Rightarrow> map_option (\<lambda>s. (False, s)) (on_client i (\<lambda>c. addReplyError env c (bytes_of msg @ [0])) s)
        | Inr psync_offset \<Rightarrow>
            if \<not> strcasecmp_eq master_replid (replid s)
               \<and> (\<not> strcasecmp_eq master_replid (replid2 s) \<or> psync_offset > second_replid_offset s)
            then Some (False, s)
            else if repl_backlog s = None \<or> psync_offset < repl_backlog_off s
               \<or> psync_offset > repl_backlog_off s + repl_backlog_histlen s
            then Some (False, s)
            else
              let c = (setflag CLIENT_SLAVE c)\<lparr>c_replstate := SLAVE_STATE_ONLINE, q_repl_ack_time := unixtime env,
                    c_put_online_on_ack := False\<rparr>;
                  line = (if SLAVE_CAPA_PSYNC2 \<in> sl_capa c then bytes_of ''+CONTINUE '' @ replid s @ crlf
                          else bytes_of ''+CONTINUE'' @ crlf);
                  s = (set_client i (direct_write wrote line c) s)\<lparr>slaves := slaves s @ [i]\<rparr>
              in if \<not> wrote then Some (True, s)
                 else do {
                   (_, s) \<leftarrow> addReplyReplicationBacklog env i psync_offset s;
                   Some (True, refreshGoodSlavesCount env s) })"

section \<open>Replication identifiers\<close>

text \<open>\<open>rnd\<close> is what \<^verbatim>\<open>getRandomHexChars\<close> returns.\<close>

definition changeReplicationId :: "byte list \<Rightarrow> repl_srv \<Rightarrow> repl_srv" where
  "changeReplicationId rnd s = s\<lparr>replid := rnd\<rparr>"

definition clearReplicationId2 :: "repl_srv \<Rightarrow> repl_srv" where
  "clearReplicationId2 s = s\<lparr>replid2 := replicate CONFIG_RUN_ID_SIZE (ch CHR ''0''), second_replid_offset := - 1\<rparr>"

definition shiftReplicationId :: "byte list \<Rightarrow> repl_srv \<Rightarrow> repl_srv" where
  "shiftReplicationId rnd s =
     changeReplicationId rnd (s\<lparr>replid2 := replid s, second_replid_offset := master_repl_offset s + 1\<rparr>)"

section \<open>Script cache\<close>

text \<open>The dictionary of known scripts and the queue that says which one to evict.\<close>

definition replicationScriptCacheInit :: "repl_srv \<Rightarrow> repl_srv" where
  "replicationScriptCacheInit s =
     s\<lparr>repl_scriptcache_size := 10000, repl_scriptcache_dict := {}, repl_scriptcache_fifo := []\<rparr>"

definition replicationScriptCacheFlush :: "repl_srv \<Rightarrow> repl_srv" where
  "replicationScriptCacheFlush s = s\<lparr>repl_scriptcache_dict := {}, repl_scriptcache_fifo := []\<rparr>"

definition replicationScriptCacheExists :: "byte list \<Rightarrow> repl_srv \<Rightarrow> bool" where
  "replicationScriptCacheExists sha1 s \<longleftrightarrow> (\<exists>key \<in> repl_scriptcache_dict s. dictSdsKeyCaseCompare () key sha1)"

definition replicationScriptCacheAdd :: "byte list \<Rightarrow> repl_srv \<Rightarrow> repl_srv option" where
  "replicationScriptCacheAdd sha1 s = do {
     s \<leftarrow> (if length (repl_scriptcache_fifo s) = repl_scriptcache_size s then
            if repl_scriptcache_fifo s = [] then None
            else let oldest = last (repl_scriptcache_fifo s) in
              if \<not> replicationScriptCacheExists oldest s then None
              else Some (s\<lparr>repl_scriptcache_dict := {key \<in> repl_scriptcache_dict s. \<not> dictSdsKeyCaseCompare () key oldest},
                repl_scriptcache_fifo := butlast (repl_scriptcache_fifo s)\<rparr>)
          else Some s);
     (if replicationScriptCacheExists sha1 s then None
      else Some (s\<lparr>repl_scriptcache_dict := insert sha1 (repl_scriptcache_dict s),
        repl_scriptcache_fifo := sha1 # repl_scriptcache_fifo s\<rparr>)) }"

section \<open>Full resynchronisation\<close>

definition copyClientOutputBuffer :: "'a client_scheme \<Rightarrow> 'a client_scheme \<Rightarrow> 'a client_scheme option" where
  "copyClientOutputBuffer dst src = do {
     (if \<exists>n \<in> set (c_reply src). snd n = None then None else Some ());
     buf \<leftarrow> write_at (c_buf dst) 0 (take (c_bufpos src) (c_buf src));
     Some (dst\<lparr>c_sentlen := 0, c_reply := map (\<lambda>(k, b). (k + c_next_node dst, b)) (c_reply src),
       c_next_node := c_next_node dst + c_next_node src, c_buf := buf, c_bufpos := c_bufpos src,
       c_reply_bytes := c_reply_bytes src\<rparr>) }"

text \<open>The loops of \<^verbatim>\<open>startBgsaveForReplication\<close> over the waiting replicas; \<open>wrote i\<close> is the direct write to client \<open>i\<close>.\<close>

fun fail_waiting :: "reply_env \<Rightarrow> nat list \<Rightarrow> repl_srv \<Rightarrow> repl_srv option" where
  "fail_waiting env [] s = Some s"
| "fail_waiting env (i # is) s = do {
     s \<leftarrow> (if c_replstate (clients s i) = SLAVE_STATE_WAIT_BGSAVE_START then do {
            s \<leftarrow> on_client i (\<lambda>c. do {
                   c \<leftarrow> addReplyError env (clrflag CLIENT_SLAVE (c\<lparr>c_replstate := REPL_STATE_NONE\<rparr>))
                          (bytes_of ''BGSAVE failed, replication can'' @ [39] @ bytes_of ''t continue'' @ [0]);
                   Some (setflag CLIENT_CLOSE_AFTER_REPLY c) }) s;
            Some (s\<lparr>slaves := remove1 i (slaves s)\<rparr>) }
          else Some s);
     fail_waiting env is s }"

fun setup_waiting :: "(nat \<Rightarrow> bool) \<Rightarrow> nat list \<Rightarrow> repl_srv \<Rightarrow> repl_srv" where
  "setup_waiting wrote [] s = s"
| "setup_waiting wrote (i # is) s =
     setup_waiting wrote is
       (if c_replstate (clients s i) = SLAVE_STATE_WAIT_BGSAVE_START
        then snd (replicationSetupSlaveForFullResync (wrote i) i (getPsyncInitialOffset s) s) else s)"

text \<open>
  \<open>bgsave socket\<close> stands for \<^verbatim>\<open>rdbPopulateSaveInfo\<close> and \<^verbatim>\<open>rdbSaveBackground\<close> or \<^verbatim>\<open>rdbSaveToSlavesSockets\<close>: whether the
  child was started, and the server afterwards.
\<close>

definition startBgsaveForReplication ::
  "reply_env \<Rightarrow> (nat \<Rightarrow> bool) \<Rightarrow> (bool \<Rightarrow> repl_srv \<Rightarrow> bool \<times> repl_srv) \<Rightarrow> slave_capa set \<Rightarrow> repl_srv \<Rightarrow> (bool \<times> repl_srv) option" where
  "startBgsaveForReplication env wrote bgsave mincapa s =
     (let socket_target = (repl_diskless_sync s \<and> SLAVE_CAPA_EOF \<in> mincapa);
          (ok, s) = bgsave socket_target s
      in if \<not> ok then map_option (\<lambda>s. (False, s)) (fail_waiting env (slaves s) s)
         else
           let s = (if \<not> socket_target then setup_waiting wrote (slaves s) s else s)
           in Some (True, replicationScriptCacheFlush s))"

text \<open>The three cases of \<^verbatim>\<open>syncCommand\<close>: a snapshot to a file is in progress, one to sockets, or none.\<close>

definition sync_snapshot ::
  "reply_env \<Rightarrow> (nat \<Rightarrow> bool) \<Rightarrow> (bool \<Rightarrow> repl_srv \<Rightarrow> bool \<times> repl_srv) \<Rightarrow> nat \<Rightarrow> repl_srv \<Rightarrow> repl_srv option" where
  "sync_snapshot env wrote bgsave i s =
     (case rdb_child_type s of
        DiskChild \<Rightarrow>
          (case find (\<lambda>k. c_replstate (clients s k) = SLAVE_STATE_WAIT_BGSAVE_END) (slaves s) of
             None \<Rightarrow> Some s
           | Some k \<Rightarrow>
               if sl_capa (clients s k) \<subseteq> sl_capa (clients s i) then do {
                 s' \<leftarrow> on_client i (\<lambda>c. copyClientOutputBuffer c (clients s k)) s;
                 Some (snd (replicationSetupSlaveForFullResync (wrote i) i (sl_psync_initial_offset (clients s k)) s')) }
               else Some s)
      | SocketChild \<Rightarrow> Some s
      | NoChild \<Rightarrow>
          if repl_diskless_sync s \<and> SLAVE_CAPA_EOF \<in> sl_capa (clients s i) then Some s
          else if \<not> aof_child s
          then map_option snd (startBgsaveForReplication env wrote bgsave (sl_capa (clients s i)) s)
          else Some s)"

text \<open>The full resynchronisation.\<close>

definition sync_full ::
  "reply_env \<Rightarrow> (nat \<Rightarrow> byte) \<Rightarrow> byte list \<Rightarrow> (nat \<Rightarrow> bool) \<Rightarrow> (bool \<Rightarrow> repl_srv \<Rightarrow> bool \<times> repl_srv) \<Rightarrow> nat \<Rightarrow> repl_srv
     \<Rightarrow> repl_srv option" where
  "sync_full env junk rnd wrote bgsave i s = do {
     let s = s\<lparr>stat_sync_full := stat_sync_full s + 1\<rparr>;
     let s = set_client i (setflag CLIENT_SLAVE ((clients s i)\<lparr>c_replstate := SLAVE_STATE_WAIT_BGSAVE_START\<rparr>)) s;
     let s = s\<lparr>slaves := slaves s @ [i]\<rparr>;
     s \<leftarrow> (if length (slaves s) = 1 \<and> repl_backlog s = None
           then createReplicationBacklog junk (clearReplicationId2 (changeReplicationId rnd s)) else Some s);
     sync_snapshot env wrote bgsave i s }"

definition syncCommand ::
  "reply_env \<Rightarrow> (nat \<Rightarrow> byte) \<Rightarrow> byte list \<Rightarrow> (nat \<Rightarrow> bool) \<Rightarrow> (bool \<Rightarrow> repl_srv \<Rightarrow> bool \<times> repl_srv) \<Rightarrow> nat \<Rightarrow> repl_srv
     \<Rightarrow> repl_srv option" where
  "syncCommand env junk rnd wrote bgsave i s =
     (if CLIENT_SLAVE \<in> c_flags (clients s i) then Some s
      else if masterhost s \<noteq> None \<and> \<not> repl_connected s then
        on_client i (\<lambda>c. addReplySds env c (bytes_of ''-NOMASTERLINK Can'' @ [39] @ bytes_of ''t SYNC while not connected with my master'' @ crlf)) s
      else if clientHasPendingReplies (clients s i) then
        on_client i (\<lambda>c. addReplyError env c (bytes_of ''SYNC and PSYNC are invalid with pending output'' @ [0])) s
      else if q_argv (clients s i) = [] then None
      else if strcasecmp_eq (sds_of (q_argv (clients s i) ! 0)) (bytes_of ''psync'') then do {
        (ok, s) \<leftarrow> masterTryPartialResynchronization env (wrote i) i s;
        (if ok then Some (s\<lparr>stat_sync_partial_ok := stat_sync_partial_ok s + 1\<rparr>)
         else
           let s = (if hd (sds_of (q_argv (clients s i) ! 1) @ [0]) \<noteq> ch CHR ''?''
                    then s\<lparr>stat_sync_partial_err := stat_sync_partial_err s + 1\<rparr> else s)
           in sync_full env junk rnd wrote bgsave i s) }
      else sync_full env junk rnd wrote bgsave i (set_client i (setflag CLIENT_PRE_PSYNC (clients s i)) s))"

section \<open>Losing replicas\<close>

text \<open>The part of \<^verbatim>\<open>freeClient\<close> that concerns a replica.\<close>

definition free_slave :: "reply_env \<Rightarrow> nat \<Rightarrow> repl_srv \<Rightarrow> repl_srv option" where
  "free_slave env i s =
     (if CLIENT_SLAVE \<notin> c_flags (clients s i) \<or> CLIENT_MONITOR \<in> c_flags (clients s i) then Some s
      else if i \<notin> set (slaves s) then None
      else
        let s = s\<lparr>slaves := remove1 i (slaves s)\<rparr>;
            s = (if getClientType (clients s i) = CLIENT_TYPE_SLAVE \<and> slaves s = []
                 then s\<lparr>repl_no_slaves_since := unixtime env\<rparr> else s)
        in Some (refreshGoodSlavesCount env s))"

section \<open>Acknowledgements\<close>

text \<open>\<open>ae_ok\<close> is the result of \<^verbatim>\<open>aeCreateFileEvent\<close>.\<close>

definition putSlaveOnline :: "reply_env \<Rightarrow> bool \<Rightarrow> nat \<Rightarrow> repl_srv \<Rightarrow> repl_srv option" where
  "putSlaveOnline env ae_ok i s =
     (let c = (clients s i)\<lparr>c_replstate := SLAVE_STATE_ONLINE, c_put_online_on_ack := False, q_repl_ack_time := unixtime env\<rparr>
      in if \<not> ae_ok then free_slave env i (set_client i c s)
         else Some (refreshGoodSlavesCount env (set_client i (c\<lparr>c_write_handler := True\<rparr>) s)))"

definition replicationSendAck :: "reply_env \<Rightarrow> repl_srv \<Rightarrow> repl_srv option" where
  "replicationSendAck env s = (case the_master s of
     None \<Rightarrow> Some s
   | Some i \<Rightarrow> on_client i (\<lambda>c. do {
       let c = setflag CLIENT_MASTER_FORCE_REPLY c;
       c \<leftarrow> addReplyMultiBulkLen env c 3;
       c \<leftarrow> addReplyBulkCString env c (Some (bytes_of ''REPLCONF'' @ [0]));
       c \<leftarrow> addReplyBulkCString env c (Some (bytes_of ''ACK'' @ [0]));
       c \<leftarrow> addReplyBulkLongLong env c (q_reploff c);
       Some (clrflag CLIENT_MASTER_FORCE_REPLY c) }) s)"

definition NET_IP_STR_LEN :: nat where "NET_IP_STR_LEN = 46"

definition shared_ok :: strobj where "shared_ok = createRawStringObject (bytes_of ''+OK'' @ crlf)"
definition shared_syntaxerr :: strobj where "shared_syntaxerr = createRawStringObject (bytes_of ''-ERR syntax error'' @ crlf)"

text \<open>The options in pairs.\<close>

fun replconf_loop :: "reply_env \<Rightarrow> bool \<Rightarrow> nat \<Rightarrow> strobj list \<Rightarrow> repl_srv \<Rightarrow> repl_srv option" where
  "replconf_loop env ae_ok i (opt # val # rest) s =
     (if strcasecmp_eq (sds_of opt) (bytes_of ''listening-port'') then
        (case getLongFromObjectOrReply (Some val) None of
           Inl msg \<Rightarrow> on_client i (\<lambda>c. addReplyError env c (bytes_of msg @ [0])) s
         | Inr port \<Rightarrow> replconf_loop env ae_ok i rest
             (set_client i ((clients s i)\<lparr>sl_listening_port := sint (of_int port :: u32)\<rparr>) s))
      else if strcasecmp_eq (sds_of opt) (bytes_of ''ip-address'') then
        (if length (sds_of val) < NET_IP_STR_LEN
         then replconf_loop env ae_ok i rest (set_client i ((clients s i)\<lparr>sl_ip := sds_of val\<rparr>) s)
         else on_client i (\<lambda>c. addReplyErrorFormat env c
           (bytes_of ''REPLCONF ip-address provided by replica instance is too long: '' @ dec (length (sds_of val)) @ bytes_of '' bytes'')) s)
      else if strcasecmp_eq (sds_of opt) (bytes_of ''capa'') then
        replconf_loop env ae_ok i rest
          (if strcasecmp_eq (sds_of val) (bytes_of ''eof'')
           then set_client i ((clients s i)\<lparr>sl_capa := insert SLAVE_CAPA_EOF (sl_capa (clients s i))\<rparr>) s
           else if strcasecmp_eq (sds_of val) (bytes_of ''psync2'')
           then set_client i ((clients s i)\<lparr>sl_capa := insert SLAVE_CAPA_PSYNC2 (sl_capa (clients s i))\<rparr>) s
           else s)
      else if strcasecmp_eq (sds_of opt) (bytes_of ''ack'') then
        (if CLIENT_SLAVE \<notin> c_flags (clients s i) then Some s
         else case getLongLongFromObject (Some val) of
           None \<Rightarrow> Some s
         | Some offset \<Rightarrow>
             let c = clients s i;
                 c = (if offset > sl_ack_off c then c\<lparr>sl_ack_off := offset\<rparr> else c);
                 c = c\<lparr>q_repl_ack_time := unixtime env\<rparr>;
                 s = set_client i c s
             in if c_put_online_on_ack c \<and> c_replstate c = SLAVE_STATE_ONLINE then putSlaveOnline env ae_ok i s
                else Some s)
      else if strcasecmp_eq (sds_of opt) (bytes_of ''getack'') then
        (if masterhost s \<noteq> None \<and> the_master s \<noteq> None then replicationSendAck env s else Some s)
      else on_client i (\<lambda>c. addReplyErrorFormat env c (bytes_of ''Unrecognized REPLCONF option: '' @ cstring (sds_of opt))) s)"
| "replconf_loop env ae_ok i _ s = on_client i (\<lambda>c. addReply env c shared_ok) s"

definition replconfCommand :: "reply_env \<Rightarrow> bool \<Rightarrow> nat \<Rightarrow> repl_srv \<Rightarrow> repl_srv option" where
  "replconfCommand env ae_ok i s =
     (if length (q_argv (clients s i)) mod 2 = 0 then on_client i (\<lambda>c. addReply env c shared_syntaxerr) s
      else replconf_loop env ae_ok i (tl (q_argv (clients s i))) s)"

section \<open>Synchronous replication\<close>

definition replicationRequestAckFromSlaves :: "repl_srv \<Rightarrow> repl_srv" where
  "replicationRequestAckFromSlaves s = s\<lparr>get_ack_from_slaves := True\<rparr>"

definition replicationCountAcksByOffset :: "int \<Rightarrow> repl_srv \<Rightarrow> nat" where
  "replicationCountAcksByOffset offset s =
     length (filter (\<lambda>i. c_replstate (clients s i) = SLAVE_STATE_ONLINE \<and> sl_ack_off (clients s i) \<ge> offset) (slaves s))"

text \<open>\<open>now\<close> is \<^verbatim>\<open>mstime()\<close>; the sum overflows for timeouts near \<^verbatim>\<open>LLONG_MAX\<close>.\<close>

definition getTimeoutFromObjectOrReply :: "int \<Rightarrow> strobj \<Rightarrow> bool \<Rightarrow> string + int" where
  "getTimeoutFromObjectOrReply now o1 unit_seconds =
     (case getLongLongFromObjectOrReply (Some o1) (Some ''timeout is not an integer or out of range'') of
        Inl msg \<Rightarrow> Inl msg
      | Inr tval \<Rightarrow>
          if tval < 0 then Inl ''timeout is negative''
          else Inr (if tval > 0
            then sint (of_int ((if unit_seconds then tval * 1000 else tval) + now) :: u64) else tval))"

definition blockClient_wait :: "nat \<Rightarrow> repl_srv \<Rightarrow> repl_srv" where
  "blockClient_wait i s =
     (set_client i ((setflag CLIENT_BLOCKED (clients s i))\<lparr>b_wait := True\<rparr>) s)
       \<lparr>blocked_clients := blocked_clients s + 1, blocked_wait := blocked_wait s + 1\<rparr>"

definition queueClientForReprocessing :: "nat \<Rightarrow> repl_srv \<Rightarrow> repl_srv" where
  "queueClientForReprocessing i s =
     (if CLIENT_UNBLOCKED \<notin> c_flags (clients s i)
      then (set_client i (setflag CLIENT_UNBLOCKED (clients s i)) s)\<lparr>unblocked_clients := unblocked_clients s @ [i]\<rparr>
      else s)"

definition unblockClientWaitingReplicas :: "nat \<Rightarrow> repl_srv \<Rightarrow> repl_srv option" where
  "unblockClientWaitingReplicas i s =
     (if i \<notin> set (clients_waiting_acks s) then None
      else Some (s\<lparr>clients_waiting_acks := remove1 i (clients_waiting_acks s)\<rparr>))"

text \<open>\<^verbatim>\<open>unblockClient\<close> for a client blocked in WAIT.\<close>

definition unblockClient_wait :: "nat \<Rightarrow> repl_srv \<Rightarrow> repl_srv option" where
  "unblockClient_wait i s =
     (if \<not> b_wait (clients s i) then None
      else do {
        s \<leftarrow> unblockClientWaitingReplicas i s;
        let s = s\<lparr>blocked_clients := blocked_clients s - 1, blocked_wait := blocked_wait s - 1\<rparr>;
        Some (queueClientForReprocessing i (set_client i ((clrflag CLIENT_BLOCKED (clients s i))\<lparr>b_wait := False\<rparr>) s)) })"

definition waitCommand :: "reply_env \<Rightarrow> int \<Rightarrow> nat \<Rightarrow> repl_srv \<Rightarrow> repl_srv option" where
  "waitCommand env now i s =
     (let c = clients s i; argv = q_argv c in
      if masterhost s \<noteq> None then on_client i (\<lambda>c. addReplyError env c (bytes_of
        (''WAIT cannot be used with replica instances. Please also note that since Redis 4.0 if a replica is '' @
         ''configured to be writable (which is not the default) writes to replicas are just local and are not propagated.'') @ [0])) s
      else if \<not> 2 < length argv then None
      else case getLongFromObjectOrReply (Some (argv ! 1)) None of
        Inl msg \<Rightarrow> on_client i (\<lambda>c. addReplyError env c (bytes_of msg @ [0])) s
      | Inr numreplicas \<Rightarrow>
          (case getTimeoutFromObjectOrReply now (argv ! 2) False of
             Inl msg \<Rightarrow> on_client i (\<lambda>c. addReplyError env c (bytes_of msg @ [0])) s
           | Inr timeout \<Rightarrow>
               let ackreplicas = replicationCountAcksByOffset (sl_woff c) s in
               if int ackreplicas \<ge> numreplicas \<or> CLIENT_MULTI \<in> c_flags c
               then on_client i (\<lambda>c. addReplyLongLong env c (int ackreplicas)) s
               else
                 let s = set_client i (c\<lparr>b_timeout := timeout, b_reploffset := sl_woff c,
                           b_numreplicas := sint (of_int numreplicas :: u32)\<rparr>) s;
                     s = s\<lparr>clients_waiting_acks := clients_waiting_acks s @ [i]\<rparr>
                 in Some (replicationRequestAckFromSlaves (blockClient_wait i s))))"

fun waiting_loop :: "reply_env \<Rightarrow> nat list \<Rightarrow> int \<Rightarrow> int \<Rightarrow> repl_srv \<Rightarrow> repl_srv option" where
  "waiting_loop env [] last_offset last_numreplicas s = Some s"
| "waiting_loop env (i # is) last_offset last_numreplicas s =
     (let c = clients s i in
      if last_offset \<noteq> 0 \<and> last_offset > b_reploffset c \<and> last_numreplicas > b_numreplicas c then do {
        s \<leftarrow> unblockClient_wait i s;
        s \<leftarrow> on_client i (\<lambda>c. addReplyLongLong env c last_numreplicas) s;
        waiting_loop env is last_offset last_numreplicas s }
      else
        let numreplicas = int (replicationCountAcksByOffset (b_reploffset c) s) in
        if numreplicas \<ge> b_numreplicas c then do {
          s \<leftarrow> unblockClient_wait i s;
          s \<leftarrow> on_client i (\<lambda>c. addReplyLongLong env c numreplicas) s;
          waiting_loop env is (b_reploffset c) numreplicas s }
        else waiting_loop env is last_offset last_numreplicas s)"

definition processClientsWaitingReplicas :: "reply_env \<Rightarrow> repl_srv \<Rightarrow> repl_srv option" where
  "processClientsWaitingReplicas env s = waiting_loop env (clients_waiting_acks s) 0 0 s"

definition replicationGetSlaveOffset :: "repl_srv \<Rightarrow> int" where
  "replicationGetSlaveOffset s =
     (let offset = (if masterhost s \<noteq> None then
            (case the_master s of
               Some i \<Rightarrow> q_reploff (clients s i)
             | None \<Rightarrow> (case cached_master s of Some i \<Rightarrow> q_reploff (clients s i) | None \<Rightarrow> 0))
          else 0)
      in if offset < 0 then 0 else offset)"

end
