(* ===== verification/Replication_Ring.thy ===== *)
theory Replication_Ring
  imports Replication
begin

text \<open>
  The backlog as a window on the replication stream: the circular buffer holds the last bytes of the stream, and
  a partial resynchronisation sends exactly the bytes from the requested offset to the end.
\<close>

section \<open>The circular buffer\<close>

text \<open>The byte of age \<open>a\<close> (the last one has age 1) is \<open>a\<close> places before the index, counting around.\<close>

definition ring_holds :: "byte list \<Rightarrow> int \<Rightarrow> nat \<Rightarrow> byte list \<Rightarrow> bool" where
  "ring_holds b idx m h \<longleftrightarrow> 0 \<le> idx \<and> idx < int (length b) \<and> m \<le> length b \<and> m \<le> length h
     \<and> (\<forall>a. 0 < a \<and> a \<le> m \<longrightarrow> b ! nat ((idx - int a) mod int (length b)) = h ! (length h - a))"

lemma ring_write:
  assumes r: "ring_holds b (int i) m h" and k: "0 < length p" "i + length p \<le> length b"
  shows "ring_holds (take i b @ p @ drop (i + length p) b) (if i + length p = length b then 0 else int (i + length p))
    (min (m + length p) (length b)) (h @ p)"
proof -
  let ?n = "length b" and ?k = "length p"
  let ?b = "take i b @ p @ drop (i + ?k) b" and ?i = "if i + ?k = ?n then 0 else int (i + ?k)"
  have lb: "length ?b = ?n" using k(2) by simp
  have step: "(?i - int a) mod int ?n = (int (i + ?k) - int a) mod int ?n" for a
  proof (cases "i + ?k = ?n")
    case True
    then have "(int (i + ?k) - int a) mod int ?n = (- int a) mod int ?n" by (simp only: minus_mod_self1)
    with True show ?thesis by simp
  qed simp
  have at: "?b ! nat ((?i - int a) mod int ?n) = (h @ p) ! (length (h @ p) - a)" if a: "0 < a" "a \<le> min (m + ?k) ?n" for a
  proof (cases "a \<le> ?k")
    case True
    have "(int (i + ?k) - int a) mod int ?n = int (i + (?k - a))"
      using True a k by (subst mod_pos_pos_trivial) (auto simp: of_nat_diff)
    then have "?b ! nat ((?i - int a) mod int ?n) = ?b ! (i + (?k - a))" unfolding step by (simp only: nat_int)
    also have "\<dots> = p ! (?k - a)" using True a k by (auto simp: nth_append)
    also have "\<dots> = (h @ p) ! (length (h @ p) - a)"
    proof -
      have "length (h @ p) - a = length h + (?k - a)" using True a by auto
      then show ?thesis by simp
    qed
    finally show ?thesis .
  next
    case False
    define c where "c = a - ?k"
    have c: "0 < c" "c \<le> m" "c + ?k \<le> ?n" using False a by (auto simp: c_def)
    have e: "(int (i + ?k) - int a) mod int ?n = (int i - int c) mod int ?n" using False by (simp add: c_def of_nat_diff algebra_simps)
    define j where "j = nat ((int i - int c) mod int ?n)"
    have j: "j < ?n" "j < i \<or> i + ?k \<le> j"
    proof -
      have n: "0 < int ?n" using k by linarith
      have r0: "0 \<le> (int i - int c) mod int ?n" "(int i - int c) mod int ?n < int ?n" using n by simp_all
      then show "j < ?n" by (simp add: j_def nat_less_iff)
      show "j < i \<or> i + ?k \<le> j"
      proof (cases "c \<le> i")
        case True
        have "(int i - int c) mod int ?n = int i - int c" using True k c by (intro mod_pos_pos_trivial) auto
        also have "\<dots> = int (i - c)" using True by (simp add: of_nat_diff)
        finally have "j = i - c" unfolding j_def by (simp only: nat_int)
        then show ?thesis using c True by simp
      next
        case False
        have "(int i - int c) mod int ?n = (int i - int c + int ?n) mod int ?n" by simp
        also have "\<dots> = int i - int c + int ?n" using False c k by (intro mod_pos_pos_trivial) auto
        also have "\<dots> = int (i + ?n - c)" using False c by (simp add: of_nat_diff)
        finally have "j = i + ?n - c" unfolding j_def by (simp only: nat_int)
        then show ?thesis using c by linarith
      qed
    qed
    have "?b ! j = b ! j" using j k by (auto simp: nth_append)
    also have "\<dots> = h ! (length h - c)" using r c by (simp add: ring_holds_def j_def)
    also have "\<dots> = (h @ p) ! (length (h @ p) - a)"
    proof -
      have "c \<le> length h" using r c by (simp add: ring_holds_def)
      then have "length (h @ p) - a = length h - c" "length h - c < length h" using c False by (auto simp: c_def)
      then show ?thesis by (simp add: nth_append)
    qed
    finally show ?thesis unfolding step e j_def [symmetric] .
  qed
  have "0 \<le> ?i" "?i < int ?n" using k by auto
  moreover have "min (m + ?k) ?n \<le> length (h @ p)" using r by (auto simp: ring_holds_def)
  ultimately show ?thesis unfolding ring_holds_def lb using at by auto
qed

text \<open>The last \<open>len\<close> bytes of the stream in at most two pieces.\<close>

lemma ring_read:
  assumes r: "ring_holds b idx m h" and len: "0 < len" "len \<le> m" and j: "int j = (idx - int len) mod int (length b)"
  defines "t \<equiv> min (length b - j) len"
  shows "read_at b j t = Some (take t (drop (length h - len) h))"
    "t < len \<Longrightarrow> (idx - int (len - t)) mod int (length b) = 0" "0 < t" "j < length b"
proof -
  let ?n = "length b"
  have m: "m \<le> ?n" "m \<le> length h" "0 < int ?n" using r by (auto simp: ring_holds_def)
  have "int j < int ?n" unfolding j using m by simp
  then show jn: "j < ?n" by simp
  then show t0: "0 < t" using len by (simp add: t_def)
  have jt: "j + t \<le> ?n" "t \<le> len" using jn by (auto simp: t_def)
  have ring: "b ! nat ((idx - int a) mod int ?n) = h ! (length h - a)" if "0 < a" "a \<le> m" for a
    using r that by (simp add: ring_holds_def)
  have nth: "b ! (j + k) = h ! (length h - len + k)" if "k < t" for k
  proof -
    have "(idx - int (len - k)) mod int ?n = (idx - int len + int k) mod int ?n" using that jt by (simp add: of_nat_diff algebra_simps)
    also have "\<dots> = (int j + int k) mod int ?n" unfolding j by (simp add: mod_add_left_eq)
    also have "\<dots> = int (j + k)" using that jt by simp
    finally have "nat ((idx - int (len - k)) mod int ?n) = j + k" by simp
    moreover have "b ! nat ((idx - int (len - k)) mod int ?n) = h ! (length h - (len - k))"
      using that jt len by (intro ring) auto
    moreover have "length h - (len - k) = length h - len + k" using that jt len m by auto
    ultimately show ?thesis by simp
  qed
  have "take t (drop j b) = take t (drop (length h - len) h)"
  proof (rule nth_equalityI)
    show "length (take t (drop j b)) = length (take t (drop (length h - len) h))" using jt len m by auto
    fix k assume "k < length (take t (drop j b))"
    then show "take t (drop j b) ! k = take t (drop (length h - len) h) ! k" using nth [of k] jn len m by simp
  qed
  then show "read_at b j t = Some (take t (drop (length h - len) h))" using jt by (simp add: read_at_def)
  assume "t < len"
  then have "j + t = ?n" using jn by (auto simp: t_def)
  have "(idx - int (len - t)) mod int ?n = (idx - int len + int t) mod int ?n" using \<open>t < len\<close> by (simp add: of_nat_diff algebra_simps)
  also have "\<dots> = (int j + int t) mod int ?n" unfolding j by (simp add: mod_add_left_eq)
  also have "\<dots> = 0" using \<open>j + t = ?n\<close> by (metis mod_self of_nat_add)
  finally show "(idx - int (len - t)) mod int ?n = 0" .
qed

section \<open>Feeding the backlog\<close>

definition window :: "repl_srv \<Rightarrow> nat" where
  "window s = nat (min (repl_backlog_histlen s) (repl_backlog_size s))"

text \<open>The buffer, its index and its history length are in order for the stream \<open>h\<close>.\<close>

definition backlog_holds :: "repl_srv \<Rightarrow> byte list \<Rightarrow> bool" where
  "backlog_holds s h \<longleftrightarrow> (\<exists>b. repl_backlog s = Some b \<and> int (length b) = repl_backlog_size s \<and> length b < 2 ^ 63
     \<and> 0 \<le> repl_backlog_histlen s \<and> ring_holds b (repl_backlog_idx s) (window s) h)"

definition no_backlog :: "repl_srv \<Rightarrow> repl_srv" where
  "no_backlog s = s\<lparr>repl_backlog := None, repl_backlog_idx := 0, repl_backlog_histlen := 0, repl_backlog_off := 0, master_repl_offset := 0\<rparr>"

definition same_but_backlog :: "repl_srv \<Rightarrow> repl_srv \<Rightarrow> bool" where
  "same_but_backlog s s' \<longleftrightarrow> no_backlog s' = no_backlog s"

lemma same_but_backlogD:
  assumes "same_but_backlog s s'"
  shows "clients s' = clients s" "slaves s' = slaves s" "slaveseldb s' = slaveseldb s"
    "repl_backlog_size s' = repl_backlog_size s" "masterhost s' = masterhost s" "repl_diskless_sync s' = repl_diskless_sync s"
proof -
  note e = assms [unfolded same_but_backlog_def]
  show "clients s' = clients s" using arg_cong [OF e, of clients] by (simp add: no_backlog_def)
  show "slaves s' = slaves s" using arg_cong [OF e, of slaves] by (simp add: no_backlog_def)
  show "slaveseldb s' = slaveseldb s" using arg_cong [OF e, of slaveseldb] by (simp add: no_backlog_def)
  show "repl_backlog_size s' = repl_backlog_size s" using arg_cong [OF e, of repl_backlog_size] by (simp add: no_backlog_def)
  show "repl_diskless_sync s' = repl_diskless_sync s" using arg_cong [OF e, of repl_diskless_sync] by (simp add: no_backlog_def)
  show "masterhost s' = masterhost s" using arg_cong [OF e, of masterhost] by (simp add: no_backlog_def)
qed

lemma same_but_backlog_trans: "same_but_backlog a b \<Longrightarrow> same_but_backlog b c \<Longrightarrow> same_but_backlog a c"
  by (simp add: same_but_backlog_def)

lemma feed_loop_ok:
  assumes "backlog_holds s h"
  shows "\<exists>s'. feed_loop p s = Some s' \<and> backlog_holds s' (h @ p) \<and> (\<exists>b i. s' = s\<lparr>repl_backlog := b, repl_backlog_idx := i,
    repl_backlog_histlen := repl_backlog_histlen s + int (length p)\<rparr>)"
  using assms
proof (induction p arbitrary: s h rule: length_induct)
  case (1 p)
  from 1(2) obtain b where b: "repl_backlog s = Some b" "int (length b) = repl_backlog_size s" "length b < 2 ^ 63"
    "0 \<le> repl_backlog_histlen s" "ring_holds b (repl_backlog_idx s) (window s) h" by (auto simp: backlog_holds_def)
  show ?case
  proof (cases "p = []")
    case True
    then have "feed_loop p s = Some s" by (subst feed_loop.simps) simp
    moreover have "s = s\<lparr>repl_backlog := repl_backlog s, repl_backlog_idx := repl_backlog_idx s, repl_backlog_histlen := repl_backlog_histlen s + int (length p)\<rparr>"
      using True by simp
    ultimately show ?thesis using True 1(2) by (metis append_Nil2)
  next
    case False
    define i where "i = nat (repl_backlog_idx s)"
    have i: "repl_backlog_idx s = int i" "i < length b" using b(5) by (auto simp: i_def ring_holds_def)
    define k where "k = min (length b - i) (length p)"
    have k: "0 < k" "k \<le> length p" "i + k \<le> length b" using i(2) False by (auto simp: k_def)
    have tl: "nat ((repl_backlog_size s - int i) mod 2 ^ 64) = length b - i"
    proof -
      have "(repl_backlog_size s - int i) mod 2 ^ 64 = int (length b - i)"
        using b(2,3) i by (subst mod_pos_pos_trivial) (auto simp: of_nat_diff)
      then show ?thesis by (simp only: nat_int)
    qed
    let ?b = "take i b @ take k p @ drop (i + k) b"
    let ?idx = "if int i + int k = repl_backlog_size s then 0 else int i + int k"
    define s1 where "s1 = s\<lparr>repl_backlog := Some ?b, repl_backlog_idx := ?idx, repl_backlog_histlen := repl_backlog_histlen s + int k\<rparr>"
    have w: "write_at b i (take k p) = Some ?b" using k by (simp add: write_at_def)
    have kk: "(if length b - i > length p then length p else length b - i) = k" by (simp add: k_def)
    have ev: "feed_loop p s = feed_loop (drop k p) s1"
      using False b(1) w by (subst feed_loop.simps) (simp only: Option.bind.bind_lunit Let_def tl kk i(1) nat_int if_False s1_def)
    have "backlog_holds s1 (h @ take k p)"
    proof -
      have lk: "length (take k p) = k" using k by simp
      have r: "ring_holds b (int i) (window s) h" using b(5) i(1) by simp
      have "window s1 = min (window s + k) (length b)"
        using b(2,4) by (auto simp: window_def s1_def nat_add_distrib min_def)
      moreover have "(if i + k = length b then 0 else int (i + k)) = ?idx" using b(2) by auto
      ultimately have "ring_holds ?b ?idx (window s1) (h @ take k p)" using ring_write [OF r, of "take k p"] k unfolding lk by simp
      then show ?thesis using b(2-4) k unfolding backlog_holds_def by (intro exI [of _ ?b]) (simp add: s1_def)
    qed
    moreover have "length (drop k p) < length p" using k False by simp
    ultimately obtain s' b' i' where s': "feed_loop (drop k p) s1 = Some s'" "backlog_holds s' ((h @ take k p) @ drop k p)"
        "s' = s1\<lparr>repl_backlog := b', repl_backlog_idx := i', repl_backlog_histlen := repl_backlog_histlen s1 + int (length (drop k p))\<rparr>"
      using 1(1) by blast
    have "s' = s\<lparr>repl_backlog := b', repl_backlog_idx := i', repl_backlog_histlen := repl_backlog_histlen s + int (length p)\<rparr>"
      using s'(3) k by (simp add: s1_def)
    then show ?thesis using ev s'(1,2) by auto
  qed
qed

text \<open>The backlog is in order, with its offsets, for a stream that began behind the offset \<open>base\<close>.\<close>

definition stream_inv :: "int \<Rightarrow> byte list \<Rightarrow> repl_srv \<Rightarrow> bool" where
  "stream_inv base h s \<longleftrightarrow> backlog_holds s h \<and> repl_backlog_histlen s \<le> repl_backlog_size s
     \<and> master_repl_offset s = base + int (length h) \<and> repl_backlog_off s = master_repl_offset s - repl_backlog_histlen s + 1"

lemma stream_inv_upd [simp]:
  "stream_inv base h (s\<lparr>clients := cl\<rparr>) = stream_inv base h s"
  "stream_inv base h (s\<lparr>slaves := is\<rparr>) = stream_inv base h s"
  "stream_inv base h (s\<lparr>slaveseldb := d\<rparr>) = stream_inv base h s"
  "stream_inv base h (s\<lparr>rdb_child_type := ct\<rparr>) = stream_inv base h s"
  "stream_inv base h (s\<lparr>repl_scriptcache_dict := sd\<rparr>) = stream_inv base h s"
  "stream_inv base h (s\<lparr>repl_scriptcache_fifo := sf\<rparr>) = stream_inv base h s"
  "stream_inv base h (s\<lparr>stat_sync_full := n\<rparr>) = stream_inv base h s"
  "stream_inv base h (s\<lparr>stat_sync_partial_ok := n\<rparr>) = stream_inv base h s"
  "stream_inv base h (s\<lparr>stat_sync_partial_err := n\<rparr>) = stream_inv base h s"
  "stream_inv base h (s\<lparr>repl_good_slaves_count := z\<rparr>) = stream_inv base h s"
  "stream_inv base h (s\<lparr>repl_no_slaves_since := z\<rparr>) = stream_inv base h s"
  "stream_inv base h (set_client i c s) = stream_inv base h s"
  by (simp_all add: stream_inv_def backlog_holds_def window_def set_client_def)

lemma feedReplicationBacklog_ok:
  assumes "stream_inv base h s"
  shows "\<exists>s'. feedReplicationBacklog p s = Some s' \<and> stream_inv base (h @ p) s' \<and> same_but_backlog s s'"
proof -
  define s0 where "s0 = s\<lparr>master_repl_offset := master_repl_offset s + int (length p)\<rparr>"
  have "backlog_holds s0 h = backlog_holds s h" by (simp add: backlog_holds_def window_def s0_def)
  then have "backlog_holds s0 h" using assms by (simp add: stream_inv_def)
  from feed_loop_ok [OF this, of p] obtain s1 b i where s1: "feed_loop p s0 = Some s1" "backlog_holds s1 (h @ p)"
    "s1 = s0\<lparr>repl_backlog := b, repl_backlog_idx := i, repl_backlog_histlen := repl_backlog_histlen s0 + int (length p)\<rparr>" by blast
  define s2 where "s2 = (if repl_backlog_histlen s1 > repl_backlog_size s1 then s1\<lparr>repl_backlog_histlen := repl_backlog_size s1\<rparr> else s1)"
  define s3 where "s3 = s2\<lparr>repl_backlog_off := master_repl_offset s2 - repl_backlog_histlen s2 + 1\<rparr>"
  have "feedReplicationBacklog p s = Some s3"
    using s1(1) unfolding feedReplicationBacklog_def s0_def [symmetric] Let_def by (simp add: s2_def s3_def)
  moreover have "backlog_holds s3 (h @ p)"
    using s1(2) unfolding backlog_holds_def by (auto simp: s3_def s2_def window_def)
  moreover have "repl_backlog_histlen s3 \<le> repl_backlog_size s3" "master_repl_offset s3 = base + int (length (h @ p))"
    "repl_backlog_off s3 = master_repl_offset s3 - repl_backlog_histlen s3 + 1"
    using assms by (auto simp: s3_def s2_def s1(3) s0_def stream_inv_def)
  moreover have "same_but_backlog s s3"
    by (simp add: same_but_backlog_def no_backlog_def s3_def s2_def s1(3) s0_def)
  ultimately show ?thesis by (auto simp: stream_inv_def)
qed

section \<open>Reading the backlog\<close>

lemma backlog_loop_appends:
  assumes env: "tight env" and r: "ring_holds b idx m h" and len: "len \<le> m"
    and j: "j = (idx - int len) mod int (length b)"
  shows "appends (backlog_loop env b (int (length b)) j (int len)) (drop (length h - len) h) (2 * len + 65568)"
proof (cases "len = 0")
  case True
  then have "backlog_loop env b (int (length b)) j (int len) = Some"
    by (intro ext, subst backlog_loop.simps) simp
  then show ?thesis using True appends_mono [OF appends_Some] by simp
next
  case False
  define t where "t = min (length b - nat j) len"
  have n: "0 < length b" "m \<le> length h" "m \<le> length b" using r by (auto simp: ring_holds_def)
  have j0: "0 \<le> j" "int (nat j) = j" using n unfolding j by simp_all
  note rd = ring_read [OF r, of len "nat j", folded t_def, OF _ len, unfolded j0(2), OF _ j]
  have jb: "nat j < length b" "j < int (length b)" using rd(4) False by auto
  have tl: "(if int (length b) - j < int len then int (length b) - j else int len) = int t"
  proof -
    have "int (length b - nat j) = int (length b) - j" using jb j0 by (simp add: of_nat_diff)
    then have "int t = min (int (length b) - j) (int len)" by (simp add: t_def of_nat_min)
    then show ?thesis by (simp add: min_def)
  qed
  let ?v = "drop (length h - len) h"
  have ev: "backlog_loop env b (int (length b)) j (int len) c = do {
      c \<leftarrow> addReplySds env c (take t ?v); backlog_loop env b (int (length b)) 0 (int (len - t)) c }" for c
    using False rd(1)
    by (subst backlog_loop.simps) (simp only: Let_def tl nat_int Option.bind.bind_lunit, simp add: t_def of_nat_diff)
  show ?thesis
  proof (cases "t = len")
    case True
    have "backlog_loop env b (int (length b)) 0 (int (len - t)) = Some"
      unfolding True by (intro ext, subst backlog_loop.simps) simp
    then have "backlog_loop env b (int (length b)) j (int len) = (\<lambda>c. addReplySds env c (take t ?v))" using ev by auto
    moreover have "take t ?v = ?v" using True len n by simp
    ultimately show ?thesis
      using appends_mono [OF addReplySds_appends [OF env, of ?v], of "2 * len + 65568"] len n by (simp add: wcost_def)
  next
    case neq: False
    then have lt: "t < len" by (simp add: t_def)
    define l where "l = len - t"
    have z: "0 = (idx - int l) mod int (length b)" using rd(2) False lt by (simp add: l_def)
    have l: "0 < l" "l \<le> m" "min (length b - 0) l = l" using lt len n by (auto simp: l_def)
    have rd2: "read_at b 0 l = Some (drop (length h - l) h)"
      using ring_read(1) [OF r l(1,2), of 0] z l by simp
    have ev2: "backlog_loop env b (int (length b)) 0 (int l) c = addReplySds env c (drop (length h - l) h)" for c
    proof -
      have "\<not> int (length b) < int l" using l n by simp
      then have "backlog_loop env b (int (length b)) 0 (int l) c
          = do { c \<leftarrow> addReplySds env c (drop (length h - l) h); backlog_loop env b (int (length b)) 0 0 c }"
        using l(1) rd2 by (subst backlog_loop.simps) simp
      moreover have "backlog_loop env b (int (length b)) 0 0 = Some" by (intro ext, subst backlog_loop.simps) simp
      ultimately show ?thesis by (cases "addReplySds env c (drop (length h - l) h)") auto
    qed
    have "backlog_loop env b (int (length b)) j (int len)
        = (\<lambda>c. do { c \<leftarrow> addReplySds env c (take t ?v); addReplySds env c (drop (length h - l) h) })"
      by (intro ext) (simp add: ev ev2 l_def [symmetric])
    moreover have "take t ?v @ drop (length h - l) h = ?v"
    proof -
      have "drop (length h - l) h = drop t ?v" using lt len n by (simp add: l_def add.commute)
      then show ?thesis by (simp only: append_take_drop_id)
    qed
    moreover have "wcost (take t ?v) + wcost (drop (length h - l) h) \<le> 2 * len + 65568"
    proof -
      have "length (take t ?v) = t" "length (drop (length h - l) h) = l" using lt len n by (simp_all add: l_def)
      then show ?thesis using lt by (simp add: wcost_def l_def)
    qed
    ultimately show ?thesis
      using appends_mono [OF appends_bind [OF addReplySds_appends [OF env, of "take t ?v"] addReplySds_appends [OF env, of "drop (length h - l) h"]]]
      by simp
  qed
qed

text \<open>A request for an offset inside the window gets the rest of the stream from there.\<close>

lemma addReplyReplicationBacklog_ok:
  assumes env: "tight env" and inv: "stream_inv base h s"
    and off: "repl_backlog_off s \<le> offset" "offset \<le> repl_backlog_off s + repl_backlog_histlen s"
    and c: "reply_inv (clients s i)" "accepting (clients s i)" "int (blocks_size (clients s i)) + 2 * repl_backlog_size s + 65568 < 2 ^ 63"
  shows "\<exists>c' n. addReplyReplicationBacklog env i offset s = Some (n, set_client i c' s)
    \<and> grows (clients s i) (map Byte (drop (nat (offset - base - 1)) h)) (nat (2 * repl_backlog_size s + 65568)) c' \<and> base < offset
    \<and> offset \<le> base + int (length h) + 1"
proof -
  from inv obtain b where b: "repl_backlog s = Some b" "int (length b) = repl_backlog_size s"
    "0 \<le> repl_backlog_histlen s" "ring_holds b (repl_backlog_idx s) (window s) h"
    by (auto simp: stream_inv_def backlog_holds_def)
  have w: "int (window s) = repl_backlog_histlen s" using inv b(3) by (simp add: window_def stream_inv_def)
  have m: "window s \<le> length h" "window s \<le> length b" "0 < length b" using b(4) by (auto simp: ring_holds_def)
  define len where "len = nat (repl_backlog_histlen s - (offset - repl_backlog_off s))"
  have len: "int len = repl_backlog_histlen s - (offset - repl_backlog_off s)" "len \<le> window s"
    using off w by (auto simp: len_def)
  have pos: "nat (offset - base - 1) = length h - len" "base < offset" "offset \<le> base + int (length h) + 1"
    using len m w inv off by (auto simp: stream_inv_def)
  show ?thesis
  proof (cases "repl_backlog_histlen s = 0")
    case True
    then have "len = 0" using len w by simp
    then have "grows (clients s i) (map Byte (drop (nat (offset - base - 1)) h)) (nat (2 * repl_backlog_size s + 65568)) (clients s i)"
      using grows_mono [OF grows_refl [OF c(1)]] unfolding pos(1) by simp
    moreover have "set_client i (clients s i) s = s" by (simp add: set_client_def)
    ultimately show ?thesis using True pos unfolding addReplyReplicationBacklog_def by (intro exI [of _ "clients s i"] exI [of _ 0]) simp
  next
    case False
    let ?n = "repl_backlog_size s"
    let ?j = "((repl_backlog_idx s + (?n - repl_backlog_histlen s)) mod ?n + (offset - repl_backlog_off s)) mod ?n"
    have j: "?j = (repl_backlog_idx s - int len) mod int (length b)"
    proof -
      have "?j = (repl_backlog_idx s + (?n - repl_backlog_histlen s) + (offset - repl_backlog_off s)) mod ?n" by (simp add: mod_add_left_eq)
      also have "\<dots> = (?n + (repl_backlog_idx s - int len)) mod ?n" unfolding len(1) by (simp add: algebra_simps)
      also have "\<dots> = (repl_backlog_idx s - int len) mod ?n" by simp
      finally show ?thesis using b(2) by simp
    qed
    have "2 * len + 65568 \<le> nat (2 * ?n + 65568)" using len(2) m b(2) by linarith
    from appends_mono [OF backlog_loop_appends [OF env b(4) len(2) j] this]
    have "appends (backlog_loop env b ?n ?j (int len)) (drop (length h - len) h) (nat (2 * ?n + 65568))" unfolding b(2) .
    moreover have "blocks_size (clients s i) + nat (2 * ?n + 65568) < 2 ^ 63"
    proof -
      have "int (blocks_size (clients s i) + nat (2 * ?n + 65568)) < int (2 ^ 63)" using c(3) b(2) by simp
      then show ?thesis by (simp only: of_nat_less_iff)
    qed
    ultimately obtain c' where c': "backlog_loop env b ?n ?j (int len) (clients s i) = Some c'"
        "grows (clients s i) (map Byte (drop (length h - len) h)) (nat (2 * ?n + 65568)) c'"
      using appendsD c(1,2) by blast
    have "addReplyReplicationBacklog env i offset s = Some (repl_backlog_histlen s - (offset - repl_backlog_off s), set_client i c' s)"
      using False b(1) c'(1) unfolding addReplyReplicationBacklog_def Let_def on_client_def len(1) [symmetric]
      by (simp add: set_client_def len(1))
    then show ?thesis using c'(2) pos by auto
  qed
qed

end
