(* ===== verification/Replication_Stream.thy ===== *)
theory Replication_Stream
  imports Replication_Ring Client_Request_Spec
begin

text \<open>
  What replicas receive: whatever the master propagates goes into the stream of the backlog and, byte for byte, to every
  replica that is not waiting for a BGSAVE; each replica gets the stream from the offset that its
  synchronisation announced.
\<close>

section \<open>Commands as bytes of the stream\<close>

lemma feed_object: "feedReplicationBacklogWithObject o1 s = feedReplicationBacklog (obj_bytes o1) s"
  by (cases "so_ptr o1") (simp_all add: feedReplicationBacklogWithObject_def obj_bytes_def LONG_STR_SIZE_def ll2buf_spec)

lemma sint_small: "- (2 ^ 63) \<le> n \<Longrightarrow> n < 2 ^ 63 \<Longrightarrow> sint (of_int n :: u64) = n"
  by (simp add: sint_sbintrunc' signed_take_bit_int_eq_self)

lemma aux_header_text: "n < 2 ^ 62 \<Longrightarrow> aux_header p (int n) = Some (p # dec n @ crlf)"
proof -
  assume n: "n < 2 ^ 62"
  then have s: "sint (of_int (int n) :: u64) = int n" by (intro sint_small) auto
  have "length (dec_int (int n)) \<le> 20" using n by (intro length_dec_int) (auto simp: LLONG_MIN_def LLONG_MAX_def)
  then show ?thesis unfolding aux_header_def LONG_STR_SIZE_def by (simp only: ll2buf_spec s) (simp add: dec_int_def)
qed

definition select_text :: "int \<Rightarrow> byte list" where
  "select_text d = enc_cmd [bytes_of ''SELECT'', dec_int d]"

lemma select_cmd_text:
  assumes "- (2 ^ 31) \<le> d" "d < 2 ^ 31"
  shows "\<exists>o1. select_cmd d = Some o1 \<and> obj_bytes o1 = select_text d"
proof -
  have s: "sint (of_int d :: u64) = d" using assms by (intro sint_small) auto
  have two: "dec (Suc (Suc 0)) = [50]" "dec (Suc (Suc (Suc (Suc (Suc (Suc 0)))))) = [54]"
    using dec_small [of 2] dec_small [of 6] by (simp_all add: eval_nat_numeral)
  show ?thesis unfolding select_cmd_def LONG_STR_SIZE_def
    by (simp only: ll2buf_spec s) (simp add: cstring_dec select_text_def enc_cmd_def enc_arg_def two)
qed

abbreviation cmd_text :: "strobj list \<Rightarrow> byte list" where
  "cmd_text argv \<equiv> enc_cmd (map obj_bytes argv)"

definition argv_ok :: "strobj list \<Rightarrow> bool" where
  "argv_ok argv \<longleftrightarrow> length argv < 2 ^ 62 \<and> (\<forall>o1 \<in> set argv. length (obj_bytes o1) < 2 ^ 62)"

lemma feed_args_ok:
  "\<forall>o1 \<in> set argv. length (obj_bytes o1) < 2 ^ 62 \<Longrightarrow> stream_inv base h s \<Longrightarrow>
    \<exists>s'. feed_args argv s = Some s' \<and> stream_inv base (h @ concat (map (\<lambda>o1. enc_arg (obj_bytes o1)) argv)) s' \<and> same_but_backlog s s'"
proof (induction argv arbitrary: h s)
  case Nil
  then show ?case by (simp add: same_but_backlog_def)
next
  case (Cons o1 argv)
  let ?n = "length (obj_bytes o1)"
  have aux: "aux_header (ch CHR ''$'') (int (stringObjectLen o1)) = Some (ch CHR ''$'' # dec ?n @ crlf)"
    using Cons.prems(1) aux_header_text by (simp add: stringObjectLen_bytes)
  from feedReplicationBacklog_ok [OF Cons.prems(2), of "ch CHR ''$'' # dec ?n @ crlf"] obtain s1 where
    s1: "feedReplicationBacklog (ch CHR ''$'' # dec ?n @ crlf) s = Some s1" "stream_inv base (h @ ch CHR ''$'' # dec ?n @ crlf) s1"
      "same_but_backlog s s1" by auto
  from feedReplicationBacklog_ok [OF s1(2), of "obj_bytes o1"] obtain s2 where
    s2: "feedReplicationBacklog (obj_bytes o1) s1 = Some s2" "stream_inv base ((h @ ch CHR ''$'' # dec ?n @ crlf) @ obj_bytes o1) s2"
      "same_but_backlog s1 s2" by blast
  from feedReplicationBacklog_ok [OF s2(2), of crlf] obtain s3 where
    s3: "feedReplicationBacklog crlf s2 = Some s3" "stream_inv base (((h @ ch CHR ''$'' # dec ?n @ crlf) @ obj_bytes o1) @ crlf) s3"
      "same_but_backlog s2 s3" by blast
  have "stream_inv base (h @ enc_arg (obj_bytes o1)) s3" using s3(2) by (simp add: enc_arg_def)
  from Cons.IH [OF _ this] Cons.prems(1) obtain s4 where
    s4: "feed_args argv s3 = Some s4" "stream_inv base ((h @ enc_arg (obj_bytes o1)) @ concat (map (\<lambda>o1. enc_arg (obj_bytes o1)) argv)) s4"
      "same_but_backlog s3 s4" by auto
  have "same_but_backlog s s4" using s1(3) s2(3) s3(3) s4(3) same_but_backlog_trans by blast
  then show ?case using aux s1(1) s2(1) s3(1) s4(1,2) by (simp add: feed_object)
qed

definition bulks_cost :: "strobj list \<Rightarrow> nat" where
  "bulks_cost argv = sum_list (map (\<lambda>o1. 2 * length (obj_bytes o1) + 300000) argv)"

lemma add_bulks_appends:
  "tight env \<Longrightarrow> \<forall>o1 \<in> set argv. length (obj_bytes o1) < 2 ^ 62 \<Longrightarrow>
    appends (add_bulks env argv) (concat (map (\<lambda>o1. enc_arg (obj_bytes o1)) argv)) (bulks_cost argv)"
proof (induction argv)
  case Nil
  have "add_bulks env [] = Some" by (intro ext) simp
  then show ?case using appends_Some by (simp add: bulks_cost_def)
next
  case (Cons o1 argv)
  have "add_bulks env (o1 # argv) = (\<lambda>c. do { c \<leftarrow> addReplyBulk env c o1; add_bulks env argv c })" by (intro ext) simp
  moreover have "appends (\<lambda>c. addReplyBulk env c o1) (enc_arg (obj_bytes o1)) (2 * length (obj_bytes o1) + 300000)"
    unfolding enc_arg_def using Cons.prems by (intro appends_conv [OF bulk_appends]) (auto simp: ecost_def)
  ultimately show ?case using appends_bind [OF _ Cons.IH] Cons.prems by (simp add: bulks_cost_def)
qed

definition cmd_cost :: "strobj list \<Rightarrow> nat" where
  "cmd_cost argv = bulks_cost argv + 300000"

lemma add_command_appends:
  assumes "tight env" "argv_ok argv"
  shows "appends (\<lambda>c. do { c \<leftarrow> addReplyMultiBulkLen env c (int (length argv)); add_bulks env argv c }) (cmd_text argv) (cmd_cost argv)"
proof -
  have n: "int (length argv) \<le> LLONG_MAX" "LLONG_MIN \<le> int (length argv)" using assms(2) by (auto simp: argv_ok_def LLONG_MAX_def LLONG_MIN_def)
  have "appends (\<lambda>c :: slave. addReplyMultiBulkLen env c (int (length argv))) (ch CHR ''*'' # dec (length argv) @ crlf) 300000"
    by (rule appends_conv [OF multibulk_appends [OF assms(1) _ n(1)]])
      (use length_dec_int [OF n(2,1)] in \<open>auto simp: dec_int_def ecost_def\<close>)
  from appends_bind [OF this add_bulks_appends [OF assms(1)]] assms(2) show ?thesis
    by (simp add: enc_cmd_def cmd_cost_def argv_ok_def add.commute comp_def)
qed

section \<open>Feeding the replicas\<close>

definition ready :: "nat \<Rightarrow> slave \<Rightarrow> bool" where
  "ready k c \<longleftrightarrow> reply_inv c \<and> accepting c \<and> blocks_size c + k < 2 ^ 63"

definition fed :: "byte list \<Rightarrow> nat \<Rightarrow> slave \<Rightarrow> slave \<Rightarrow> bool" where
  "fed x k c c' \<longleftrightarrow> (if c_replstate c = SLAVE_STATE_WAIT_BGSAVE_START then c' = c else grows c (map Byte x) k c')"

lemma feed_each_ok:
  assumes f: "appends f x k"
  shows "distinct is \<Longrightarrow> \<forall>i \<in> set is. ready k (clients s i) \<Longrightarrow>
    \<exists>cl. feed_each f is s = Some (s\<lparr>clients := cl\<rparr>) \<and> (\<forall>i. if i \<in> set is then fed x k (clients s i) (cl i) else cl i = clients s i)"
proof (induction "is" arbitrary: s)
  case Nil
  then show ?case by (intro exI [of _ "clients s"]) simp
next
  case (Cons i "is")
  obtain c where c: "(if c_replstate (clients s i) = SLAVE_STATE_WAIT_BGSAVE_START then Some s else on_client i f s)
      = Some (s\<lparr>clients := (clients s)(i := c)\<rparr>)" "fed x k (clients s i) c"
  proof (cases "c_replstate (clients s i) = SLAVE_STATE_WAIT_BGSAVE_START")
    case True
    then show ?thesis using that [of "clients s i"] by (simp add: fed_def)
  next
    case False
    from appendsD [OF f] Cons.prems(2) obtain c where "f (clients s i) = Some c" "grows (clients s i) (map Byte x) k c"
      by (auto simp: ready_def)
    then show ?thesis using that [of c] False by (simp add: on_client_def set_client_def fed_def)
  qed
  define s1 where "s1 = s\<lparr>clients := (clients s)(i := c)\<rparr>"
  have "\<forall>j \<in> set is. ready k (clients s1 j)" using Cons.prems by (auto simp: s1_def)
  with Cons.IH [of s1] Cons.prems(1) obtain cl where
    cl: "feed_each f is s1 = Some (s1\<lparr>clients := cl\<rparr>)" "\<forall>j. if j \<in> set is then fed x k (clients s1 j) (cl j) else cl j = clients s1 j"
    by auto
  have "feed_each f (i # is) s = Some (s\<lparr>clients := cl\<rparr>)" using c(1) cl(1) by (simp add: s1_def)
  moreover have "\<forall>j. if j \<in> set (i # is) then fed x k (clients s j) (cl j) else cl j = clients s j"
  proof
    fix j
    show "if j \<in> set (i # is) then fed x k (clients s j) (cl j) else cl j = clients s j"
      using cl(2) [rule_format, of j] Cons.prems(1) c(2) by (auto simp: s1_def split: if_splits)
  qed
  ultimately show ?case by blast
qed

lemma fed_ready: "ready (k + l) c \<Longrightarrow> fed x k c c' \<Longrightarrow> ready l c'"
  by (auto simp: ready_def fed_def grows_def grows_accepting split: if_splits)

lemma fed_trans: "fed x k a b \<Longrightarrow> fed y l b c \<Longrightarrow> fed (x @ y) (k + l) a c"
  by (auto simp: fed_def grows_def same_client_def split: if_splits)

lemma fed_state: "fed x k c c' \<Longrightarrow> c_replstate c' = c_replstate c"
  by (auto simp: fed_def grows_def same_client_def split: if_splits)

definition prop_text :: "repl_srv \<Rightarrow> int \<Rightarrow> strobj list \<Rightarrow> byte list" where
  "prop_text s d argv = (if slaveseldb s \<noteq> d then select_text d else []) @ cmd_text argv"

definition prop_cost :: "strobj list \<Rightarrow> nat" where
  "prop_cost argv = 100000 + cmd_cost argv"

text \<open>The parts of the server that feeding does not change.\<close>

definition ctl :: "repl_srv \<Rightarrow> nat list \<times> byte list option \<times> int \<times> bool" where
  "ctl s = (slaves s, masterhost s, repl_backlog_size s, repl_diskless_sync s)"

lemma same_but_backlog_ctl: "same_but_backlog s s' \<Longrightarrow> ctl s' = ctl s"
  using same_but_backlogD by (simp add: ctl_def)

lemma select_text_length: "- (2 ^ 31) \<le> d \<Longrightarrow> d < 2 ^ 31 \<Longrightarrow> length (select_text d) \<le> 100"
proof -
  assume d: "- (2 ^ 31) \<le> d" "d < 2 ^ 31"
  have l: "length (dec_int d) \<le> 20" using d by (intro length_dec_int) (auto simp: LLONG_MIN_def LLONG_MAX_def)
  then have "length (dec_int d) < 10 ^ 19" by simp
  then have "length (dec (length (dec_int d))) \<le> 19" using length_dec_le [of "length (dec_int d)" 18] by simp
  moreover have "length (dec (Suc (Suc 0))) = 1" "length (dec (Suc (Suc (Suc (Suc (Suc (Suc 0))))))) = 1"
    using dec_small [of 2] dec_small [of 6] by (simp_all add: eval_nat_numeral)
  ultimately show ?thesis using l by (simp add: select_text_def enc_cmd_def enc_arg_def)
qed

lemma feed_select:
  assumes env: "tight env" and inv: "stream_inv base h s" "distinct (slaves s)" and d: "- (2 ^ 31) \<le> d" "d < 2 ^ 31"
    and c: "\<forall>i \<in> set (slaves s). ready (100000 + l) (clients s i)"
  defines "x \<equiv> (if slaveseldb s \<noteq> d then select_text d else [])"
  shows "\<exists>s'. (if slaveseldb s \<noteq> d then do {
             selectcmd \<leftarrow> select_cmd d;
             s' \<leftarrow> (if repl_backlog s \<noteq> None then feedReplicationBacklogWithObject selectcmd s else Some s);
             feed_each (\<lambda>c. addReply env c selectcmd) (slaves s) s' }
           else Some s) = Some s' \<and> stream_inv base (h @ x) s' \<and> ctl s' = ctl s
    \<and> (\<forall>i. if i \<in> set (slaves s) then fed x 100000 (clients s i) (clients s' i) else clients s' i = clients s i)"
proof (cases "slaveseldb s = d")
  case True
  have "fed [] 100000 (clients s i) (clients s i)" if "i \<in> set (slaves s)" for i
    using c that grows_mono [OF grows_refl, of "clients s i"] by (auto simp: fed_def ready_def)
  then show ?thesis using True inv by (simp add: x_def)
next
  case False
  have b: "repl_backlog s \<noteq> None" using inv(1) by (auto simp: stream_inv_def backlog_holds_def)
  obtain o1 where o1: "select_cmd d = Some o1" "obj_bytes o1 = select_text d" using select_cmd_text [OF d] by blast
  from feedReplicationBacklog_ok [OF inv(1), of "select_text d"] obtain s1 where
    s1: "feedReplicationBacklog (select_text d) s = Some s1" "stream_inv base (h @ select_text d) s1" "same_but_backlog s s1" by blast
  have cs: "clients s1 = clients s" "slaves s1 = slaves s" using same_but_backlogD [OF s1(3)] by simp_all
  have a: "appends (\<lambda>c :: slave. addReply env c o1) (select_text d) 100000"
    by (rule appends_conv [OF addReply_appends [OF env, of o1]]) (use o1(2) select_text_length [OF d] in \<open>simp_all add: wcost_def\<close>)
  have "\<forall>i \<in> set (slaves s1). ready 100000 (clients s1 i)" using c cs by (auto simp: ready_def)
  from feed_each_ok [OF a _ this, unfolded cs, OF inv(2)] obtain cl where
    "feed_each (\<lambda>c. addReply env c o1) (slaves s) s1 = Some (s1\<lparr>clients := cl\<rparr>)"
    "\<forall>i. if i \<in> set (slaves s) then fed (select_text d) 100000 (clients s i) (cl i) else cl i = clients s i" by blast
  then show ?thesis using False b o1 s1 same_but_backlog_ctl [OF s1(3)] cs by (simp add: feed_object x_def ctl_def)
qed

lemma replicationFeedSlaves_ok:
  assumes env: "tight env" and inv: "stream_inv base h s" "distinct (slaves s)" "masterhost s = None"
    and argv: "argv_ok argv" and d: "- (2 ^ 31) \<le> d" "d < 2 ^ 31"
    and c: "\<forall>i \<in> set (slaves s). ready (prop_cost argv) (clients s i)"
  shows "\<exists>s'. replicationFeedSlaves env (slaves s) d argv s = Some s' \<and> stream_inv base (h @ prop_text s d argv) s' \<and> ctl s' = ctl s
    \<and> slaveseldb s' = d
    \<and> (\<forall>i. if i \<in> set (slaves s) then fed (prop_text s d argv) (prop_cost argv) (clients s i) (clients s' i) else clients s' i = clients s i)"
proof -
  let ?x = "if slaveseldb s \<noteq> d then select_text d else []"
  have b: "repl_backlog s \<noteq> None" using inv(1) by (auto simp: stream_inv_def backlog_holds_def)
  from feed_select [OF env inv(1,2) d c [unfolded prop_cost_def]] obtain s1 where
    s1: "(if slaveseldb s \<noteq> d then do {
             selectcmd \<leftarrow> select_cmd d;
             s' \<leftarrow> (if repl_backlog s \<noteq> None then feedReplicationBacklogWithObject selectcmd s else Some s);
             feed_each (\<lambda>c. addReply env c selectcmd) (slaves s) s' }
           else Some s) = Some s1" "stream_inv base (h @ ?x) s1" "ctl s1 = ctl s"
      "\<forall>i. if i \<in> set (slaves s) then fed ?x 100000 (clients s i) (clients s1 i) else clients s1 i = clients s i" by auto
  define s2 where "s2 = s1\<lparr>slaveseldb := d\<rparr>"
  have s2: "stream_inv base (h @ ?x) s2" using s1(2) by (simp add: s2_def)
  have b2: "repl_backlog s2 \<noteq> None" using s2 by (auto simp: stream_inv_def backlog_holds_def)
  have aux: "aux_header (ch CHR ''*'') (int (length argv)) = Some (ch CHR ''*'' # dec (length argv) @ crlf)"
    using aux_header_text argv by (simp add: argv_ok_def)
  from feedReplicationBacklog_ok [OF s2, of "ch CHR ''*'' # dec (length argv) @ crlf"] obtain s3 where
    s3: "feedReplicationBacklog (ch CHR ''*'' # dec (length argv) @ crlf) s2 = Some s3"
      "stream_inv base ((h @ ?x) @ ch CHR ''*'' # dec (length argv) @ crlf) s3" "same_but_backlog s2 s3" by blast
  from feed_args_ok [OF _ s3(2)] argv obtain s4 where
    s4: "feed_args argv s3 = Some s4" "same_but_backlog s3 s4"
      "stream_inv base (((h @ ?x) @ ch CHR ''*'' # dec (length argv) @ crlf) @ concat (map (\<lambda>o1. enc_arg (obj_bytes o1)) argv)) s4"
    unfolding argv_ok_def by blast
  have same: "same_but_backlog s2 s4" using same_but_backlog_trans s3(3) s4(2) by blast
  have cs: "clients s4 = clients s1" "slaves s4 = slaves s" "ctl s4 = ctl s" "slaveseldb s4 = d"
    using same_but_backlogD [OF same] same_but_backlog_ctl [OF same] s1(3) by (simp_all add: s2_def ctl_def)
  have "\<forall>i \<in> set (slaves s). ready (cmd_cost argv) (clients s4 i)"
    using c s1(4) cs fed_ready unfolding prop_cost_def by metis
  from feed_each_ok [OF add_command_appends [OF env argv] inv(2) this] obtain cl where
    cl: "feed_each (\<lambda>c. do { c \<leftarrow> addReplyMultiBulkLen env c (int (length argv)); add_bulks env argv c }) (slaves s) s4 = Some (s4\<lparr>clients := cl\<rparr>)"
      "\<forall>i. if i \<in> set (slaves s) then fed (cmd_text argv) (cmd_cost argv) (clients s4 i) (cl i) else cl i = clients s4 i" by auto
  have "replicationFeedSlaves env (slaves s) d argv s = Some (s4\<lparr>clients := cl\<rparr>)"
    unfolding replicationFeedSlaves_def s1(1) using inv(3) b b2 aux s3(1) s4(1) cl(1)
    by (simp only: Option.bind.bind_lunit Let_def s2_def [symmetric]) simp
  moreover have "stream_inv base (h @ prop_text s d argv) (s4\<lparr>clients := cl\<rparr>)"
    using s4(3) by (simp add: prop_text_def enc_cmd_def comp_def)
  moreover have "\<forall>i. if i \<in> set (slaves s) then fed (prop_text s d argv) (prop_cost argv) (clients s i) (cl i) else cl i = clients s i"
    using s1(4) cl(2) cs(1) fed_trans unfolding prop_text_def prop_cost_def by metis
  ultimately show ?thesis using cs(3,4) by (simp add: ctl_def)
qed

end
