(* ===== verification/Replication_Run.thy ===== *)
theory Replication_Run
  imports Replication_Stream
begin

text \<open>
  Runs of a master: clients ask for synchronisation, commands are propagated, snapshots start, end and fail, output is
  sent in pieces, replicas leave and the backlog is resized, in any order. Every replica gets the
  stream without gap or repetition from the offset it was promised.
\<close>

section \<open>The output of a replica\<close>

definition out_eq :: "slave \<Rightarrow> slave \<Rightarrow> bool" where
  "out_eq c c' \<longleftrightarrow> c_buf c' = c_buf c \<and> c_bufpos c' = c_bufpos c \<and> c_reply c' = c_reply c \<and> c_next_node c' = c_next_node c
     \<and> c_reply_bytes c' = c_reply_bytes c \<and> c_sentlen c' = c_sentlen c"

lemma out_eqD:
  assumes "out_eq c c'"
  shows "reply_inv c' = reply_inv c" "filled c' = filled c" "flat c' = flat c" "pend c' = pend c" "blocks_size c' = blocks_size c"
    "c_sentlen c' = c_sentlen c"
  using assms
  by (simp_all add: out_eq_def reply_inv_def filled_def flat_def pend_def blocks_size_def sent_ok_def split: list.split option.split)

text \<open>
  A replica that has sent \<open>sent\<close> of the stream \<open>h\<close> and holds the rest; \<open>ps\<close> is the offset of its PSYNC request, if
  that was accepted, and the stream then continues from there; otherwise it starts behind the announced
  offset of the snapshot.
\<close>

definition position_of :: "int option \<Rightarrow> slave \<Rightarrow> int" where
  "position_of ps c = (case ps of Some p \<Rightarrow> p - 1 | None \<Rightarrow> sl_psync_initial_offset c)"

definition in_stream :: "int \<Rightarrow> byte list \<Rightarrow> byte list \<Rightarrow> int option \<Rightarrow> slave \<Rightarrow> bool" where
  "in_stream base h sent ps c \<longleftrightarrow> (\<exists>n \<le> length h. position_of ps c = base + int n
     \<and> map Byte sent @ pend c = map Byte (drop n h))"

definition client_ok :: "nat \<Rightarrow> slave \<Rightarrow> bool" where
  "client_ok B c \<longleftrightarrow> reply_inv c \<and> filled c \<and> accepting c \<and> blocks_size c \<le> B
     \<and> CLIENT_SLAVE \<in> c_flags c \<and> CLIENT_MONITOR \<notin> c_flags c"

definition slave_ok :: "int \<Rightarrow> byte list \<Rightarrow> nat \<Rightarrow> byte list \<Rightarrow> int option \<Rightarrow> slave \<Rightarrow> bool" where
  "slave_ok base h B sent ps c \<longleftrightarrow> client_ok B c
     \<and> (if c_replstate c = SLAVE_STATE_WAIT_BGSAVE_START then flat c = [] else in_stream base h sent ps c)
     \<and> (c_replstate c = SLAVE_STATE_WAIT_BGSAVE_START \<or> c_replstate c = SLAVE_STATE_WAIT_BGSAVE_END
        \<longrightarrow> sent = [] \<and> c_sentlen c = 0 \<and> ps = None)"

lemma slave_ok_mono: "slave_ok base h B sent ps c \<Longrightarrow> B \<le> B' \<Longrightarrow> slave_ok base h B' sent ps c"
  by (auto simp: slave_ok_def client_ok_def)

lemma sentlen_flat: "reply_inv c \<Longrightarrow> c_sentlen c \<le> length (flat c)"
  by (auto simp: reply_inv_def sent_ok_def flat_def blk_inv_def blk_bytes_def split: if_splits list.splits option.splits)

lemma grows_pend: "reply_inv c \<Longrightarrow> grows c xs k c' \<Longrightarrow> pend c' = pend c @ xs"
  using sentlen_flat [of c] by (simp add: pend_def grows_def)

lemma same_client_offset: "same_client c c' \<Longrightarrow> sl_psync_initial_offset c' = sl_psync_initial_offset (c :: slave)"
  by (cases c; cases c') (simp add: same_client_def)

lemma same_client_slave:
  "same_client c c' \<Longrightarrow> CLIENT_SLAVE \<in> c_flags c' \<longleftrightarrow> CLIENT_SLAVE \<in> c_flags c"
  "same_client c c' \<Longrightarrow> CLIENT_MONITOR \<in> c_flags c' \<longleftrightarrow> CLIENT_MONITOR \<in> c_flags c"
  by (auto simp: same_client_def)

lemma grows_client_ok: "client_ok B c \<Longrightarrow> grows c (map Byte x) k c' \<Longrightarrow> client_ok (B + k) c'"
  using grows_filled [of c x k c'] grows_accepting [of c "map Byte x" k c'] same_client_slave [of c c']
  by (auto simp: client_ok_def grows_def)

text \<open>Feeding a replica.\<close>

lemma fed_slave_ok:
  assumes "slave_ok base h B sent ps c" "fed x k c c'"
  shows "slave_ok base (h @ x) (B + k) sent ps c'"
proof (cases "c_replstate c = SLAVE_STATE_WAIT_BGSAVE_START")
  case True
  then show ?thesis using assms slave_ok_mono [of base h B sent ps c "B + k"] by (simp add: fed_def slave_ok_def)
next
  case False
  then have g: "grows c (map Byte x) k c'" using assms(2) by (simp add: fed_def)
  have st: "c_replstate c' = c_replstate c" "c_sentlen c' = c_sentlen c" using g by (simp_all add: grows_def same_client_def)
  have ok: "client_ok B c" "in_stream base h sent ps c" using assms(1) False by (simp_all add: slave_ok_def)
  from ok(2) obtain n where n: "n \<le> length h" "position_of ps c = base + int n" "map Byte sent @ pend c = map Byte (drop n h)"
    by (auto simp: in_stream_def)
  have "position_of ps c' = position_of ps c"
    using same_client_offset [of c c'] g by (simp add: position_of_def grows_def split: option.split)
  moreover have "map Byte sent @ pend c' = map Byte (drop n (h @ x))"
    using grows_pend [OF _ g] ok(1) n(1,3) by (simp add: client_ok_def)
  ultimately have "in_stream base (h @ x) sent ps c'" using n(1,2) by (auto simp: in_stream_def)
  moreover have "client_ok (B + k) c'" using grows_client_ok [OF ok(1) g] .
  ultimately show ?thesis using assms(1) False st by (simp add: slave_ok_def)
qed

text \<open>A full resynchronisation that starts behind the \<open>n\<close>-th byte.\<close>

lemma full_slave_ok:
  assumes c: "client_ok B c" "c_sentlen c = 0" "flat c = map Byte (drop n h)" "n \<le> length h"
    and c': "out_eq c c'" "c_flags c' = c_flags c \<or> c_flags c' = insert CLIENT_CLOSE_ASAP (c_flags c)" "c_fd c' = c_fd c"
      "c_replstate c' = SLAVE_STATE_WAIT_BGSAVE_END" "sl_psync_initial_offset c' = base + int n"
  shows "slave_ok base h B [] None c'"
proof -
  have "accepting c' = accepting c" using c'(2,3) by (auto simp: accepting_def)
  then have "client_ok B c'" using c(1) c'(2) out_eqD [OF c'(1)] by (auto simp: client_ok_def)
  moreover have "in_stream base h [] None c'"
    using c(2-4) out_eqD [OF c'(1)] c'(5) by (auto simp: in_stream_def position_of_def pend_def)
  ultimately show ?thesis using c(2) c' out_eqD(6) [OF c'(1)] by (simp add: slave_ok_def)
qed

section \<open>The invariant of the master\<close>

definition srv_inv :: "int \<Rightarrow> int \<Rightarrow> nat \<Rightarrow> byte list \<Rightarrow> (nat \<Rightarrow> byte list) \<Rightarrow> (nat \<Rightarrow> int option) \<Rightarrow> repl_srv \<Rightarrow> bool" where
  "srv_inv base S B h sent ps s \<longleftrightarrow> stream_inv base h s \<and> masterhost s = None \<and> distinct (slaves s)
     \<and> repl_backlog_size s \<le> S \<and> \<not> repl_diskless_sync s
     \<and> (\<forall>i \<in> set (slaves s). slave_ok base h B (sent i) (ps i) (clients s i))"

lemma srv_inv_mono: "srv_inv base S B h sent ps s \<Longrightarrow> B \<le> B' \<Longrightarrow> srv_inv base S B' h sent ps s"
  using slave_ok_mono by (auto simp: srv_inv_def)

lemma srv_inv_client:
  "srv_inv base S B h sent ps s \<Longrightarrow> slave_ok base h B (sent i) (ps i) c \<Longrightarrow> srv_inv base S B h sent ps (set_client i c s)"
  by (auto simp: srv_inv_def) (auto simp: set_client_def)

lemma srv_inv_upd [simp]:
  "srv_inv base S B h sent ps (s\<lparr>slaveseldb := d\<rparr>) = srv_inv base S B h sent ps s"
  "srv_inv base S B h sent ps (s\<lparr>rdb_child_type := ct\<rparr>) = srv_inv base S B h sent ps s"
  "srv_inv base S B h sent ps (s\<lparr>repl_scriptcache_dict := sd\<rparr>) = srv_inv base S B h sent ps s"
  "srv_inv base S B h sent ps (s\<lparr>repl_scriptcache_fifo := sf\<rparr>) = srv_inv base S B h sent ps s"
  "srv_inv base S B h sent ps (s\<lparr>stat_sync_full := n\<rparr>) = srv_inv base S B h sent ps s"
  "srv_inv base S B h sent ps (s\<lparr>stat_sync_partial_ok := n\<rparr>) = srv_inv base S B h sent ps s"
  "srv_inv base S B h sent ps (s\<lparr>stat_sync_partial_err := n\<rparr>) = srv_inv base S B h sent ps s"
  "srv_inv base S B h sent ps (s\<lparr>repl_good_slaves_count := z\<rparr>) = srv_inv base S B h sent ps s"
  "srv_inv base S B h sent ps (s\<lparr>repl_no_slaves_since := z\<rparr>) = srv_inv base S B h sent ps s"
  by (simp_all add: srv_inv_def)

lemma srv_inv_refresh [simp]: "srv_inv base S B h sent ps (refreshGoodSlavesCount env s) = srv_inv base S B h sent ps s"
  by (simp add: refreshGoodSlavesCount_def)

lemma srv_inv_remove: "srv_inv base S B h sent ps s \<Longrightarrow> srv_inv base S B h sent ps (s\<lparr>slaves := remove1 i (slaves s)\<rparr>)"
  by (auto simp: srv_inv_def set_remove1_eq)

lemma propagate_ok:
  assumes env: "tight env" and inv: "srv_inv base S B h sent ps s" and argv: "argv_ok argv" and d: "- (2 ^ 31) \<le> d" "d < 2 ^ 31"
    and B: "B + prop_cost argv < 2 ^ 63"
  shows "\<exists>s'. replicationFeedSlaves env (slaves s) d argv s = Some s'
    \<and> srv_inv base S (B + prop_cost argv) (h @ prop_text s d argv) sent ps s' \<and> slaveseldb s' = d"
proof -
  have "\<forall>i \<in> set (slaves s). ready (prop_cost argv) (clients s i)"
    using inv B by (fastforce simp: srv_inv_def slave_ok_def client_ok_def ready_def)
  with replicationFeedSlaves_ok [OF env _ _ _ argv d, of base h s] inv obtain s' where
    s': "replicationFeedSlaves env (slaves s) d argv s = Some s'" "stream_inv base (h @ prop_text s d argv) s'" "ctl s' = ctl s"
      "slaveseldb s' = d"
      "\<forall>i. if i \<in> set (slaves s) then fed (prop_text s d argv) (prop_cost argv) (clients s i) (clients s' i) else clients s' i = clients s i"
    by (auto simp: srv_inv_def)
  have "slave_ok base (h @ prop_text s d argv) (B + prop_cost argv) (sent i) (ps i) (clients s' i)" if "i \<in> set (slaves s)" for i
    using fed_slave_ok inv s'(5) that by (auto simp: srv_inv_def)
  then show ?thesis using s'(1-4) inv by (auto simp: srv_inv_def ctl_def)
qed

section \<open>Snapshots\<close>

lemma set_client_twice [simp]: "set_client i c (set_client i c' s) = set_client i c s"
  by (simp add: set_client_def)

lemma set_client_self [simp]: "set_client i (clients s i) s = s"
  by (simp add: set_client_def)

lemma set_client_slaves: "set_client i c (s\<lparr>slaves := is\<rparr>) = (set_client i c s)\<lparr>slaves := is\<rparr>"
  by (simp add: set_client_def)

lemma clients_set_client [simp]: "clients (set_client i c s) i = c" "slaves (set_client i c s) = slaves s"
  by (simp_all add: set_client_def)

lemma setup_full_ok:
  assumes inv: "srv_inv base S B h sent ps s"
    and c: "client_ok B c" "c_sentlen c = 0" "flat c = map Byte (drop n h)" "n \<le> length h"
    and g: "sent i = []" "ps i = None"
  shows "srv_inv base S B h sent ps (snd (replicationSetupSlaveForFullResync wrote i (base + int n) (set_client i c s)))"
proof -
  define c1 where "c1 = c\<lparr>sl_psync_initial_offset := base + int n, c_replstate := SLAVE_STATE_WAIT_BGSAVE_END\<rparr>"
  have c1: "slave_ok base h B [] None c1"
    by (rule full_slave_ok [OF c]) (simp_all add: c1_def out_eq_def)
  have dw: "slave_ok base h B [] None (direct_write wrote bs c1)" for bs
    by (rule full_slave_ok [OF c])
      (auto simp: c1_def out_eq_def direct_write_def freeClientAsync_def setflag_def)
  have "srv_inv base S B h sent ps ((set_client i c1 s)\<lparr>slaveseldb := - 1\<rparr>)" using srv_inv_client [OF inv] c1 g by simp
  moreover from srv_inv_client [OF this] dw g
  have "srv_inv base S B h sent ps (set_client i (direct_write wrote bs c1) ((set_client i c1 s)\<lparr>slaveseldb := - 1\<rparr>))" for bs by simp
  ultimately show ?thesis
    unfolding replicationSetupSlaveForFullResync_def clients_set_client(1) c1_def [symmetric] Let_def by simp
qed

lemma setup_slaves [simp]: "slaves (snd (replicationSetupSlaveForFullResync wrote i off s)) = slaves s"
  by (simp add: replicationSetupSlaveForFullResync_def set_client_def Let_def)

lemma setup_waiting_ok:
  "srv_inv base S B h sent ps s \<Longrightarrow> set is \<subseteq> set (slaves s) \<Longrightarrow>
    srv_inv base S B h sent ps (setup_waiting wrote is s) \<and> slaves (setup_waiting wrote is s) = slaves s"
proof (induction "is" arbitrary: s)
  case (Cons i "is")
  define s1 where "s1 = (if c_replstate (clients s i) = SLAVE_STATE_WAIT_BGSAVE_START
        then snd (replicationSetupSlaveForFullResync (wrote i) i (getPsyncInitialOffset s) s) else s)"
  have "srv_inv base S B h sent ps s1"
  proof (cases "c_replstate (clients s i) = SLAVE_STATE_WAIT_BGSAVE_START")
    case True
    have ok: "slave_ok base h B (sent i) (ps i) (clients s i)" using Cons.prems by (auto simp: srv_inv_def)
    have "getPsyncInitialOffset s = base + int (length h)"
      using Cons.prems(1) by (simp add: getPsyncInitialOffset_def srv_inv_def stream_inv_def)
    moreover have "srv_inv base S B h sent ps (snd (replicationSetupSlaveForFullResync (wrote i) i (base + int (length h)) s))"
      using setup_full_ok [OF Cons.prems(1), of "clients s i" "length h" i "wrote i"] ok True by (simp add: slave_ok_def)
    ultimately show ?thesis using True by (simp add: s1_def)
  qed (use Cons.prems in \<open>simp add: s1_def\<close>)
  moreover have "slaves s1 = slaves s" by (simp add: s1_def)
  ultimately show ?case using Cons.IH [of s1] Cons.prems(2) by (simp add: s1_def)
qed simp

lemma srv_inv_kill:
  "srv_inv base S B h sent ps s \<Longrightarrow> srv_inv base S B h sent ps ((set_client i c s)\<lparr>slaves := remove1 i (slaves s)\<rparr>)"
  by (auto simp: srv_inv_def) (auto simp: set_client_def set_remove1_eq split: if_splits)

lemma addReplyError_some:
  assumes "tight env" "reply_inv c" "accepting c" "0 \<in> set err" "blocks_size c + 2 * length err + 150100 < 2 ^ 63"
  shows "\<exists>c'. addReplyError env c err = Some c'"
proof -
  obtain n where n: "strlen err = Some n" using assms(4) by (simp add: strlen_def)
  let ?m = "take n err"
  have "blocks_size c + ecost ((if ?m = [] \<or> hd ?m \<noteq> ch CHR ''-'' then bytes_of ''-ERR '' else []) @ ?m @ crlf) < 2 ^ 63"
    using assms(5) by (auto simp: ecost_def)
  with appendsD [OF error_appends [OF assms(1), of ?m] assms(2,3)] n show ?thesis by (auto simp: addReplyError_def)
qed

lemma fail_waiting_ok:
  assumes env: "tight env" and B: "B + 200000 < 2 ^ 63"
  shows "srv_inv base S B h sent ps s \<Longrightarrow> distinct is \<Longrightarrow> set is \<subseteq> set (slaves s) \<Longrightarrow>
    \<exists>s'. fail_waiting env is s = Some s' \<and> srv_inv base S B h sent ps s'"
proof (induction "is" arbitrary: s)
  case (Cons i "is")
  show ?case
  proof (cases "c_replstate (clients s i) = SLAVE_STATE_WAIT_BGSAVE_START")
    case False
    then show ?thesis using Cons by simp
  next
    case True
    let ?c = "clrflag CLIENT_SLAVE ((clients s i)\<lparr>c_replstate := REPL_STATE_NONE\<rparr>)"
    let ?err = "bytes_of ''BGSAVE failed, replication can'' @ [39] @ bytes_of ''t continue'' @ [0]"
    have ok: "client_ok B (clients s i)" using Cons.prems by (auto simp: srv_inv_def slave_ok_def)
    have "out_eq (clients s i) ?c" by (simp add: out_eq_def clrflag_def)
    note o = out_eqD [OF this]
    have "accepting ?c" using ok by (auto simp: client_ok_def accepting_def clrflag_def)
    then obtain c' where c': "addReplyError env ?c ?err = Some c'"
      using addReplyError_some [OF env, of ?c ?err] o ok B by (auto simp: client_ok_def)
    define s1 where "s1 = (set_client i (setflag CLIENT_CLOSE_AFTER_REPLY c') s)\<lparr>slaves := remove1 i (slaves s)\<rparr>"
    have "srv_inv base S B h sent ps s1" unfolding s1_def by (rule srv_inv_kill [OF Cons.prems(1)])
    moreover have "set is \<subseteq> set (slaves s1)" using Cons.prems by (auto simp: s1_def srv_inv_def set_remove1_eq)
    ultimately obtain s' where "fail_waiting env is s1 = Some s'" "srv_inv base S B h sent ps s'"
      using Cons.IH [of s1] Cons.prems(2) by auto
    moreover have "fail_waiting env (i # is) s = fail_waiting env is s1"
      using True c' by (simp add: on_client_def s1_def set_client_def)
    ultimately show ?thesis by simp
  qed
qed simp

definition bgsave_result :: "bool \<Rightarrow> bool \<Rightarrow> repl_srv \<Rightarrow> bool \<times> repl_srv" where
  "bgsave_result started socket s =
     (started, if started then s\<lparr>rdb_child_type := (if socket then SocketChild else DiskChild)\<rparr> else s)"

lemma startBgsave_ok:
  assumes env: "tight env" and inv: "srv_inv base S B h sent ps s" and B: "B + 200000 < 2 ^ 63"
  shows "\<exists>ok s'. startBgsaveForReplication env wrote (bgsave_result started) mincapa s = Some (ok, s')
    \<and> srv_inv base S B h sent ps s'"
proof (cases started)
  case True
  have d: "\<not> repl_diskless_sync s" using inv by (simp add: srv_inv_def)
  define s1 where "s1 = s\<lparr>rdb_child_type := DiskChild\<rparr>"
  have "srv_inv base S B h sent ps s1" using inv by (simp add: s1_def)
  then have "srv_inv base S B h sent ps (setup_waiting wrote (slaves s1) s1)" using setup_waiting_ok by blast
  then show ?thesis using True d
    by (intro exI [of _ True]) (simp add: startBgsaveForReplication_def bgsave_result_def s1_def replicationScriptCacheFlush_def)
next
  case False
  have "distinct (slaves s)" using inv by (simp add: srv_inv_def)
  from fail_waiting_ok [OF env B inv this] obtain s' where "fail_waiting env (slaves s) s = Some s'" "srv_inv base S B h sent ps s'" by auto
  then show ?thesis using False by (intro exI [of _ False]) (simp add: startBgsaveForReplication_def bgsave_result_def)
qed

section \<open>Synchronisation requests\<close>

text \<open>A connected client that asks for synchronisation; the arity of PSYNC is checked before, and its offset is a number.\<close>

definition is_psync :: "slave \<Rightarrow> bool" where
  "is_psync c \<longleftrightarrow> strcasecmp_eq (sds_of (q_argv c ! 0)) (bytes_of ''psync'')"

definition psync_offset :: "slave \<Rightarrow> int" where
  "psync_offset c = the (string2ll (obj_bytes (q_argv c ! 2)))"

definition fresh_client :: "slave \<Rightarrow> bool" where
  "fresh_client c \<longleftrightarrow> reply_inv c \<and> filled c \<and> accepting c \<and> \<not> clientHasPendingReplies c
     \<and> CLIENT_SLAVE \<notin> c_flags c \<and> CLIENT_MONITOR \<notin> c_flags c \<and> q_argv c \<noteq> []
     \<and> (is_psync c \<longrightarrow> length (q_argv c) = 3 \<and> string2ll (obj_bytes (q_argv c ! 2)) \<noteq> None)"

lemma fresh_output:
  assumes "fresh_client c"
  shows "flat c = []" "c_sentlen c = 0" "blocks_size c = 0" "pend c = []"
  using assms
  by (auto simp: fresh_client_def clientHasPendingReplies_def flat_def reply_inv_def sent_ok_def blocks_size_def pend_def)

lemma srv_inv_add:
  assumes "srv_inv base S B h sent ps s" "i \<notin> set (slaves s)" "slave_ok base h B x p c"
  shows "srv_inv base S B h (sent(i := x)) (ps(i := p)) ((set_client i c s)\<lparr>slaves := slaves s @ [i]\<rparr>)"
  using assms by (auto simp: srv_inv_def) (auto simp: set_client_def)

lemma psync_ok:
  assumes env: "tight env" and inv: "srv_inv base S B h sent ps s" and i: "i \<notin> set (slaves s)"
    and c: "fresh_client c" "is_psync c" and B: "int B + 2 * S + 65568 < 2 ^ 63"
  defines "B' \<equiv> B + nat (2 * S + 65568)"
  shows "masterTryPartialResynchronization env True i (set_client i c s) = Some (False, set_client i c s)
    \<or> (\<exists>s'. masterTryPartialResynchronization env True i (set_client i c s) = Some (True, s')
        \<and> srv_inv base S B' h (sent(i := [])) (ps(i := Some (psync_offset c))) s' \<and> stat_sync_partial_ok s' = stat_sync_partial_ok s)"
proof -
  let ?s = "set_client i c s" and ?p = "psync_offset c"
  have argv: "2 < length (q_argv c)" "getLongLongFromObjectOrReply (Some (q_argv c ! 2)) None = Inr ?p"
    using c by (auto simp: fresh_client_def getLongLongFromObjectOrReply_def getLongLongFromObject_bytes psync_offset_def)
  define id where "id = sds_of (q_argv c ! 1)"
  define c1 where "c1 = (setflag CLIENT_SLAVE c)\<lparr>c_replstate := SLAVE_STATE_ONLINE, q_repl_ack_time := unixtime env, c_put_online_on_ack := False\<rparr>"
  define line where "line = (if SLAVE_CAPA_PSYNC2 \<in> sl_capa c1 then bytes_of ''+CONTINUE '' @ replid ?s @ crlf else bytes_of ''+CONTINUE'' @ crlf)"
  define c2 where "c2 = direct_write True line c1"
  define s2 where "s2 = (set_client i c2 s)\<lparr>slaves := slaves s @ [i]\<rparr>"
  define refused where "refused \<longleftrightarrow> \<not> strcasecmp_eq id (replid ?s) \<and> (\<not> strcasecmp_eq id (replid2 ?s) \<or> ?p > second_replid_offset ?s)
    \<or> repl_backlog ?s = None \<or> ?p < repl_backlog_off ?s \<or> ?p > repl_backlog_off ?s + repl_backlog_histlen ?s"
  have ev: "masterTryPartialResynchronization env True i ?s =
      (if refused then Some (False, ?s)
       else do { (_, s) \<leftarrow> addReplyReplicationBacklog env i ?p s2; Some (True, refreshGoodSlavesCount env s) })"
    using argv unfolding masterTryPartialResynchronization_def Let_def
    by (simp add: refused_def id_def c1_def [symmetric] line_def [symmetric] c2_def [symmetric] s2_def set_client_slaves)
      (auto simp: line_def c1_def)
  show ?thesis
  proof (cases refused)
    case True
    then show ?thesis using ev by simp
  next
    case False
    have st: "stream_inv base h s2" using inv by (simp add: s2_def srv_inv_def)
    have off: "repl_backlog_off s2 \<le> ?p" "?p \<le> repl_backlog_off s2 + repl_backlog_histlen s2" "repl_backlog_size s2 \<le> S"
      using False inv by (auto simp: refused_def s2_def set_client_def srv_inv_def)
    have o: "out_eq c c2" by (simp add: c2_def c1_def out_eq_def direct_write_def setflag_def)
    have acc: "accepting c2" using c(1) by (simp add: c2_def c1_def direct_write_def setflag_def fresh_client_def accepting_def)
    have c2: "clients s2 i = c2" by (simp add: s2_def set_client_def)
    have sz: "0 \<le> repl_backlog_size s2" using st by (auto simp: stream_inv_def backlog_holds_def)
    have r: "reply_inv c2" "blocks_size c2 = 0" "pend c2 = []" "filled c2"
      using out_eqD [OF o] fresh_output [OF c(1)] c(1) by (auto simp: fresh_client_def)
    have "int (blocks_size c2) + 2 * repl_backlog_size s2 + 65568 < 2 ^ 63" using B off(3) r(2) by linarith
    from addReplyReplicationBacklog_ok [OF env st off(1,2), of i, unfolded c2, OF r(1) acc this] obtain c3 n where
      c3: "addReplyReplicationBacklog env i ?p s2 = Some (n, set_client i c3 s2)"
        "grows c2 (map Byte (drop (nat (?p - base - 1)) h)) (nat (2 * repl_backlog_size s2 + 65568)) c3"
        "base < ?p" "?p \<le> base + int (length h) + 1" by auto
    let ?n = "nat (?p - base - 1)"
    have fl: "CLIENT_SLAVE \<in> c_flags c2" "CLIENT_MONITOR \<notin> c_flags c2" "c_replstate c2 = SLAVE_STATE_ONLINE"
      using c(1) by (auto simp: c2_def c1_def direct_write_def setflag_def fresh_client_def)
    have "client_ok 0 c2" using r acc fl by (simp add: client_ok_def)
    from grows_client_ok [OF this c3(2)] have "client_ok B' c3" using off(3) by (auto simp: client_ok_def B'_def)
    moreover have "in_stream base h [] (Some ?p) c3"
      unfolding in_stream_def position_of_def using grows_pend [OF r(1) c3(2)] r(3) c3(3,4)
      by (intro exI [of _ ?n]) auto
    moreover have "c_replstate c3 = SLAVE_STATE_ONLINE" using c3(2) fl(3) by (simp add: grows_def same_client_def)
    ultimately have "slave_ok base h B' [] (Some ?p) c3" by (simp add: slave_ok_def)
    moreover have "srv_inv base S B' h sent ps s" using srv_inv_mono [OF inv] by (simp add: B'_def)
    ultimately have "srv_inv base S B' h (sent(i := [])) (ps(i := Some ?p)) ((set_client i c3 s)\<lparr>slaves := slaves s @ [i]\<rparr>)"
      using srv_inv_add i by blast
    moreover have "set_client i c3 s2 = (set_client i c3 s)\<lparr>slaves := slaves s @ [i]\<rparr>" by (simp add: s2_def set_client_slaves)
    moreover have "stat_sync_partial_ok (refreshGoodSlavesCount env ((set_client i c3 s)\<lparr>slaves := slaves s @ [i]\<rparr>)) = stat_sync_partial_ok s"
      by (simp add: refreshGoodSlavesCount_def set_client_def)
    ultimately show ?thesis using ev False c3(1) by simp
  qed
qed

lemma copy_output_ok:
  assumes d: "reply_inv dst" and s: "reply_inv src" "filled src" "c_sentlen src = 0"
  shows "\<exists>c. copyClientOutputBuffer dst src = Some c \<and> reply_inv c \<and> filled c \<and> flat c = flat src \<and> c_sentlen c = 0
    \<and> blocks_size c = blocks_size src \<and> c_flags c = c_flags dst \<and> c_fd c = c_fd dst"
proof -
  let ?r = "map (\<lambda>(k, b). (k + c_next_node dst, b)) (c_reply src)"
  let ?buf = "take (c_bufpos src) (c_buf src) @ drop (c_bufpos src) (c_buf dst)"
  define c where "c = dst\<lparr>c_sentlen := 0, c_reply := ?r, c_next_node := c_next_node dst + c_next_node src, c_buf := ?buf,
    c_bufpos := c_bufpos src, c_reply_bytes := c_reply_bytes src\<rparr>"
  have l: "length (c_buf dst) = PROTO_REPLY_CHUNK_BYTES" "length (c_buf src) = PROTO_REPLY_CHUNK_BYTES" "c_bufpos src \<le> PROTO_REPLY_CHUNK_BYTES"
    using d s(1) by (simp_all add: reply_inv_def)
  have w: "write_at (c_buf dst) 0 (take (c_bufpos src) (c_buf src)) = Some ?buf" using l by (simp add: write_at_def)
  have nn: "\<not> (\<exists>n \<in> set (c_reply src). snd n = None)" using s(2) by (auto simp: filled_def)
  have items: "node_items (k + m, b) = node_items (k, b)" if "b \<noteq> None" for k m b using that by (cases b) simp_all
  have sizes: "node_size (k + m, b) = node_size (k, b)" for k m b by (cases b) simp_all
  have bs: "blocks_size c = blocks_size src"
    by (simp add: blocks_size_def c_def comp_def case_prod_unfold sizes)
  have "map node_items ?r = map node_items (c_reply src)" using s(2) items by (fastforce simp: filled_def)
  then have "flat c = flat src" using l by (simp add: flat_def c_def del: map_map)
  moreover have "distinct (map fst ?r)"
  proof -
    have "map fst ?r = map (\<lambda>k. k + c_next_node dst) (map fst (c_reply src))" by (simp add: comp_def case_prod_unfold)
    moreover have "distinct (map fst (c_reply src))" using s(1) by (simp add: reply_inv_def)
    ultimately show ?thesis by (simp only: distinct_map) (simp add: inj_on_def)
  qed
  moreover have "sent_ok c"
  proof -
    have ok: "sent_ok src" "\<forall>(i, v) \<in> set (c_reply src). \<forall>b. v = Some b \<longrightarrow> blk_inv b" using s(1) by (auto simp: reply_inv_def)
    show ?thesis using ok s(3) by (cases "c_reply src") (auto simp: sent_ok_def c_def split: option.splits)
  qed
  moreover have "\<forall>(i, v) \<in> set ?r. i < c_next_node c \<and> (\<forall>b. v = Some b \<longrightarrow> blk_inv b)"
    using s(1) by (fastforce simp: reply_inv_def c_def)
  ultimately have "reply_inv c" "flat c = flat src" using l s(1) bs by (auto simp: reply_inv_def c_def)
  moreover have "filled c" using s(2) by (auto simp: filled_def c_def)
  moreover have "copyClientOutputBuffer dst src = Some c" using nn w by (simp add: copyClientOutputBuffer_def c_def)
  ultimately show ?thesis using bs by (auto simp: c_def)
qed

lemma attach_ok:
  assumes inv: "srv_inv base S B h sent ps s" and i: "i \<in> set (slaves s)" "c_replstate (clients s i) = SLAVE_STATE_WAIT_BGSAVE_START"
    and k: "k \<in> set (slaves s)" "c_replstate (clients s k) = SLAVE_STATE_WAIT_BGSAVE_END"
  shows "\<exists>s'. on_client i (\<lambda>c. copyClientOutputBuffer c (clients s k)) s = Some s'
    \<and> srv_inv base S B h sent ps (snd (replicationSetupSlaveForFullResync wrote i (sl_psync_initial_offset (clients s k)) s'))"
proof -
  have si: "slave_ok base h B (sent i) (ps i) (clients s i)" and sk: "slave_ok base h B (sent k) (ps k) (clients s k)"
    using inv i k by (auto simp: srv_inv_def)
  have ci: "client_ok B (clients s i)" "sent i = []" "ps i = None" using si i(2) by (simp_all add: slave_ok_def)
  have ck: "client_ok B (clients s k)" "sent k = []" "ps k = None" "c_sentlen (clients s k) = 0" "in_stream base h (sent k) (ps k) (clients s k)"
    using sk k(2) unfolding slave_ok_def by auto
  from ck(2-5) obtain n where n: "n \<le> length h" "sl_psync_initial_offset (clients s k) = base + int n"
    "flat (clients s k) = map Byte (drop n h)" by (auto simp: in_stream_def position_of_def pend_def)
  from copy_output_ok [of "clients s i" "clients s k"] ci ck obtain c where
    c: "copyClientOutputBuffer (clients s i) (clients s k) = Some c" "reply_inv c" "filled c" "flat c = flat (clients s k)" "c_sentlen c = 0"
      "blocks_size c = blocks_size (clients s k)" "c_flags c = c_flags (clients s i)" "c_fd c = c_fd (clients s i)"
    by (auto simp: client_ok_def)
  have acc: "accepting c" using ci(1) c(7,8) by (simp add: client_ok_def accepting_def)
  have ok: "client_ok B c" using ci(1) ck(1) c acc by (simp add: client_ok_def)
  define s' where "s' = set_client i c s"
  have "srv_inv base S B h sent ps (snd (replicationSetupSlaveForFullResync wrote i (base + int n) s'))"
    unfolding s'_def by (rule setup_full_ok [OF inv ok c(5)]) (use c(4) n ci in simp_all)
  then show ?thesis using c(1) n(2) by (simp add: on_client_def s'_def)
qed

text \<open>Only an accepted PSYNC counts as a partial resynchronisation.\<close>

lemma partial_ok_setup [simp]:
  "stat_sync_partial_ok (set_client i c s) = stat_sync_partial_ok s"
  "stat_sync_partial_ok (snd (replicationSetupSlaveForFullResync wrote i off s)) = stat_sync_partial_ok s"
  "stat_sync_partial_ok (refreshGoodSlavesCount env s) = stat_sync_partial_ok s"
  by (simp_all add: replicationSetupSlaveForFullResync_def set_client_def refreshGoodSlavesCount_def Let_def)

lemma partial_ok_on_client: "on_client i f s = Some s' \<Longrightarrow> stat_sync_partial_ok s' = stat_sync_partial_ok s"
  by (auto simp: on_client_def)

lemma partial_ok_waiting:
  "stat_sync_partial_ok (setup_waiting wrote' is s) = stat_sync_partial_ok s"
  "fail_waiting env is s = Some s' \<Longrightarrow> stat_sync_partial_ok s' = stat_sync_partial_ok s"
  by (induction "is" arbitrary: s) (auto split: bind_splits if_splits dest!: partial_ok_on_client)

lemma partial_ok_start:
  "startBgsaveForReplication env wrote (bgsave_result started) mincapa s = Some (ok, s') \<Longrightarrow> stat_sync_partial_ok s' = stat_sync_partial_ok s"
  by (auto simp: startBgsaveForReplication_def bgsave_result_def Let_def replicationScriptCacheFlush_def partial_ok_waiting
      split: if_splits)

text \<open>A client becomes a replica that waits for a snapshot.\<close>

definition waiting_client :: "slave \<Rightarrow> slave" where
  "waiting_client c = setflag CLIENT_SLAVE (c\<lparr>c_replstate := SLAVE_STATE_WAIT_BGSAVE_START\<rparr>)"

definition joined :: "nat \<Rightarrow> repl_srv \<Rightarrow> repl_srv" where
  "joined i s = (set_client i (waiting_client (clients s i)) (s\<lparr>stat_sync_full := stat_sync_full s + 1\<rparr>))\<lparr>slaves := slaves s @ [i]\<rparr>"

lemma sync_full_joined:
  assumes "repl_backlog s \<noteq> None"
  shows "sync_full env junk rnd wrote bgsave i s = sync_snapshot env wrote bgsave i (joined i s)"
  using assms by (auto simp: sync_full_def joined_def waiting_client_def set_client_def Let_def)

lemma joined_simps:
  "clients (joined i s) i = waiting_client (clients s i)" "slaves (joined i s) = slaves s @ [i]"
  "repl_backlog (joined i s) = repl_backlog s" "stat_sync_partial_ok (joined i s) = stat_sync_partial_ok s"
  "rdb_child_type (joined i s) = rdb_child_type s" "aof_child (joined i s) = aof_child s"
  "repl_diskless_sync (joined i s) = repl_diskless_sync s" "master_repl_offset (joined i s) = master_repl_offset s"
  by (simp_all add: joined_def set_client_def)

lemma sync_full_ok:
  assumes env: "tight env" and inv: "srv_inv base S B h sent ps s" and i: "i \<notin> set (slaves s)" and B: "B + 200000 < 2 ^ 63"
    and c: "reply_inv (clients s i)" "filled (clients s i)" "accepting (clients s i)" "flat (clients s i) = []"
      "c_sentlen (clients s i) = 0" "blocks_size (clients s i) = 0" "CLIENT_MONITOR \<notin> c_flags (clients s i)"
  shows "\<exists>s'. sync_full env junk rnd wrote (bgsave_result started) i s = Some s'
    \<and> srv_inv base S B h (sent(i := [])) (ps(i := None)) s' \<and> stat_sync_partial_ok s' = stat_sync_partial_ok s"
proof -
  define c2 where "c2 = waiting_client (clients s i)"
  define s2 where "s2 = joined i s"
  have "out_eq (clients s i) c2" by (simp add: c2_def out_eq_def setflag_def waiting_client_def)
  note o = out_eqD [OF this]
  have "accepting c2" using c(3) by (simp add: c2_def setflag_def accepting_def waiting_client_def)
  then have "slave_ok base h B [] None c2" using o c by (auto simp: slave_ok_def client_ok_def c2_def setflag_def waiting_client_def)
  then have inv2: "srv_inv base S B h (sent(i := [])) (ps(i := None)) s2"
    unfolding s2_def joined_def c2_def [symmetric]
    using srv_inv_add [of base S B h sent ps "s\<lparr>stat_sync_full := stat_sync_full s + 1\<rparr>" i] inv i by simp
  have st: "stat_sync_partial_ok s2 = stat_sync_partial_ok s" by (simp add: s2_def joined_simps)
  have ii: "i \<in> set (slaves s2)" "c_replstate (clients s2 i) = SLAVE_STATE_WAIT_BGSAVE_START"
    by (simp_all add: s2_def joined_simps waiting_client_def setflag_def)
  have "repl_backlog s \<noteq> None" using inv by (auto simp: srv_inv_def stream_inv_def backlog_holds_def)
  then have ev: "sync_full env junk rnd wrote (bgsave_result started) i s = sync_snapshot env wrote (bgsave_result started) i s2"
    unfolding s2_def by (rule sync_full_joined)
  show ?thesis
  proof (cases "rdb_child_type s2")
    case NoChild
    from startBgsave_ok [OF env inv2 B, of wrote started "sl_capa (clients s2 i)"] obtain ok s' where
      s': "startBgsaveForReplication env wrote (bgsave_result started) (sl_capa (clients s2 i)) s2 = Some (ok, s')"
        "srv_inv base S B h (sent(i := [])) (ps(i := None)) s'" by blast
    then show ?thesis unfolding ev sync_snapshot_def using NoChild inv2 st partial_ok_start [OF s'(1)] by simp
  next
    case DiskChild
    show ?thesis
    proof (cases "find (\<lambda>k. c_replstate (clients s2 k) = SLAVE_STATE_WAIT_BGSAVE_END) (slaves s2)")
      case None
      then show ?thesis unfolding ev sync_snapshot_def using DiskChild inv2 st by simp
    next
      case (Some k)
      then have k: "k \<in> set (slaves s2)" "c_replstate (clients s2 k) = SLAVE_STATE_WAIT_BGSAVE_END"
        by (auto simp: find_Some_iff)
      from attach_ok [OF inv2 ii k, of "wrote i"] obtain s' where
        s': "on_client i (\<lambda>c. copyClientOutputBuffer c (clients s2 k)) s2 = Some s'"
          "srv_inv base S B h (sent(i := [])) (ps(i := None))
            (snd (replicationSetupSlaveForFullResync (wrote i) i (sl_psync_initial_offset (clients s2 k)) s'))" by blast
      then show ?thesis unfolding ev sync_snapshot_def using DiskChild Some inv2 st partial_ok_on_client [OF s'(1)] by simp
    qed
  next
    case SocketChild
    then show ?thesis unfolding ev sync_snapshot_def using inv2 st by simp
  qed
qed

lemma sync_ok:
  assumes env: "tight env" and inv: "srv_inv base S B h sent ps s" and i: "i \<notin> set (slaves s)"
    and c: "fresh_client c" "wrote i" and B: "int B + 2 * S + 265568 < 2 ^ 63" "0 \<le> S"
  defines "B' \<equiv> B + nat (2 * S + 265568)"
  shows "\<exists>s'. syncCommand env junk rnd wrote (bgsave_result started) i (set_client i c s) = Some s'
    \<and> srv_inv base S B' h (sent(i := []))
        (ps(i := if stat_sync_partial_ok s' = stat_sync_partial_ok s then None else Some (psync_offset c))) s'"
proof -
  let ?s = "set_client i c s"
  have m: "masterhost ?s = None" using inv by (simp add: srv_inv_def set_client_def)
  have f: "CLIENT_SLAVE \<notin> c_flags c" "\<not> clientHasPendingReplies c" "q_argv c \<noteq> []" using c(1) by (simp_all add: fresh_client_def)
  have full: "\<exists>s'. sync_full env junk rnd wrote (bgsave_result started) i s1 = Some s'
      \<and> srv_inv base S B' h (sent(i := [])) (ps(i := if stat_sync_partial_ok s' = stat_sync_partial_ok s then None else Some (psync_offset c))) s'"
    if s1: "s1 = (set_client i c1 s)\<lparr>stat_sync_partial_err := n\<rparr>" and c1: "out_eq c c1" "c_flags c1 - {CLIENT_PRE_PSYNC} = c_flags c - {CLIENT_PRE_PSYNC}" "c_fd c1 = c_fd c"
    for s1 c1 n
  proof -
    have eq: "clients s1 i = c1" "slaves s1 = slaves s" "stat_sync_partial_ok s1 = stat_sync_partial_ok s" by (simp_all add: s1 set_client_def)
    have "srv_inv base S B' h sent ps (set_client i c1 s)"
    proof -
      have "srv_inv base S B' h sent ps s" using srv_inv_mono [OF inv] by (simp add: B'_def)
      then show ?thesis using i by (auto simp: srv_inv_def) (auto simp: set_client_def)
    qed
    then have inv1: "srv_inv base S B h sent ps s1" using inv i by (auto simp: s1 srv_inv_def) (auto simp: set_client_def)
    have acc: "accepting c1"
    proof -
      have fl: "f \<in> c_flags c1 \<longleftrightarrow> f \<in> c_flags c" if "f \<noteq> CLIENT_PRE_PSYNC" for f using c1(2) that by auto
      show ?thesis using c(1) c1(3) by (simp add: fresh_client_def accepting_def fl)
    qed
    have "CLIENT_MONITOR \<notin> c_flags c1" using c(1) c1(2) by (auto simp: fresh_client_def)
    moreover have "B + 200000 < 2 ^ 63"
    proof -
      have "int (B + 200000) < int (2 ^ 63)" using B by simp
      then show ?thesis by (simp only: of_nat_less_iff)
    qed
    ultimately obtain s' where "sync_full env junk rnd wrote (bgsave_result started) i s1 = Some s'"
        "srv_inv base S B h (sent(i := [])) (ps(i := None)) s'" "stat_sync_partial_ok s' = stat_sync_partial_ok s1"
      using sync_full_ok [OF env inv1, of i junk rnd wrote started] i eq out_eqD [OF c1(1)] fresh_output [OF c(1)] acc c(1)
      by (auto simp: fresh_client_def)
    then show ?thesis using eq srv_inv_mono [of base S B h "sent(i := [])" "ps(i := None)" s' B'] by (auto simp: B'_def)
  qed
  show ?thesis
  proof (cases "is_psync c")
    case False
    have "syncCommand env junk rnd wrote (bgsave_result started) i ?s
        = sync_full env junk rnd wrote (bgsave_result started) i (set_client i (setflag CLIENT_PRE_PSYNC c) ?s)"
      using m f False by (simp add: syncCommand_def is_psync_def)
    moreover have out: "out_eq c (setflag CLIENT_PRE_PSYNC c)" "c_flags (setflag CLIENT_PRE_PSYNC c) - {CLIENT_PRE_PSYNC} = c_flags c - {CLIENT_PRE_PSYNC}"
      "c_fd (setflag CLIENT_PRE_PSYNC c) = c_fd c" by (auto simp: out_eq_def setflag_def)
    moreover have "set_client i (setflag CLIENT_PRE_PSYNC c) s
        = (set_client i (setflag CLIENT_PRE_PSYNC c) s)\<lparr>stat_sync_partial_err := stat_sync_partial_err s\<rparr>" by (simp add: set_client_def)
    ultimately show ?thesis using full [OF _ out, of "(set_client i (setflag CLIENT_PRE_PSYNC c) s)" "stat_sync_partial_err s"]
      by simp
  next
    case True
    have "int B + 2 * S + 65568 < 2 ^ 63" using B by linarith
    note ps = psync_ok [OF env inv i c(1) True this]
    have ev: "syncCommand env junk rnd wrote (bgsave_result started) i ?s = do {
        (ok, s) \<leftarrow> masterTryPartialResynchronization env True i ?s;
        (if ok then Some (s\<lparr>stat_sync_partial_ok := stat_sync_partial_ok s + 1\<rparr>)
         else
           let s = (if hd (sds_of (q_argv (clients s i) ! 1) @ [0]) \<noteq> ch CHR ''?''
                    then s\<lparr>stat_sync_partial_err := stat_sync_partial_err s + 1\<rparr> else s)
           in sync_full env junk rnd wrote (bgsave_result started) i s) }"
      using m f True c(2) by (simp add: syncCommand_def is_psync_def)
    from ps show ?thesis
    proof (elim disjE exE conjE)
      assume "masterTryPartialResynchronization env True i ?s = Some (False, ?s)"
      then have "syncCommand env junk rnd wrote (bgsave_result started) i ?s = sync_full env junk rnd wrote (bgsave_result started) i
          (if hd (sds_of (q_argv c ! 1) @ [0]) \<noteq> ch CHR ''?'' then ?s\<lparr>stat_sync_partial_err := stat_sync_partial_err ?s + 1\<rparr> else ?s)"
        unfolding ev by simp
      also have "(if hd (sds_of (q_argv c ! 1) @ [0]) \<noteq> ch CHR ''?'' then ?s\<lparr>stat_sync_partial_err := stat_sync_partial_err ?s + 1\<rparr> else ?s)
          = ?s\<lparr>stat_sync_partial_err := (if hd (sds_of (q_argv c ! 1) @ [0]) \<noteq> ch CHR ''?'' then stat_sync_partial_err ?s + 1 else stat_sync_partial_err ?s)\<rparr>"
        by simp
      finally show ?thesis by (simp only:) (rule full [OF refl], simp_all add: out_eq_def)
    next
      fix s' assume s': "masterTryPartialResynchronization env True i ?s = Some (True, s')"
        "srv_inv base S (B + nat (2 * S + 65568)) h (sent(i := [])) (ps(i := Some (psync_offset c))) s'"
        "stat_sync_partial_ok s' = stat_sync_partial_ok s"
      have "srv_inv base S B' h (sent(i := [])) (ps(i := Some (psync_offset c))) s'"
        using srv_inv_mono [OF s'(2)] B(2) by (simp add: B'_def)
      then show ?thesis unfolding ev using s'(1,3) by simp
    qed
  qed
qed

section \<open>The other events\<close>

lemma free_slave_ok:
  assumes "srv_inv base S B h sent ps s" "i \<in> set (slaves s)"
  shows "\<exists>s'. free_slave env i s = Some s' \<and> srv_inv base S B h sent ps s'"
proof -
  have "CLIENT_SLAVE \<in> c_flags (clients s i)" "CLIENT_MONITOR \<notin> c_flags (clients s i)"
    using assms by (auto simp: srv_inv_def slave_ok_def client_ok_def)
  then show ?thesis using assms(2) srv_inv_remove [OF assms(1), of i] by (cases "remove1 i (slaves s) = []") (simp_all add: free_slave_def Let_def)
qed

lemma online_ok:
  assumes inv: "srv_inv base S B h sent ps s" and i: "i \<in> set (slaves s)" "c_replstate (clients s i) \<noteq> SLAVE_STATE_WAIT_BGSAVE_START"
  shows "\<exists>s'. putSlaveOnline env True i s = Some s' \<and> srv_inv base S B h sent ps s'"
proof -
  define c where "c = (clients s i)\<lparr>c_replstate := SLAVE_STATE_ONLINE, c_put_online_on_ack := False, q_repl_ack_time := unixtime env, c_write_handler := True\<rparr>"
  have "out_eq (clients s i) c" by (simp add: c_def out_eq_def)
  note o = out_eqD [OF this]
  have ok: "slave_ok base h B (sent i) (ps i) (clients s i)" using inv i(1) by (auto simp: srv_inv_def)
  have "accepting c = accepting (clients s i)" by (simp add: c_def accepting_def)
  moreover have "position_of (ps i) c = position_of (ps i) (clients s i)" by (simp add: position_of_def c_def split: option.split)
  ultimately have "slave_ok base h B (sent i) (ps i) c"
    using ok i(2) o by (auto simp: slave_ok_def client_ok_def in_stream_def c_def)
  from srv_inv_client [OF inv this] show ?thesis by (simp add: putSlaveOnline_def c_def)
qed

lemma flush_ok:
  assumes inv: "srv_inv base S B h sent ps s" and i: "i \<in> set (slaves s)" "c_replstate (clients s i) = SLAVE_STATE_ONLINE"
    and wr: "legal_write wr"
  shows "\<exists>bs r. writeToClient env wr below (clients s i) True = Some (bs, r)
    \<and> (case r of None \<Rightarrow> \<exists>s'. free_slave env i s = Some s' \<and> srv_inv base S B h (sent(i := sent i @ bs)) ps s'
       | Some c \<Rightarrow> srv_inv base S B h (sent(i := sent i @ bs)) ps (set_client i c s))"
proof -
  let ?c = "clients s i"
  have ok: "slave_ok base h B (sent i) (ps i) ?c" using inv i(1) by (auto simp: srv_inv_def)
  then have c: "client_ok B ?c" "in_stream base h (sent i) (ps i) ?c" using i(2) by (auto simp: slave_ok_def)
  from writeToClient_ok [OF wr, of ?c env below True] c(1) obtain bs r rest where
    w: "writeToClient env wr below ?c True = Some (bs, r)" "pend ?c = map Byte bs @ rest"
      "\<forall>c'. r = Some c' \<longrightarrow> reply_inv c' \<and> filled c' \<and> rest = pend c' \<and> same_client ?c c' \<and> blocks_size c' \<le> blocks_size ?c"
    by (auto simp: client_ok_def)
  have other: "srv_inv base S B h (sent(i := x)) ps s'" if "srv_inv base S B h sent ps s'" "i \<notin> set (slaves s')" for x s'
    using that by (auto simp: srv_inv_def)
  show ?thesis
  proof (cases r)
    case None
    from free_slave_ok [OF inv i(1), of env] obtain s' where s': "free_slave env i s = Some s'" "srv_inv base S B h sent ps s'" by auto
    have "CLIENT_SLAVE \<in> c_flags ?c" "CLIENT_MONITOR \<notin> c_flags ?c" using c(1) by (simp_all add: client_ok_def)
    moreover have "distinct (slaves s)" using inv by (simp add: srv_inv_def)
    ultimately have "i \<notin> set (slaves s')" using s'(1) i(1)
      by (auto simp: free_slave_def Let_def refreshGoodSlavesCount_def split: if_splits)
    then show ?thesis using w(1) None s' other by auto
  next
    case (Some c')
    with w(3) have c': "reply_inv c'" "filled c'" "rest = pend c'" "same_client ?c c'" "blocks_size c' \<le> blocks_size ?c" by auto
    have "client_ok B c'" using c(1) c' accepting_same [OF c'(4)] same_client_slave [OF c'(4)] by (auto simp: client_ok_def)
    moreover have "in_stream base h (sent i @ bs) (ps i) c'"
      using c(2) w(2) c'(3) same_client_offset [OF c'(4)] by (auto simp: in_stream_def position_of_def split: option.splits)
    moreover have "c_replstate c' = SLAVE_STATE_ONLINE" using c'(4) i(2) by (simp add: same_client_def)
    ultimately have "slave_ok base h B (sent i @ bs) (ps i) c'" by (simp add: slave_ok_def)
    then have "srv_inv base S B h (sent(i := sent i @ bs)) ps (set_client i c' s)"
      using inv by (auto simp: srv_inv_def) (auto simp: set_client_def)
    then show ?thesis using w(1) Some by auto
  qed
qed

lemma resize_ok:
  assumes inv: "srv_inv base S B h sent ps s" and n: "n \<le> S" "16384 \<le> S" "S < 2 ^ 62"
  shows "srv_inv base S B h sent ps (resizeReplicationBacklog junk n s)"
proof -
  define m where "m = (if n < CONFIG_REPL_BACKLOG_MIN_SIZE then CONFIG_REPL_BACKLOG_MIN_SIZE else n)"
  have m: "0 < m" "m \<le> S" "m < 2 ^ 63" using n by (auto simp: m_def CONFIG_REPL_BACKLOG_MIN_SIZE_def)
  define s1 where "s1 = s\<lparr>repl_backlog_size := m, repl_backlog := Some (map junk [0..<nat m]), repl_backlog_histlen := 0,
    repl_backlog_idx := 0, repl_backlog_off := master_repl_offset s + 1\<rparr>"
  have "ring_holds (map junk [0..<nat m]) 0 0 h" using m by (simp add: ring_holds_def)
  moreover have "nat m < 2 ^ 63" using m by (simp add: nat_less_iff)
  ultimately have "backlog_holds s1 h" using m by (simp add: backlog_holds_def s1_def window_def)
  then have "srv_inv base S B h sent ps s1" using inv m by (auto simp: srv_inv_def stream_inv_def s1_def)
  moreover have "repl_backlog s \<noteq> None" using inv by (auto simp: srv_inv_def stream_inv_def backlog_holds_def)
  then have "resizeReplicationBacklog junk n s = (if repl_backlog_size s = m then s else s1)"
    unfolding resizeReplicationBacklog_def m_def [symmetric] Let_def by (auto simp: s1_def)
  ultimately show ?thesis using inv by simp
qed

section \<open>Runs\<close>

text \<open>
  The server, and for the statement of what replicas receive: the stream propagated so far, the offset of
  the PSYNC request of each replica when it was accepted, and the bytes of the stream sent to each replica. A
  client asks for synchronisation under an address that is not in use by a replica; \<open>Flush\<close> is the write handler of a
  replica that is online; \<open>Online\<close> is the end of the transfer of the snapshot.
\<close>

record repl_run =
  g_srv :: repl_srv
  g_stream :: "byte list"
  g_psync :: "nat \<Rightarrow> int option"
  g_sent :: "nat \<Rightarrow> byte list"

datatype repl_op =
    Propagate int "strobj list"
  | Sync nat slave "nat \<Rightarrow> byte" "byte list" "nat \<Rightarrow> bool" bool
  | StartBgsave "nat \<Rightarrow> bool" "slave_capa set" bool
  | ChildExit
  | Online nat
  | Flush nat "nat \<Rightarrow> nat \<Rightarrow> write_result" "nat \<Rightarrow> bool"
  | Disconnect nat
  | Resize "nat \<Rightarrow> byte" int

fun repl_step :: "reply_env \<Rightarrow> repl_op \<Rightarrow> repl_run \<Rightarrow> repl_run option" where
  "repl_step env (Propagate d argv) g = do {
     s \<leftarrow> replicationFeedSlaves env (slaves (g_srv g)) d argv (g_srv g);
     Some (g\<lparr>g_srv := s, g_stream := g_stream g @ prop_text (g_srv g) d argv\<rparr>) }"
| "repl_step env (Sync i c junk rnd wrote started) g =
     (if i \<in> set (slaves (g_srv g)) then Some g
      else do {
        s \<leftarrow> syncCommand env junk rnd wrote (bgsave_result started) i (set_client i c (g_srv g));
        Some (g\<lparr>g_srv := s, g_sent := (g_sent g)(i := []), g_psync := (g_psync g)(i :=
          if stat_sync_partial_ok s = stat_sync_partial_ok (g_srv g) then None else Some (psync_offset c))\<rparr>) })"
| "repl_step env (StartBgsave wrote mincapa started) g = do {
     (_, s) \<leftarrow> startBgsaveForReplication env wrote (bgsave_result started) mincapa (g_srv g);
     Some (g\<lparr>g_srv := s\<rparr>) }"
| "repl_step env ChildExit g = Some (g\<lparr>g_srv := (g_srv g)\<lparr>rdb_child_type := NoChild\<rparr>\<rparr>)"
| "repl_step env (Online i) g =
     (if i \<in> set (slaves (g_srv g)) \<and> c_replstate (clients (g_srv g) i) \<noteq> SLAVE_STATE_WAIT_BGSAVE_START
      then do { s \<leftarrow> putSlaveOnline env True i (g_srv g); Some (g\<lparr>g_srv := s\<rparr>) }
      else Some g)"
| "repl_step env (Flush i wr below) g =
     (if i \<in> set (slaves (g_srv g)) \<and> c_replstate (clients (g_srv g) i) = SLAVE_STATE_ONLINE
      then do {
        (bs, r) \<leftarrow> writeToClient env wr below (clients (g_srv g) i) True;
        s \<leftarrow> (case r of None \<Rightarrow> free_slave env i (g_srv g) | Some c \<Rightarrow> Some (set_client i c (g_srv g)));
        Some (g\<lparr>g_srv := s, g_sent := (g_sent g)(i := g_sent g i @ bs)\<rparr>) }
      else Some g)"
| "repl_step env (Disconnect i) g =
     (if i \<in> set (slaves (g_srv g)) then do { s \<leftarrow> free_slave env i (g_srv g); Some (g\<lparr>g_srv := s\<rparr>) } else Some g)"
| "repl_step env (Resize junk n) g = Some (g\<lparr>g_srv := resizeReplicationBacklog junk n (g_srv g)\<rparr>)"

fun repl_steps :: "reply_env \<Rightarrow> repl_op list \<Rightarrow> repl_run \<Rightarrow> repl_run option" where
  "repl_steps env [] g = Some g"
| "repl_steps env (op # ops) g = do { g \<leftarrow> repl_step env op g; repl_steps env ops g }"

fun op_ok :: "int \<Rightarrow> repl_op \<Rightarrow> bool" where
  "op_ok S (Propagate d argv) \<longleftrightarrow> argv_ok argv \<and> - (2 ^ 31) \<le> d \<and> d < 2 ^ 31"
| "op_ok S (Sync i c junk rnd wrote started) \<longleftrightarrow> fresh_client c \<and> wrote i"
| "op_ok S (Flush i wr below) \<longleftrightarrow> legal_write wr"
| "op_ok S (Resize junk n) \<longleftrightarrow> n \<le> S"
| "op_ok S _ \<longleftrightarrow> True"

fun op_cost :: "int \<Rightarrow> repl_op \<Rightarrow> nat" where
  "op_cost S (Propagate d argv) = prop_cost argv"
| "op_cost S (Sync i c junk rnd wrote started) = nat (2 * S + 265568)"
| "op_cost S (StartBgsave wrote mincapa started) = 200000"
| "op_cost S _ = 0"

definition run_inv :: "int \<Rightarrow> int \<Rightarrow> nat \<Rightarrow> repl_run \<Rightarrow> bool" where
  "run_inv base S B g \<longleftrightarrow> srv_inv base S B (g_stream g) (g_sent g) (g_psync g) (g_srv g)"

lemma repl_step_ok:
  assumes env: "tight env" and inv: "run_inv base S B g" and op: "op_ok S op" "B + op_cost S op < 2 ^ 63"
    and S: "16384 \<le> S" "S < 2 ^ 62"
  shows "\<exists>g'. repl_step env op g = Some g' \<and> run_inv base S (B + op_cost S op) g'"
proof (cases op)
  case (Propagate d argv)
  then show ?thesis using propagate_ok [OF env inv [unfolded run_inv_def], of argv d] op by (auto simp: run_inv_def)
next
  case (Sync i c junk rnd wrote started)
  show ?thesis
  proof (cases "i \<in> set (slaves (g_srv g))")
    case True
    then show ?thesis using Sync inv srv_inv_mono [of base S B] by (auto simp: run_inv_def)
  next
    case False
    have "int (B + nat (2 * S + 265568)) < int (2 ^ 63)" using op(2) Sync by (simp only: of_nat_less_iff op_cost.simps)
    then have "int B + 2 * S + 265568 < 2 ^ 63" using S by simp
    moreover have "fresh_client c" "wrote i" "0 \<le> S" using op(1) Sync S by auto
    ultimately show ?thesis
      using sync_ok [OF env inv [unfolded run_inv_def] False, of c wrote junk rnd started] Sync False by (auto simp: run_inv_def)
  qed
next
  case (StartBgsave wrote mincapa started)
  then show ?thesis
    using startBgsave_ok [OF env inv [unfolded run_inv_def], of wrote started mincapa] op srv_inv_mono [of base S B]
    by (fastforce simp: run_inv_def)
next
  case ChildExit
  then show ?thesis using inv by (simp add: run_inv_def)
next
  case (Online i)
  then show ?thesis using online_ok [OF inv [unfolded run_inv_def], of i env] inv by (auto simp: run_inv_def)
next
  case (Flush i wr below)
  show ?thesis
  proof (cases "i \<in> set (slaves (g_srv g)) \<and> c_replstate (clients (g_srv g) i) = SLAVE_STATE_ONLINE")
    case True
    with flush_ok [OF inv [unfolded run_inv_def], of i wr env below] op(1) Flush show ?thesis
      by (auto simp: run_inv_def split: option.splits)
  next
    case False
    then have "repl_step env op g = Some g" using Flush by auto
    then show ?thesis using inv Flush by simp
  qed
next
  case (Disconnect i)
  then show ?thesis using free_slave_ok [OF inv [unfolded run_inv_def], of i env] inv by (auto simp: run_inv_def)
next
  case (Resize junk n)
  then show ?thesis using resize_ok [OF inv [unfolded run_inv_def], of n junk] op(1) S by (simp add: run_inv_def)
qed

lemma repl_steps_ok:
  assumes env: "tight env" and S: "16384 \<le> S" "S < 2 ^ 62"
  shows "run_inv base S B g \<Longrightarrow> \<forall>op \<in> set ops. op_ok S op \<Longrightarrow> B + sum_list (map (op_cost S) ops) < 2 ^ 63 \<Longrightarrow>
    \<exists>g'. repl_steps env ops g = Some g' \<and> run_inv base S (B + sum_list (map (op_cost S) ops)) g'"
proof (induction ops arbitrary: B g)
  case Nil
  then show ?case by simp
next
  case (Cons op ops)
  from repl_step_ok [OF env Cons.prems(1) _ _ S, of op] Cons.prems obtain g1 where
    g1: "repl_step env op g = Some g1" "run_inv base S (B + op_cost S op) g1" by auto
  from Cons.IH [OF g1(2)] Cons.prems obtain g2 where
    "repl_steps env ops g1 = Some g2" "run_inv base S (B + op_cost S op + sum_list (map (op_cost S) ops)) g2" by (auto simp: add.assoc)
  then show ?case using g1(1) by (auto simp: add.assoc)
qed

end
