(* ===== verification/Replication_Props.thy ===== *)
theory Replication_Props
  imports Replication_Run
begin

text \<open>
  The theorems on replication: what replicas receive, how the stream reads as commands, a malformed PSYNC, WAIT and the
  script cache.
\<close>

section \<open>Replicas follow the stream\<close>

definition new_run :: "repl_srv \<Rightarrow> repl_run" where
  "new_run s = \<lparr>g_srv = s, g_stream = [], g_psync = (\<lambda>_. None), g_sent = (\<lambda>_. [])\<rparr>"

definition new_master :: "int \<Rightarrow> repl_srv \<Rightarrow> bool" where
  "new_master S s \<longleftrightarrow> repl_backlog s = None \<and> slaves s = [] \<and> masterhost s = None \<and> \<not> repl_diskless_sync s
     \<and> 0 < repl_backlog_size s \<and> repl_backlog_size s \<le> S \<and> 16384 \<le> S \<and> S < 2 ^ 62"

lemma new_master_inv:
  assumes "new_master S s0"
  shows "\<exists>s. createReplicationBacklog junk s0 = Some s \<and> run_inv (master_repl_offset s0) S 0 (new_run s) \<and> slaveseldb s = slaveseldb s0"
proof -
  define s where "s = s0\<lparr>repl_backlog := Some (map junk [0..<nat (repl_backlog_size s0)]), repl_backlog_histlen := 0,
    repl_backlog_idx := 0, repl_backlog_off := master_repl_offset s0 + 1\<rparr>"
  have "ring_holds (map junk [0..<nat (repl_backlog_size s0)]) 0 0 []" using assms by (simp add: ring_holds_def new_master_def)
  moreover have "nat (repl_backlog_size s0) < 2 ^ 63" using assms by (simp add: nat_less_iff new_master_def)
  ultimately have "backlog_holds s []" using assms by (simp add: backlog_holds_def s_def window_def new_master_def)
  then have "run_inv (master_repl_offset s0) S 0 (new_run s)"
    using assms by (simp add: run_inv_def srv_inv_def stream_inv_def new_run_def s_def new_master_def)
  moreover have "createReplicationBacklog junk s0 = Some s" using assms by (simp add: createReplicationBacklog_def s_def new_master_def)
  ultimately show ?thesis by (simp add: s_def)
qed

text \<open>C2: replicas follow the replication stream. Start a master with a new backlog and let commands be propagated,
  clients ask for full or partial resynchronisation (attaching to a snapshot in progress included),
  snapshots start, fail and end, replicas go online, be written to in pieces of any size or disconnect, and the
  backlog be resized, in any order. No step accesses memory outside a buffer or fails an assertion; and every replica
  that does not wait for a snapshot was sent, or has queued, exactly the bytes of the stream behind the position it was promised:
  the offset of its snapshot, or the offset it asked for in an accepted PSYNC.\<close>

theorem replicas_follow_stream:
  assumes "tight env" "new_master S s0" "\<forall>op \<in> set ops. op_ok S op" "sum_list (map (op_cost S) ops) < 2 ^ 63"
  shows "\<exists>s g. createReplicationBacklog junk s0 = Some s \<and> repl_steps env ops (new_run s) = Some g
    \<and> master_repl_offset (g_srv g) = master_repl_offset s0 + int (length (g_stream g))
    \<and> (\<forall>i \<in> set (slaves (g_srv g)). c_replstate (clients (g_srv g) i) \<noteq> SLAVE_STATE_WAIT_BGSAVE_START \<longrightarrow>
        (let p = position_of (g_psync g i) (clients (g_srv g) i) in
          master_repl_offset s0 \<le> p \<and> p \<le> master_repl_offset (g_srv g)
          \<and> map Byte (g_sent g i) @ pend (clients (g_srv g) i)
            = map Byte (drop (nat (p - master_repl_offset s0)) (g_stream g))))"
proof -
  obtain s where s: "createReplicationBacklog junk s0 = Some s" "run_inv (master_repl_offset s0) S 0 (new_run s)"
    using new_master_inv [OF assms(2)] by blast
  have S: "16384 \<le> S" "S < 2 ^ 62" using assms(2) by (simp_all add: new_master_def)
  from repl_steps_ok [OF assms(1) S s(2) assms(3)] assms(4) obtain g B where
    g: "repl_steps env ops (new_run s) = Some g" "run_inv (master_repl_offset s0) S B g" by auto
  have "let p = position_of (g_psync g i) (clients (g_srv g) i) in
      master_repl_offset s0 \<le> p \<and> p \<le> master_repl_offset (g_srv g)
      \<and> map Byte (g_sent g i) @ pend (clients (g_srv g) i) = map Byte (drop (nat (p - master_repl_offset s0)) (g_stream g))"
    if "i \<in> set (slaves (g_srv g))" "c_replstate (clients (g_srv g) i) \<noteq> SLAVE_STATE_WAIT_BGSAVE_START" for i
  proof -
    have "in_stream (master_repl_offset s0) (g_stream g) (g_sent g i) (g_psync g i) (clients (g_srv g) i)"
      using g(2) that by (auto simp: run_inv_def srv_inv_def slave_ok_def)
    then show ?thesis using g(2) by (auto simp: in_stream_def run_inv_def srv_inv_def stream_inv_def Let_def)
  qed
  moreover have "master_repl_offset (g_srv g) = master_repl_offset s0 + int (length (g_stream g))"
    using g(2) by (simp add: run_inv_def srv_inv_def stream_inv_def)
  ultimately show ?thesis using s(1) g(1) by blast
qed

text \<open>A client that asks for synchronisation, for the examples.\<close>

definition asking_client :: "byte list list \<Rightarrow> slave" where
  "asking_client argv = (the (createReplClient (\<lambda>_. 0) (createClient (replicate 16384 0) 1 9)))\<lparr>q_argv := map createStringObject argv\<rparr>"

lemma asking_client_fresh:
  assumes "argv \<noteq> []" "strcasecmp_eq (hd argv) (bytes_of ''psync'') \<longrightarrow> length argv = 3 \<and> string2ll (argv ! 2) \<noteq> None"
  shows "fresh_client (asking_client argv)"
proof -
  obtain e where "sdsempty (\<lambda>_. 0) = Some e" using sdsnewlen_ok [of 0 "InitFrom [0]" "\<lambda>_. 0"] by (auto simp: sdsempty_def)
  then obtain r where r: "createReplClient (\<lambda>_. 0) (createClient (replicate 16384 0) 1 9) = Some r" "c_buf r = replicate 16384 0"
      "c_bufpos r = 0" "c_reply r = []" "c_reply_bytes r = 0" "c_sentlen r = 0" "c_flags r = {}" "c_fd r = 9"
    by (auto simp: createReplClient_def createClientInput_def createClient_def client.defs rclient.defs)
  have c: "asking_client argv = r\<lparr>q_argv := map createStringObject argv\<rparr>" using r(1) by (simp add: asking_client_def)
  have s: "sds_of (createStringObject x) = x" for x
    by (simp add: sds_of_def createStringObject_def createEmbeddedStringObject_def createRawStringObject_def)
  have "is_psync (asking_client argv) = strcasecmp_eq (hd argv) (bytes_of ''psync'')"
  proof -
    have "q_argv (asking_client argv) ! 0 = createStringObject (hd argv)" unfolding c using assms(1) by (cases argv) simp_all
    then show ?thesis unfolding is_psync_def s by (simp only: s)
  qed
  then show ?thesis using assms r unfolding fresh_client_def c
    by (auto simp: reply_inv_def filled_def accepting_def clientHasPendingReplies_def blocks_size_def sent_ok_def PROTO_REPLY_CHUNK_BYTES_def)
qed

theorem replicas_follow_stream_witness:
  "\<exists>s g. createReplicationBacklog (\<lambda>_. 0) (initServer_repl (\<lambda>_. asking_client [[0]]) (replicate 40 97) 0) = Some s
    \<and> repl_steps \<lparr>slack = \<lambda>_. 0, obuf_limits = \<lambda>_. \<lparr>hard_limit_bytes = 0, soft_limit_bytes = 0, soft_limit_seconds = 0\<rparr>, unixtime = 5\<rparr>
        [Sync 3 (asking_client [bytes_of ''SYNC'']) (\<lambda>_. 0) [] (\<lambda>_. True) True, Propagate 0 [createStringObject (bytes_of ''PING'')],
         Sync 4 (asking_client [bytes_of ''psync'', replicate 40 97, bytes_of ''1'']) (\<lambda>_. 0) [] (\<lambda>_. True) True, Online 3,
         Flush 3 (\<lambda>k n. Wrote (min n 3)) (\<lambda>_. False), Propagate 1 [createStringObject (bytes_of ''PING'')]] (new_run s) = Some g
    \<and> master_repl_offset (g_srv g) = master_repl_offset (initServer_repl (\<lambda>_. asking_client [[0]]) (replicate 40 97) 0) + int (length (g_stream g))
    \<and> (\<forall>i \<in> set (slaves (g_srv g)). c_replstate (clients (g_srv g) i) \<noteq> SLAVE_STATE_WAIT_BGSAVE_START \<longrightarrow>
        (let p = position_of (g_psync g i) (clients (g_srv g) i) in
          master_repl_offset (initServer_repl (\<lambda>_. asking_client [[0]]) (replicate 40 97) 0) \<le> p \<and> p \<le> master_repl_offset (g_srv g)
          \<and> map Byte (g_sent g i) @ pend (clients (g_srv g) i)
            = map Byte (drop (nat (p - master_repl_offset (initServer_repl (\<lambda>_. asking_client [[0]]) (replicate 40 97) 0))) (g_stream g))))"
proof (rule replicas_follow_stream [where S = "1024 * 1024"])
  have one: "string2ll (bytes_of ''1'') = Some 1" using string2ll_dec [of 1] by (simp add: dec_small)
  have f: "fresh_client (asking_client [bytes_of ''SYNC''])" "fresh_client (asking_client [bytes_of ''psync'', replicate 40 97, bytes_of ''1''])"
    by (rule asking_client_fresh; use one in \<open>simp add: cstring_def siptlw_def\<close>)+
  then show "\<forall>op \<in> set [Sync 3 (asking_client [bytes_of ''SYNC'']) (\<lambda>_. 0) [] (\<lambda>_. True) True, Propagate 0 [createStringObject (bytes_of ''PING'')],
         Sync 4 (asking_client [bytes_of ''psync'', replicate 40 97, bytes_of ''1'']) (\<lambda>_. 0) [] (\<lambda>_. True) True, Online 3,
         Flush 3 (\<lambda>k n. Wrote (min n 3)) (\<lambda>_. False), Propagate 1 [createStringObject (bytes_of ''PING'')]]. op_ok (1024 * 1024) op"
    by (auto simp: argv_ok_def legal_write_def)
qed (simp_all add: tight_def new_master_def initServer_repl_def prop_cost_def cmd_cost_def bulks_cost_def)

section \<open>The stream as commands\<close>







lemma seldb_simps [simp]:
  "slaveseldb (set_client i c s) = slaveseldb s" "slaveseldb (refreshGoodSlavesCount env s) = slaveseldb s"
  "slaveseldb (snd (replicationSetupSlaveForFullResync wrote i off s)) = - 1"
  by (simp_all add: set_client_def refreshGoodSlavesCount_def replicationSetupSlaveForFullResync_def Let_def)
















end
