(* ===== verification/Replication_Wait.thy ===== *)
theory Replication_Wait
  imports Replication_Props
begin

text \<open>
  Edge cases and the rest of the master: a PSYNC whose offset is not a number, and the WAIT command.
\<close>

section \<open>A malformed PSYNC\<close>





definition plain_env :: reply_env where
  "plain_env = \<lparr>slack = \<lambda>_. 0, obuf_limits = \<lambda>_. \<lparr>hard_limit_bytes = 0, soft_limit_bytes = 0, soft_limit_seconds = 0\<rparr>, unixtime = 5\<rparr>"

lemma plain_env_tight: "tight plain_env"
  by (simp add: plain_env_def tight_def)

lemma asking_client_output:
  "reply_inv (asking_client argv)" "accepting (asking_client argv)" "\<not> clientHasPendingReplies (asking_client argv)"
  "blocks_size (asking_client argv) = 0" "c_flags (asking_client argv) = {}" "q_argv (asking_client argv) = map createStringObject argv"
proof -
  obtain e where "sdsempty (\<lambda>_. 0) = Some e" using sdsnewlen_ok [of 0 "InitFrom [0]" "\<lambda>_. 0"] by (auto simp: sdsempty_def)
  then obtain r where r: "createReplClient (\<lambda>_. 0) (createClient (replicate 16384 0) 1 9) = Some r" "c_flags r = {}"
    by (auto simp: createReplClient_def createClientInput_def createClient_def client.defs rclient.defs)
  then have c: "asking_client argv = (asking_client [[0]])\<lparr>q_argv := map createStringObject argv\<rparr>" for argv by (simp add: asking_client_def)
  have f: "fresh_client (asking_client [[0]])" by (rule asking_client_fresh) (simp_all add: cstring_def siptlw_def)
  have "out_eq (asking_client [[0]]) (asking_client argv)" by (subst c) (simp add: out_eq_def)
  note o = out_eqD [OF this]
  have fl: "c_flags (asking_client argv) = {}" for argv using r by (simp add: asking_client_def)
  have fd: "c_fd (asking_client argv) = c_fd (asking_client [[0]])" "c_bufpos (asking_client argv) = c_bufpos (asking_client [[0]])"
    "c_reply (asking_client argv) = c_reply (asking_client [[0]])" by (subst c, simp)+
  show "reply_inv (asking_client argv)" "blocks_size (asking_client argv) = 0" using o f fresh_output [OF f] by (simp_all add: fresh_client_def)
  show "accepting (asking_client argv)" "\<not> clientHasPendingReplies (asking_client argv)"
    using f fl fd unfolding fresh_client_def accepting_def clientHasPendingReplies_def by simp_all
  show "c_flags (asking_client argv) = {}" by (rule fl)
  show "q_argv (asking_client argv) = map createStringObject argv" by (subst c) simp
qed


section \<open>WAIT\<close>

text \<open>The condition WAIT waits for: enough replicas acknowledged the offset of the client's last write.\<close>

definition acked :: "repl_srv \<Rightarrow> nat \<Rightarrow> nat" where
  "acked s i = replicationCountAcksByOffset (b_reploffset (clients s i)) s"

definition satisfied :: "repl_srv \<Rightarrow> nat \<Rightarrow> bool" where
  "satisfied s i \<longleftrightarrow> b_numreplicas (clients s i) \<le> int (acked s i)"

definition int_reply :: "int \<Rightarrow> byte list" where
  "int_reply k = ch CHR '':'' # dec_int k @ crlf"

text \<open>A client that waits, and what it gets when it is released.\<close>

definition waiter :: "slave \<Rightarrow> bool" where
  "waiter c \<longleftrightarrow> b_wait c \<and> CLIENT_BLOCKED \<in> c_flags c \<and> reply_inv c \<and> accepting c \<and> blocks_size c + 200000 < 2 ^ 63"

definition released :: "nat \<Rightarrow> slave \<Rightarrow> slave \<Rightarrow> bool" where
  "released k c c' \<longleftrightarrow> flat c' = flat c @ map Byte (int_reply (int k)) \<and> CLIENT_BLOCKED \<notin> c_flags c' \<and> CLIENT_UNBLOCKED \<in> c_flags c'
     \<and> \<not> b_wait c' \<and> c_replstate c' = c_replstate c \<and> sl_ack_off c' = sl_ack_off c"

definition unblocked_queue :: "repl_srv \<Rightarrow> bool" where
  "unblocked_queue s \<longleftrightarrow> (\<forall>i. CLIENT_UNBLOCKED \<in> c_flags (clients s i) \<longrightarrow> i \<in> set (unblocked_clients s))"

definition served :: "nat \<Rightarrow> nat \<Rightarrow> repl_srv \<Rightarrow> repl_srv \<Rightarrow> bool" where
  "served i k s s' \<longleftrightarrow> clients_waiting_acks s' = remove1 i (clients_waiting_acks s) \<and> slaves s' = slaves s
     \<and> (\<forall>j. j \<noteq> i \<longrightarrow> clients s' j = clients s j) \<and> released k (clients s i) (clients s' i)
     \<and> blocked_clients s' = blocked_clients s - 1 \<and> unblocked_queue s'"

lemma same_client_more:
  "same_client c c' \<Longrightarrow> sl_ack_off c' = sl_ack_off (c :: slave) \<and> b_wait c' = b_wait c"
  by (cases c; cases c') (simp add: same_client_def)

lemma int_reply_cost: "k < 2 ^ 31 \<Longrightarrow> ecost (int_reply (int k)) \<le> 200000"
proof -
  assume "k < 2 ^ 31"
  then have "length (dec k) \<le> 10" using length_dec_le [of k 9] by simp
  then show ?thesis by (simp add: ecost_def int_reply_def dec_int_def)
qed

lemma release_ok:
  assumes env: "tight env" and w: "waiter (clients s i)" and i: "i \<in> set (clients_waiting_acks s)" and q: "unblocked_queue s" and k: "k < 2 ^ 31"
  shows "\<exists>s'. do { s \<leftarrow> unblockClient_wait i s; on_client i (\<lambda>c. addReplyLongLong env c (int k)) s } = Some s' \<and> served i k s s'"
proof -
  let ?c = "clients s i"
  define c0 where "c0 = (clrflag CLIENT_BLOCKED ?c)\<lparr>b_wait := False\<rparr>"
  define c1 where "c1 = (if CLIENT_UNBLOCKED \<in> c_flags ?c then c0 else setflag CLIENT_UNBLOCKED c0)"
  define s1 where "s1 = (set_client i c1 s)\<lparr>clients_waiting_acks := remove1 i (clients_waiting_acks s), blocked_clients := blocked_clients s - 1,
      blocked_wait := blocked_wait s - 1,
      unblocked_clients := (if CLIENT_UNBLOCKED \<in> c_flags ?c then unblocked_clients s else unblocked_clients s @ [i])\<rparr>"
  have u: "unblockClient_wait i s = Some s1"
    using w i by (auto simp: unblockClient_wait_def waiter_def unblockClientWaitingReplicas_def queueClientForReprocessing_def s1_def c1_def
        c0_def set_client_def setflag_def clrflag_def)
  have "out_eq ?c c1" by (simp add: c1_def c0_def out_eq_def setflag_def clrflag_def)
  note o = out_eqD [OF this]
  have c1: "reply_inv c1" "accepting c1" "blocks_size c1 = blocks_size ?c" "flat c1 = flat ?c" "c_replstate c1 = c_replstate ?c"
    "sl_ack_off c1 = sl_ack_off ?c" "\<not> b_wait c1" "CLIENT_BLOCKED \<notin> c_flags c1" "CLIENT_UNBLOCKED \<in> c_flags c1"
    using w o by (simp_all add: c1_def c0_def waiter_def setflag_def clrflag_def accepting_def)
  have "appends (\<lambda>c :: slave. addReplyLongLong env c (int k)) (int_reply (int k)) 200000"
    unfolding int_reply_def
    by (rule appends_mono [OF integer_appends [OF env]]) (use k int_reply_cost [OF k] in \<open>simp_all add: int_reply_def LLONG_MIN_def LLONG_MAX_def\<close>)
  from appendsD [OF this c1(1,2)] c1(3) w obtain c2
    where c2: "addReplyLongLong env c1 (int k) = Some c2" "grows c1 (map Byte (int_reply (int k))) 200000 c2" by (auto simp: waiter_def)
  have sc: "same_client c1 c2" using c2(2) by (simp add: grows_def)
  have rel: "released k ?c c2"
    using c2(2) c1 sc same_client_more [OF sc] same_client_flags [OF sc] by (simp add: released_def grows_def same_client_def)
  define s' where "s' = set_client i c2 s1"
  have "unblocked_queue s'"
    using q by (auto simp: unblocked_queue_def s'_def s1_def set_client_def)
  then have "served i k s s'" using rel by (simp add: served_def s'_def s1_def set_client_def)
  moreover have "on_client i (\<lambda>c. addReplyLongLong env c (int k)) s1 = Some s'"
    using c2(1) by (simp add: on_client_def s'_def s1_def set_client_def)
  ultimately show ?thesis using u by simp
qed

lemma count_antimono: "x \<le> y \<Longrightarrow> replicationCountAcksByOffset y s \<le> replicationCountAcksByOffset x s"
proof -
  assume "x \<le> y"
  then have "length (filter (\<lambda>i. c_replstate (clients s i) = SLAVE_STATE_ONLINE \<and> y \<le> sl_ack_off (clients s i)) is)
      \<le> length (filter (\<lambda>i. c_replstate (clients s i) = SLAVE_STATE_ONLINE \<and> x \<le> sl_ack_off (clients s i)) is)" for "is"
    by (induction "is") auto
  then show ?thesis by (simp add: replicationCountAcksByOffset_def)
qed

lemma count_le_slaves: "replicationCountAcksByOffset x s \<le> length (slaves s)"
  by (simp add: replicationCountAcksByOffset_def)

lemma served_count:
  assumes "served i k s s'"
  shows "replicationCountAcksByOffset x s' = replicationCountAcksByOffset x s"
proof -
  have "c_replstate (clients s' j) = c_replstate (clients s j) \<and> sl_ack_off (clients s' j) = sl_ack_off (clients s j)" for j
    using assms by (cases "j = i") (auto simp: served_def released_def)
  moreover have "slaves s' = slaves s" using assms by (simp add: served_def)
  ultimately show ?thesis by (simp add: replicationCountAcksByOffset_def)
qed

definition round_ok :: "nat list \<Rightarrow> repl_srv \<Rightarrow> repl_srv \<Rightarrow> bool" where
  "round_ok is s s' \<longleftrightarrow> clients_waiting_acks s' = filter (\<lambda>i. \<not> (i \<in> set is \<and> satisfied s i)) (clients_waiting_acks s)
     \<and> slaves s' = slaves s \<and> unblocked_queue s' \<and> blocked_clients s' = blocked_clients s - int (length (filter (satisfied s) is))
     \<and> (\<forall>i. if i \<in> set is \<and> satisfied s i
            then \<exists>k. b_numreplicas (clients s i) \<le> int k \<and> k \<le> acked s i \<and> released k (clients s i) (clients s' i)
            else clients s' i = clients s i)"

lemma served_satisfied:
  assumes "served i k s s'" "j \<noteq> i"
  shows "satisfied s' j = satisfied s j" "acked s' j = acked s j" "clients s' j = clients s j"
  using assms served_count [OF assms(1)] by (simp_all add: satisfied_def acked_def served_def)

lemma round_served:
  assumes s1: "served i k s s1" and r: "round_ok is s1 s'" and i: "i \<notin> set is" "distinct (clients_waiting_acks s)"
    and k: "b_numreplicas (clients s i) \<le> int k" "k \<le> acked s i"
  shows "round_ok (i # is) s s'"
proof -
  have sat: "satisfied s i" using k by (simp add: satisfied_def)
  note o = served_satisfied [OF s1]
  have "clients_waiting_acks s1 = filter (\<lambda>j. i \<noteq> j) (clients_waiting_acks s)"
    using s1 i(2) by (simp add: served_def distinct_remove1_removeAll removeAll_filter_not_eq)
  then have "clients_waiting_acks s' = filter (\<lambda>j. \<not> (j \<in> set (i # is) \<and> satisfied s j)) (clients_waiting_acks s)"
  proof -
    have "(i \<noteq> j \<and> \<not> (j \<in> set is \<and> satisfied s1 j)) = (\<not> (j \<in> set (i # is) \<and> satisfied s j))" for j
      using sat o(1) [of j] by auto
    moreover assume "clients_waiting_acks s1 = filter (\<lambda>j. i \<noteq> j) (clients_waiting_acks s)"
    ultimately show ?thesis using r by (simp add: round_ok_def)
  qed
  moreover have "filter (satisfied s) (i # is) = i # filter (satisfied s1) is"
  proof -
    have "filter (satisfied s) is = filter (satisfied s1) is"
    proof (rule filter_cong)
      fix j assume "j \<in> set is"
      with i(1) have "j \<noteq> i" by auto
      then show "satisfied s j = satisfied s1 j" using o(1) by simp
    qed simp
    then show ?thesis using sat by simp
  qed
  moreover have "if j \<in> set (i # is) \<and> satisfied s j
      then \<exists>k. b_numreplicas (clients s j) \<le> int k \<and> k \<le> acked s j \<and> released k (clients s j) (clients s' j)
      else clients s' j = clients s j" for j
  proof (cases "j = i")
    case True
    have "clients s' i = clients s1 i" using r i(1) by (simp add: round_ok_def)
    then show ?thesis using True sat k s1 by (auto simp: served_def)
  next
    case False
    have "if j \<in> set is \<and> satisfied s1 j
      then \<exists>k. b_numreplicas (clients s1 j) \<le> int k \<and> k \<le> acked s1 j \<and> released k (clients s1 j) (clients s' j)
      else clients s' j = clients s1 j" using r unfolding round_ok_def by blast
    then show ?thesis using False unfolding o [OF False] by simp
  qed
  ultimately show ?thesis using s1 r by (simp add: round_ok_def served_def)
qed

lemma waiting_loop_ok:
  assumes "tight env" "distinct is" "set is \<subseteq> set (clients_waiting_acks s)" "distinct (clients_waiting_acks s)"
    "\<forall>i \<in> set is. waiter (clients s i)" "unblocked_queue s" "length (slaves s) < 2 ^ 31"
    "l \<le> replicationCountAcksByOffset off s"
  shows "\<exists>s'. waiting_loop env is off (int l) s = Some s' \<and> round_ok is s s'"
  using assms
proof (induction "is" arbitrary: off l s)
  case Nil
  then show ?case by (simp add: round_ok_def)
next
  case (Cons i "is")
  let ?c = "clients s i"
  have step: "\<exists>s'. do { s \<leftarrow> unblockClient_wait i s; s \<leftarrow> on_client i (\<lambda>c. addReplyLongLong env c (int k)) s;
      waiting_loop env is off' (int l') s } = Some s' \<and> round_ok (i # is) s s'"
    if k: "b_numreplicas ?c \<le> int k" "k \<le> acked s i" and l': "l' \<le> replicationCountAcksByOffset off' s" for k l' off'
  proof -
    have "k < 2 ^ 31" using k(2) count_le_slaves [of "b_reploffset ?c" s] Cons.prems(7) by (simp add: acked_def)
    with release_ok [OF Cons.prems(1), of s i k] Cons.prems obtain s1
      where s1: "do { s \<leftarrow> unblockClient_wait i s; on_client i (\<lambda>c. addReplyLongLong env c (int k)) s } = Some s1" "served i k s s1" by auto
    have "\<forall>j \<in> set is. waiter (clients s1 j)"
    proof
      fix j assume "j \<in> set is"
      moreover with Cons.prems(2) have "clients s1 j = clients s j" using s1(2) by (auto simp: served_def)
      ultimately show "waiter (clients s1 j)" using Cons.prems(5) by simp
    qed
    moreover have "distinct (clients_waiting_acks s1)" "set is \<subseteq> set (clients_waiting_acks s1)" "unblocked_queue s1" "length (slaves s1) < 2 ^ 31" "l' \<le> replicationCountAcksByOffset off' s1"
      using s1(2) Cons.prems l' served_count [OF s1(2)] by (auto simp: served_def)
    ultimately obtain s' where s': "waiting_loop env is off' (int l') s1 = Some s'" "round_ok is s1 s'"
      using Cons.IH [of s1 l' off'] Cons.prems(1,2) by auto
    have "round_ok (i # is) s s'"
      using round_served [OF s1(2) s'(2) _ _ k] Cons.prems by auto
    moreover have "do { s \<leftarrow> unblockClient_wait i s; s \<leftarrow> on_client i (\<lambda>c. addReplyLongLong env c (int k)) s;
      waiting_loop env is off' (int l') s } = Some s'"
      using s1(1) s'(1) by (cases "unblockClient_wait i s") auto
    ultimately show ?thesis by blast
  qed
  let ?k = "replicationCountAcksByOffset (b_reploffset ?c) s"
  show ?case
  proof (cases "off \<noteq> 0 \<and> off > b_reploffset ?c \<and> int l > b_numreplicas ?c")
    case True
    have "l \<le> acked s i" using Cons.prems(8) count_antimono [of "b_reploffset ?c" off s] True by (simp add: acked_def)
    with step [of l l off] True Cons.prems(8) show ?thesis by (simp add: Let_def)
  next
    case False
    show ?thesis
    proof (cases "b_numreplicas ?c \<le> int ?k")
      case True
      with step [of ?k ?k "b_reploffset ?c"] show ?thesis using False by (auto simp: acked_def Let_def)
    next
      case no: False
      then have "\<not> satisfied s i" by (simp add: satisfied_def acked_def)
      moreover obtain s' where "waiting_loop env is off (int l) s = Some s'" "round_ok is s s'"
        using Cons.IH [of s l off] Cons.prems by auto
      ultimately have "waiting_loop env (i # is) off (int l) s = Some s'" "round_ok (i # is) s s'"
        using False no by (auto simp: Let_def round_ok_def intro!: filter_cong)
      then show ?thesis by blast
    qed
  qed
qed

text \<open>C8: one pass over the clients blocked in WAIT releases exactly the ones whose condition holds: a client is answered and queued for
  reprocessing if and only if at least as many online replicas as it asked for acknowledged its last write, the number
  in the answer is at least what it asked for and at most the number of replicas that acknowledged (the answer of an earlier
  client may be reused), and the other clients keep waiting untouched.\<close>

theorem waiting_clients_served:
  assumes "tight env" "distinct (clients_waiting_acks s)" "\<forall>i \<in> set (clients_waiting_acks s). waiter (clients s i)" "unblocked_queue s"
    "length (slaves s) < 2 ^ 31"
  shows "\<exists>s'. processClientsWaitingReplicas env s = Some s'
    \<and> clients_waiting_acks s' = filter (\<lambda>i. \<not> satisfied s i) (clients_waiting_acks s)
    \<and> blocked_clients s' = blocked_clients s - int (length (filter (satisfied s) (clients_waiting_acks s)))
    \<and> (\<forall>i \<in> set (clients_waiting_acks s). if satisfied s i
        then i \<in> set (unblocked_clients s')
          \<and> (\<exists>k. b_numreplicas (clients s i) \<le> int k \<and> k \<le> acked s i \<and> released k (clients s i) (clients s' i))
        else clients s' i = clients s i)"
proof -
  let ?w = "clients_waiting_acks s"
  from waiting_loop_ok [of env ?w s 0 0] assms obtain s' where s': "processClientsWaitingReplicas env s = Some s'" "round_ok ?w s s'"
    by (auto simp: processClientsWaitingReplicas_def)
  have "if satisfied s i then i \<in> set (unblocked_clients s')
          \<and> (\<exists>k. b_numreplicas (clients s i) \<le> int k \<and> k \<le> acked s i \<and> released k (clients s i) (clients s' i))
        else clients s' i = clients s i" if i: "i \<in> set ?w" for i
  proof -
    have r: "if i \<in> set ?w \<and> satisfied s i
            then \<exists>k. b_numreplicas (clients s i) \<le> int k \<and> k \<le> acked s i \<and> released k (clients s i) (clients s' i)
            else clients s' i = clients s i" using s'(2) unfolding round_ok_def by blast
    show ?thesis
    proof (cases "satisfied s i")
      case True
      with r i obtain k where k: "b_numreplicas (clients s i) \<le> int k" "k \<le> acked s i" "released k (clients s i) (clients s' i)" by auto
      moreover have "unblocked_queue s'" using s'(2) by (simp add: round_ok_def)
      ultimately have "i \<in> set (unblocked_clients s')" by (simp add: unblocked_queue_def released_def)
      with k True show ?thesis by auto
    qed (use r in simp)
  qed
  moreover have "clients_waiting_acks s' = filter (\<lambda>i. \<not> satisfied s i) ?w"
    using s'(2) by (auto simp: round_ok_def intro!: filter_cong)
  ultimately show ?thesis using s' by (auto simp: round_ok_def)
qed

definition waiting_master :: repl_srv where
  "waiting_master = (initServer_repl (\<lambda>i. if i = 7 then (asking_client [[0]])\<lparr>c_replstate := SLAVE_STATE_ONLINE, sl_ack_off := 100\<rparr>
      else (setflag CLIENT_BLOCKED (asking_client [[0]]))\<lparr>b_wait := True, b_reploffset := 50, b_numreplicas := (if i = 3 then 1 else 2)\<rparr>)
      (replicate 40 97) 0)\<lparr>slaves := [7], clients_waiting_acks := [2, 3], blocked_clients := 2\<rparr>"

theorem waiting_clients_served_witness:
  "\<exists>s'. processClientsWaitingReplicas plain_env waiting_master = Some s' \<and> clients_waiting_acks s' = [2] \<and> blocked_clients s' = 1
    \<and> 3 \<in> set (unblocked_clients s') \<and> released 1 (clients waiting_master 3) (clients s' 3)
    \<and> clients s' 2 = clients waiting_master 2"
proof -
  have "out_eq (asking_client [[0]]) (clients waiting_master i)" for i
    by (simp add: waiting_master_def initServer_repl_def out_eq_def setflag_def)
  note o = out_eqD [OF this]
  have w: "\<forall>i \<in> set (clients_waiting_acks waiting_master). waiter (clients waiting_master i)"
    using asking_client_output(1,2,4) [of "[[0]]"] asking_client_output(5) [of "[[0]]"] o
    by (simp add: waiter_def accepting_def setflag_def waiting_master_def initServer_repl_def)
  have q: "unblocked_queue waiting_master"
    using asking_client_output(5) [of "[[0]]"] by (simp add: unblocked_queue_def waiting_master_def initServer_repl_def setflag_def)
  have a: "acked waiting_master 3 = 1" "acked waiting_master 2 = 1" "b_numreplicas (clients waiting_master 3) = 1"
      "b_numreplicas (clients waiting_master 2) = 2" "clients_waiting_acks waiting_master = [2, 3]" "blocked_clients waiting_master = 2"
      "length (slaves waiting_master) < 2 ^ 31"
    by (simp_all add: acked_def replicationCountAcksByOffset_def waiting_master_def initServer_repl_def setflag_def)
  then have sat: "satisfied waiting_master 3" "\<not> satisfied waiting_master 2" by (simp_all add: satisfied_def)
  have "distinct (clients_waiting_acks waiting_master)" unfolding a by simp
  from waiting_clients_served [OF plain_env_tight this w q a(7)] obtain s' where s':
      "processClientsWaitingReplicas plain_env waiting_master = Some s'" "clients_waiting_acks s' = [2]" "blocked_clients s' = 1"
      "3 \<in> set (unblocked_clients s')" "\<exists>k. 1 \<le> int k \<and> k \<le> 1 \<and> released k (clients waiting_master 3) (clients s' 3)"
      "clients s' 2 = clients waiting_master 2"
    using sat a by auto
  then obtain k where "1 \<le> int k" "k \<le> 1" "released k (clients waiting_master 3) (clients s' 3)" by auto
  then have "released 1 (clients waiting_master 3) (clients s' 3)" by (cases "k = 1") auto
  with s' show ?thesis by blast
qed

text \<open>C26: the number of replicas of a WAIT is parsed as a \<^verbatim>\<open>long\<close> and kept as an \<^verbatim>\<open>int\<close>: a client that asks for
  4294967296 replicas is blocked, but with a demand of zero, so that the next pass over the waiting clients
  releases it although no replica acknowledged anything.\<close>

theorem wait_demand_truncated:
  assumes "masterhost s = None" "CLIENT_MULTI \<notin> c_flags (clients s i)" "length (slaves s) < 2 ^ 31"
    "q_argv (clients s i) = [w, createStringObject (bytes_of ''4294967296''), createStringObject (bytes_of ''0'')]"
  shows "\<exists>s'. waitCommand env now i s = Some s' \<and> i \<in> set (clients_waiting_acks s') \<and> CLIENT_BLOCKED \<in> c_flags (clients s' i)
    \<and> b_numreplicas (clients s' i) = 0 \<and> satisfied s' i"
proof -
  have n: "string2ll (bytes_of ''4294967296'') = Some 4294967296" "string2ll (bytes_of ''0'') = Some 0"
    using string2ll_dec [of 4294967296] string2ll_dec [of 0] by (simp_all add: dec_step dec_small)
  have "replicationCountAcksByOffset (sl_woff (clients s i)) s < 2 ^ 31" using count_le_slaves assms(3) by (rule le_less_trans)
  then have "\<not> int (replicationCountAcksByOffset (sl_woff (clients s i)) s) \<ge> 4294967296" by simp
  then show ?thesis using assms n
    by (simp add: waitCommand_def getLongFromObjectOrReply_def getTimeoutFromObjectOrReply_def getLongLongFromObjectOrReply_def
        getLongLongFromObject_bytes LLONG_MIN_def LLONG_MAX_def Let_def blockClient_wait_def replicationRequestAckFromSlaves_def set_client_def
        setflag_def satisfied_def)
qed

theorem wait_demand_truncated_witness:
  "\<exists>s'. waitCommand plain_env 0 5
      (initServer_repl (\<lambda>_. asking_client [bytes_of ''WAIT'', bytes_of ''4294967296'', bytes_of ''0'']) (replicate 40 97) 0) = Some s'
    \<and> 5 \<in> set (clients_waiting_acks s') \<and> CLIENT_BLOCKED \<in> c_flags (clients s' 5)
    \<and> b_numreplicas (clients s' 5) = 0 \<and> satisfied s' 5"
  by (rule wait_demand_truncated [where w = "createStringObject (bytes_of ''WAIT'')"])
    (use asking_client_output(5,6) [of "[bytes_of ''WAIT'', bytes_of ''4294967296'', bytes_of ''0'']"] in \<open>simp_all add: initServer_repl_def\<close>)

end
