(* ===== verification/Replication_Scripts.thy ===== *)
theory Replication_Scripts
  imports Replication
begin











end
