(* ===== verification/Spec2Isabelle.thy ===== *)
theory Spec2Isabelle
  imports Adlist_Refine Dict_Refine Slowlog Intset Sds_Refine Glob Client_Request_Spec Replication_Wait Replication_Scripts
begin

text \<open>
  A verification library for the core of Redis 5 (the C sources under \<^verbatim>\<open>src/redis5/src\<close>).

  \<^bold>\<open>The program.\<close> A Redis server reads requests from its clients into query buffers, parses them into
  argument vectors, executes commands on a key space of hash tables, and queues replies in client output
  buffers. Everything is built on a few data structures: dynamic strings (\<^verbatim>\<open>sds\<close>), doubly linked lists
  (\<^verbatim>\<open>adlist\<close>), incrementally rehashed hash tables (\<^verbatim>\<open>dict\<close>, keyed with SipHash), integer sets (\<^verbatim>\<open>intset\<close>)
  and reference-counted objects (\<^verbatim>\<open>object.c\<close>).

  \<^bold>\<open>Conventions.\<close> A C function is one HOL function of the same name, on explicit state. Reads and writes
  outside a buffer, null or dangling pointers, failed assertions and panics are the result \<open>None\<close>; so a
  theorem that a run gives \<open>Some\<close> also says that none of these happen. Bytes are 8-bit words, hashes and
  cursors 64-bit words; lengths are natural numbers and counters integers, with the reduction to their width
  written out where the code can wrap. New memory has arbitrary contents (\<open>junk\<close>). Code outside the
  repository and the environment (allocator, clock, \<^verbatim>\<open>random()\<close>, sockets) are parameters.

  \<^bold>\<open>Theories.\<close>
  \<^item> \<open>Prelude\<close>, \<open>Bytes\<close>: machine types, shared lemmas, integers in byte buffers (\<^verbatim>\<open>endianconv.c\<close> as the identity
    on a little-endian machine).
  \<^item> \<open>Adlist\<close>, \<open>Adlist_Refine\<close> (\<^verbatim>\<open>adlist.c\<close>): nodes in a store with explicit addresses; \<open>list_rep\<close> relates
    the pointers to a sequence. Sequences of operations compute the functional list; \<^verbatim>\<open>listDup\<close> leaks nothing.
  \<^item> \<open>Dict\<close>, \<open>Dict_Inv\<close>, \<open>Dict_Map\<close>, \<open>Dict_Scan\<close>, \<open>Dict_Sample\<close>, \<open>Dict_Maint\<close>, \<open>Dict_Refine\<close>
    (\<^verbatim>\<open>dict.c\<close>): both tables, incremental rehashing, safe and unsafe iterators, random sampling, and the
    reverse-binary scan. The locale \<open>dict_keys\<close> is what a \<^verbatim>\<open>dictType\<close> must promise (hashing respects key
    equality); it is interpreted for the dictionary types of the server in \<open>Server_Dict\<close>
    (\<^verbatim>\<open>server.c\<close>). The dictionary refines a finite map, a scan misses no key that stays in the dictionary, and
    scan, iteration and timed rehashing end.
  \<^item> \<open>Siphash\<close> (\<^verbatim>\<open>siphash.c\<close>), \<open>Util\<close> (the number conversions of \<^verbatim>\<open>util.c\<close>), \<open>Glob\<close> (\<^verbatim>\<open>stringmatchlen\<close>, against
    a declarative glob semantics), \<open>Strobj\<close> (string objects of \<^verbatim>\<open>object.c\<close>).
  \<^item> \<open>Slowlog\<close> (\<^verbatim>\<open>slowlog.c\<close>): on the linked list through the locale \<open>log_store\<close>; it holds the most recent slow
    commands.
  \<^item> \<open>Set_Store\<close>, \<open>Intset\<close> (\<^verbatim>\<open>intset.c\<close>): the blob of little-endian integers, with the upgrade of the width in
    place; \<open>Set_Store\<close> is the interface of a set of integers, interpreted on the blob.
  \<^item> \<open>Sds\<close>, \<open>Sds_Text\<close>, \<open>Sds_Spec\<close>, \<open>Sds_Refine\<close> (\<^verbatim>\<open>sds.c\<close>): header types, growth, formatting, splitting and
    quoting. Sequences of operations refine byte lists; quoting and splitting are inverted by reading and
    joining.
  \<^item> \<open>Client_Reply\<close>, \<open>Client_Reply_Spec\<close>, \<open>Client_Reply_Refine\<close> (\<^verbatim>\<open>networking.c\<close>, output): the static buffer,
    the reply list and deferred lengths. What was sent followed by what is pending is the RESP
    encoding of the replies.
  \<^item> \<open>Client_Request\<close>, \<open>Client_Request_Spec\<close> (\<^verbatim>\<open>networking.c\<close>, input): query buffer, inline and multi-bulk parser,
    read handler. However the network splits the encoding of a sequence of commands, exactly these commands run.
  \<^item> \<open>Replication\<close> and its lemmas (\<^verbatim>\<open>replication.c\<close>, the master): \<open>Replication_Ring\<close> shows that the backlog is a window on
    the end of the replication stream, \<open>Replication_Stream\<close> what a propagated command adds to the stream and to the
    output of every replica, \<open>Replication_Run\<close> that resynchronisation, acknowledgements and losses keep the invariant.
    \<open>Replication_Props\<close>: every replica receives a suffix of the stream that starts at the offset it was told, and
    replaying the stream gives the propagated commands with their databases. \<open>Replication_Wait\<close>: a PSYNC with a
    bad offset, and which clients WAIT releases. \<open>Replication_Scripts\<close>: the cache of replicated scripts.

  \<^bold>\<open>Fuel.\<close> Loops over possibly circular lists take fuel; the theorems show that one more than the number of
  nodes (list copy and search), buckets (timed rehashing: one call moves at least one bucket) or entries
  (iteration) is enough. The socket loops are \<^verbatim>\<open>partial_function\<close>s, where \<open>None\<close> is also non-termination, and
  are shown to return.

  \<^bold>\<open>Not modelled.\<close> Sockets, files, processes, threads and signals (\<^verbatim>\<open>ae.c\<close>, \<^verbatim>\<open>anet.c\<close>, \<^verbatim>\<open>bio.c\<close>, \<^verbatim>\<open>rio.c\<close>, the file
  side of \<^verbatim>\<open>rdb.c\<close> and \<^verbatim>\<open>aof.c\<close>), because they are operating system I/O; floating point replies and scores;
  Lua scripting and loadable modules, which run foreign code; the command line tools; the self tests and
  statistics printers. The manifest lists every part of the repository with its status.
\<close>

end
